(* ===== verification/Prelude.thy ===== *)
theory Prelude
  imports Main "HOL-Library.Word" "HOL-Library.Code_Target_Nat"
begin

text \<open>
  Shared vocabulary of the development: the machine integers of the x86-64 build
  (\<open>lib/libcflat.h\<close>), the result type in which every assertion, out-of-range access and
  undefined operation of the C code is a value, bounds-checked array access, and the
  generic lemmas on lists, results and words that the components share.
\<close>

unbundle bit_operations_syntax

section \<open>Machine integers\<close>

type_synonym u8 = "8 word"
type_synonym u16 = "16 word"
type_synonym u32 = "32 word"
type_synonym u64 = "64 word"

section \<open>Results\<close>

text \<open>
  What can stop a call of the library: a failed \<open>assert\<close> or \<open>assert_msg\<close>
  (\<open>AssertFail\<close>: the macro prints and calls \<open>abort\<close>), an access outside the object a
  pointer points into or through \<open>NULL\<close> (\<open>Fault\<close>), an operation C leaves undefined such as a
  shift by at least the width (\<open>Undef\<close>), and, for the loops that the model bounds by fuel,
  the bound being reached (\<open>NoFuel\<close>).
\<close>

datatype failure = AssertFail | Fault | Undef | NoFuel

type_synonym 'a res = "failure + 'a"

definition bind_res :: "'a res \<Rightarrow> ('a \<Rightarrow> 'b res) \<Rightarrow> 'b res" where
  "bind_res m f = (case m of Inl e \<Rightarrow> Inl e | Inr x \<Rightarrow> f x)"

text \<open>\<open>require P k\<close> is \<open>assert(P); k\<close>.\<close>

definition require :: "bool \<Rightarrow> 'a res \<Rightarrow> 'a res" where
  "require P k = (if P then k else Inl AssertFail)"

text \<open>\<open>defined P k\<close> is \<open>k\<close> where the C operation needs \<open>P\<close> to be defined.\<close>

definition defined :: "bool \<Rightarrow> 'a res \<Rightarrow> 'a res" where
  "defined P k = (if P then k else Inl Undef)"

text \<open>Array read and write: an index outside the array is a fault.\<close>

definition arr_get :: "'a list \<Rightarrow> nat \<Rightarrow> 'a res" where
  "arr_get xs i = (if i < length xs then Inr (xs ! i) else Inl Fault)"

definition arr_set :: "'a list \<Rightarrow> nat \<Rightarrow> 'a \<Rightarrow> 'a list res" where
  "arr_set xs i v = (if i < length xs then Inr (xs[i := v]) else Inl Fault)"

named_theorems res_simps \<open>rewriting of results\<close>

lemma bind_res_Inr [simp, res_simps]: "bind_res (Inr x) f = f x"
  by (simp add: bind_res_def)

lemma bind_res_Inl [simp, res_simps]: "bind_res (Inl e) f = Inl e"
  by (simp add: bind_res_def)

lemma bind_res_eq_Inr [res_simps]:
  "bind_res m f = Inr y \<longleftrightarrow> (\<exists>x. m = Inr x \<and> f x = Inr y)"
  by (cases m) auto

lemma bind_res_eq_Inl [res_simps]:
  "bind_res m f = Inl e \<longleftrightarrow> m = Inl e \<or> (\<exists>x. m = Inr x \<and> f x = Inl e)"
  by (cases m) auto

lemma bind_res_assoc:
  "bind_res (bind_res m f) g = bind_res m (\<lambda>x. bind_res (f x) g)"
  by (cases m) auto

lemma bind_res_cong [fundef_cong]:
  assumes "m = m'" and "\<And>x. m' = Inr x \<Longrightarrow> f x = f' x"
  shows "bind_res m f = bind_res m' f'"
  using assms by (cases m') auto

lemma require_cong [fundef_cong]:
  assumes "P = P'" and "P' \<Longrightarrow> k = k'"
  shows "require P k = require P' k'"
  using assms by (simp add: require_def)

lemma defined_cong [fundef_cong]:
  assumes "P = P'" and "P' \<Longrightarrow> k = k'"
  shows "defined P k = defined P' k'"
  using assms by (simp add: defined_def)

lemma require_True [simp, res_simps]: "P \<Longrightarrow> require P k = k"
  by (simp add: require_def)

lemma require_False [simp]: "\<not> P \<Longrightarrow> require P k = Inl AssertFail"
  by (simp add: require_def)

lemma require_eq_Inr [res_simps]: "require P k = Inr y \<longleftrightarrow> P \<and> k = Inr y"
  by (simp add: require_def)

lemma defined_True [simp, res_simps]: "P \<Longrightarrow> defined P k = k"
  by (simp add: defined_def)

lemma defined_False [simp]: "\<not> P \<Longrightarrow> defined P k = Inl Undef"
  by (simp add: defined_def)

lemma defined_eq_Inr [res_simps]: "defined P k = Inr y \<longleftrightarrow> P \<and> k = Inr y"
  by (simp add: defined_def)

lemma arr_get_in [simp, res_simps]: "i < length xs \<Longrightarrow> arr_get xs i = Inr (xs ! i)"
  by (simp add: arr_get_def)

lemma arr_get_eq_Inr [res_simps]: "arr_get xs i = Inr v \<longleftrightarrow> i < length xs \<and> v = xs ! i"
  by (auto simp: arr_get_def)

lemma arr_set_in [simp, res_simps]: "i < length xs \<Longrightarrow> arr_set xs i v = Inr (xs[i := v])"
  by (simp add: arr_set_def)

lemma arr_set_eq_Inr [res_simps]:
  "arr_set xs i v = Inr ys \<longleftrightarrow> i < length xs \<and> ys = xs[i := v]"
  by (auto simp: arr_set_def)

text \<open>
  Congruences under which the simplifier evaluates a computation step by step: the
  continuation is not touched before the result it waits for is known.
\<close>

lemma bind_res_weak_cong: "m = m' \<Longrightarrow> bind_res m f = bind_res m' f"
  by simp

lemma require_weak_cong: "P = Q \<Longrightarrow> require P k = require Q k"
  by simp

lemma defined_weak_cong: "P = Q \<Longrightarrow> defined P k = defined Q k"
  by simp

lemmas eval_cong = bind_res_weak_cong require_weak_cong defined_weak_cong let_weak_cong

lemma Inr_projr: "\<not> isl r \<Longrightarrow> r = Inr (projr r)"
  by (cases r) auto

section \<open>Lists\<close>

text \<open>The list \<open>xs\<close> with the \<open>n\<close> entries from \<open>p\<close> on replaced by \<open>v\<close>.\<close>

definition fill :: "nat \<Rightarrow> nat \<Rightarrow> 'a \<Rightarrow> 'a list \<Rightarrow> 'a list" where
  "fill p n v xs = take p xs @ replicate n v @ drop (p + n) xs"

lemma length_fill [simp]: "p + n \<le> length xs \<Longrightarrow> length (fill p n v xs) = length xs"
  by (simp add: fill_def)

lemma nth_fill:
  assumes "p + n \<le> length xs" "i < length xs"
  shows "fill p n v xs ! i = (if p \<le> i \<and> i < p + n then v else xs ! i)"
  using assms by (auto simp: fill_def nth_append min_def)

lemma fill_0 [simp]: "fill p 0 v xs = xs"
  by (simp add: fill_def)

lemma fill_Suc:
  assumes "p + Suc n \<le> length xs"
  shows "fill (Suc p) n v (xs[p := v]) = fill p (Suc n) v xs"
  by (rule nth_equalityI) (use assms in \<open>auto simp: nth_fill nth_list_update\<close>)

lemma remove1_map_inj: "inj f \<Longrightarrow> remove1 (f x) (map f xs) = map f (remove1 x xs)"
  by (induction xs) (auto simp: inj_eq)

section \<open>Alignment of block numbers\<close>

lemma aligned_blocks_disjoint:
  fixes p q :: nat
  assumes "p mod 2 ^ k = 0" "q mod 2 ^ k = 0" "p \<noteq> q"
  shows "p + 2 ^ k \<le> q \<or> q + 2 ^ k \<le> p"
proof -
  have "2 ^ k dvd p" "2 ^ k dvd q"
    using assms(1,2) by (auto simp: dvd_eq_mod_eq_0)
  then obtain a b where ab: "p = 2 ^ k * a" "q = 2 ^ k * b"
    unfolding dvd_def by blast
  with assms(3) have "a < b \<or> b < a" by auto
  then show ?thesis
  proof
    assume "a < b"
    then have "(2::nat) ^ k * (a + 1) \<le> 2 ^ k * b" by (intro mult_le_mono) auto
    then show ?thesis by (simp add: ab algebra_simps)
  next
    assume "b < a"
    then have "(2::nat) ^ k * (b + 1) \<le> 2 ^ k * a" by (intro mult_le_mono) auto
    then show ?thesis by (simp add: ab algebra_simps)
  qed
qed

lemma mod_pow2_le:
  fixes p :: nat
  assumes "p mod 2 ^ k = 0" "j \<le> k"
  shows "p mod 2 ^ j = 0"
  using assms by (meson dvd_eq_mod_eq_0 dvd_trans le_imp_power_dvd)

lemma not_aligned_Suc:
  fixes p :: nat
  assumes "p mod 2 ^ k = 0" "p mod 2 ^ Suc k \<noteq> 0"
  shows "2 ^ k \<le> p" and "(p - 2 ^ k) mod 2 ^ Suc k = 0"
proof -
  obtain a where a: "p = 2 ^ k * a"
    using assms(1) by (auto elim: dvdE simp flip: dvd_eq_mod_eq_0)
  have "odd a"
  proof
    assume "even a"
    then obtain b where "a = 2 * b" by (auto elim: dvdE)
    with a assms(2) show False by simp
  qed
  then obtain b where b: "a = 2 * b + 1" by (auto elim: oddE)
  show "2 ^ k \<le> p" by (simp add: a b)
  have "p - 2 ^ k = 2 ^ Suc k * b" by (simp add: a b algebra_simps)
  then show "(p - 2 ^ k) mod 2 ^ Suc k = 0" by simp
qed

end
