(* ===== verification/Bitops.thy ===== *)
theory Bitops
  imports Prelude
begin

text \<open>
  \<open>lib/bitops.h\<close> and the alignment macros of \<open>lib/libcflat.h\<close> on 64-bit words: masks,
  \<open>fls\<close> by binary search, \<open>is_power_of_2\<close> and \<open>get_order\<close>, with their meaning on
  natural numbers.
\<close>

section \<open>Definitions\<close>

definition BITS_PER_LONG :: nat where "BITS_PER_LONG = 64"
definition PAGE_SHIFT :: nat where "PAGE_SHIFT = 12"
definition PAGE_SIZE :: nat where "PAGE_SIZE = 4096"

definition BIT :: "nat \<Rightarrow> u64" where
  "BIT nr = push_bit nr 1"

definition GENMASK_ULL :: "nat \<Rightarrow> nat \<Rightarrow> u64" where
  "GENMASK_ULL h l = push_bit l (NOT 0) AND drop_bit (63 - h) (NOT 0)"

definition ALIGN_MASK :: "u64 \<Rightarrow> u64 \<Rightarrow> u64" where
  "ALIGN_MASK x msk = (x + msk) AND NOT msk"

definition ALIGN :: "u64 \<Rightarrow> u64 \<Rightarrow> u64" where
  "ALIGN x a = ALIGN_MASK x (a - 1)"

definition ALIGN_DOWN :: "u64 \<Rightarrow> u64 \<Rightarrow> u64" where
  "ALIGN_DOWN x a = ALIGN (x - (a - 1)) a"

definition IS_ALIGNED :: "u64 \<Rightarrow> u64 \<Rightarrow> bool" where
  "IS_ALIGNED x a \<longleftrightarrow> x AND (a - 1) = 0"

definition PAGE_ALIGN :: "u64 \<Rightarrow> u64" where
  "PAGE_ALIGN addr = ALIGN addr 4096"

definition PAGE_MASK :: u64 where
  "PAGE_MASK = NOT (4096 - 1)"

definition upper_32_bits :: "u64 \<Rightarrow> u32" where
  "upper_32_bits n = ucast (drop_bit 16 (drop_bit 16 n))"

definition lower_32_bits :: "u64 \<Rightarrow> u32" where
  "lower_32_bits n = ucast n"

text \<open>One halving step of \<open>fls\<close>: the top \<open>k\<close> bits are clear, so drop them.\<close>

definition fls_step :: "nat \<Rightarrow> nat \<times> u64 \<Rightarrow> nat \<times> u64" where
  "fls_step k = (\<lambda>(num, word).
     if word AND push_bit (64 - k) (NOT 0) = 0 then (num - k, push_bit k word) else (num, word))"

definition fls :: "u64 \<Rightarrow> nat" where
  "fls word =
     (let (num, w) = fls_step 2 (fls_step 4 (fls_step 8 (fls_step 16 (fls_step 32 (63, word)))))
      in if w AND push_bit 63 (NOT 0) = 0 then num - 1 else num)"

definition is_power_of_2 :: "u64 \<Rightarrow> bool" where
  "is_power_of_2 n \<longleftrightarrow> n \<noteq> 0 \<and> n AND (n - 1) = 0"

definition get_order :: "u64 \<Rightarrow> nat" where
  "get_order sz = (if sz \<noteq> 0 then fls sz + (if is_power_of_2 sz then 0 else 1) else 0)"

section \<open>Bits and powers of two\<close>

lemma and_high_mask_zero:
  fixes w :: u64
  assumes "k \<le> 64"
  shows "w AND push_bit k (NOT 0) = 0 \<longleftrightarrow> unat w < 2 ^ k"
proof -
  have "w AND push_bit k (NOT 0) = push_bit k (drop_bit k w)"
    by (rule bit_eqI) (auto simp: bit_simps)
  also have "\<dots> = 0 \<longleftrightarrow> drop_bit k w = 0"
  proof
    assume *: "push_bit k (drop_bit k w) = 0"
    show "drop_bit k w = 0"
    proof (rule bit_eqI)
      fix n
      have "bit (push_bit k (drop_bit k w)) (n + k) = bit (drop_bit k w) n" if "n + k < 64"
        using that by (simp add: bit_simps)
      then show "bit (drop_bit k w) n = bit 0 n"
        using * by (cases "n + k < 64") (auto simp: bit_simps dest: bit_imp_le_length)
    qed
  qed simp
  also have "\<dots> \<longleftrightarrow> unat w div 2 ^ k = 0"
    using unat_drop_bit_eq[of k w] by (simp only: drop_bit_eq_div flip: unat_eq_zero)
  also have "\<dots> \<longleftrightarrow> unat w < 2 ^ k" by (simp add: div_eq_0_iff)
  finally show ?thesis .
qed

lemma unat_lt64: "unat (w :: u64) < 2 ^ 64"
  by (rule order_less_le_trans[OF unsigned_less]) simp

lemma pow2_split: "(i::nat) + j = n \<Longrightarrow> (2::nat) ^ n = 2 ^ i * 2 ^ j"
  by (auto simp: power_add)

lemma unat_push_bit:
  fixes w :: u64
  assumes "unat w * 2 ^ k < 2 ^ 64"
  shows "unat (push_bit k w) = unat w * 2 ^ k"
proof -
  have "unat (push_bit k w) = take_bit 64 (push_bit k (unat w))"
    by (simp add: unsigned_push_bit_eq del: push_bit_eq_mult)
  with assms show ?thesis by (simp add: take_bit_eq_mod push_bit_eq_mult)
qed

definition fls_inv :: "u64 \<Rightarrow> nat \<Rightarrow> nat \<times> u64 \<Rightarrow> bool" where
  "fls_inv w k s \<longleftrightarrow>
     fst s \<le> 63 \<and> k \<le> fst s + 1 \<and> unat (snd s) = unat w * 2 ^ (63 - fst s) \<and> 2 ^ (64 - k) \<le> unat (snd s)"

lemma fls_step_inv:
  assumes "fls_inv w (2 * k) s" "0 < k" "2 * k \<le> 64"
  shows "fls_inv w k (fls_step k s)"
proof -
  obtain num x where s: "s = (num, x)" by (cases s)
  have i: "num \<le> 63" "2 * k \<le> num + 1" "unat x = unat w * 2 ^ (63 - num)" "2 ^ (64 - 2 * k) \<le> unat x"
    using assms(1) by (auto simp: fls_inv_def s)
  show ?thesis
  proof (cases "unat x < 2 ^ (64 - k)")
    case True
    have p: "(2::nat) ^ (64 - k) * 2 ^ k = 2 ^ 64"
      using assms(3) by (intro pow2_split[symmetric]) simp
    have "unat x * 2 ^ k < 2 ^ 64"
      using True p by (metis mult_less_mono1 zero_less_numeral zero_less_power)
    then have u: "unat (push_bit k x) = unat x * 2 ^ k" by (rule unat_push_bit)
    have e: "unat x * 2 ^ k = unat w * 2 ^ (63 - (num - k))"
      unfolding i(3) mult.assoc using pow2_split[of "63 - num" k "63 - (num - k)"] i(1,2) assms(2)
      by simp
    have n: "num - k \<le> 63" "k \<le> num - k + 1" using i(1,2) assms(2) by auto
    have "(2::nat) ^ (64 - 2 * k) * 2 ^ k \<le> unat x * 2 ^ k" using i(4) by simp
    moreover have "(2::nat) ^ (64 - 2 * k) * 2 ^ k = 2 ^ (64 - k)"
      using assms(3) by (intro pow2_split[symmetric]) simp
    ultimately have "2 ^ (64 - k) \<le> unat (push_bit k x)" using u by simp
    moreover have "fls_step k s = (num - k, push_bit k x)"
      using True and_high_mask_zero[of "64 - k" x] by (simp add: fls_step_def s)
    ultimately show ?thesis
      using u e n unfolding fls_inv_def by (simp del: push_bit_eq_mult)
  next
    case False
    then show ?thesis
      using and_high_mask_zero[of "64 - k" x] i by (simp add: fls_step_def s fls_inv_def)
  qed
qed

lemma fls_correct:
  assumes "w \<noteq> 0"
  shows "2 ^ fls w \<le> unat w" "unat w < 2 ^ (fls w + 1)" "fls w \<le> 63"
proof -
  have "fls_inv w 64 (63, w)"
    using assms by (simp add: fls_inv_def unat_gt_0 Suc_leI)
  then have "fls_inv w 2 (fls_step 2 (fls_step 4 (fls_step 8 (fls_step 16 (fls_step 32 (63, w))))))"
    using fls_step_inv[of w 32] fls_step_inv[of w 16] fls_step_inv[of w 8] fls_step_inv[of w 4]
      fls_step_inv[of w 2] by simp
  then obtain num x where
    s: "fls_step 2 (fls_step 4 (fls_step 8 (fls_step 16 (fls_step 32 (63, w))))) = (num, x)"
    and i: "num \<le> 63" "1 \<le> num" "unat x = unat w * 2 ^ (63 - num)" "2 ^ 62 \<le> unat x"
    by (cases "fls_step 2 (fls_step 4 (fls_step 8 (fls_step 16 (fls_step 32 (63, w)))))")
      (auto simp: fls_inv_def)
  have f: "fls w = (if unat x < 2 ^ 63 then num - 1 else num)"
    unfolding fls_def Let_def s using and_high_mask_zero[of 63 x] by simp
  have lt: "unat w * 2 ^ (63 - num) < 2 ^ 64" unfolding i(3)[symmetric] by (rule unat_lt64)
  have a: "(2::nat) ^ 64 = 2 ^ (num + 1) * 2 ^ (63 - num)"
    and b: "(2::nat) ^ 63 = 2 ^ num * 2 ^ (63 - num)"
    and c: "(2::nat) ^ 62 = 2 ^ (num - 1) * 2 ^ (63 - num)"
    using i(1,2) by (intro pow2_split; simp)+
  have pos: "(0::nat) < 2 ^ (63 - num)" by simp
  have "2 ^ fls w \<le> unat w \<and> unat w < 2 ^ (fls w + 1)"
  proof (cases "unat x < 2 ^ 63")
    case True
    then have "unat w < 2 ^ num" using i(3) b pos by (simp only: mult_less_cancel2)
    moreover have "2 ^ (num - 1) \<le> unat w"
      using i(3,4) c pos by (simp only: mult_le_cancel2)
    ultimately show ?thesis using True f i(2) by simp
  next
    case False
    then have "2 ^ num \<le> unat w" using i(3) b pos by (simp only: not_less mult_le_cancel2)
    moreover have "unat w < 2 ^ (num + 1)" using lt a pos by (simp only: mult_less_cancel2)
    ultimately show ?thesis using False f by simp
  qed
  then show "2 ^ fls w \<le> unat w" "unat w < 2 ^ (fls w + 1)" by auto
  have "fls w \<le> num" unfolding f by simp
  with i(1) show "fls w \<le> 63" by simp
qed

lemma bit_word_nat: "bit (w :: u64) k \<longleftrightarrow> odd (unat w div 2 ^ k)"
proof -
  have "bit w k = bit (unat w) k" by (simp add: bit_unsigned_iff)
  then show ?thesis by (simp add: bit_iff_odd)
qed

lemma unat_pow2: "k < 64 \<Longrightarrow> unat ((2::u64) ^ k) = 2 ^ k"
  using unat_push_bit[of 1 k] power_strict_increasing[of k 64 "2::nat"]
  by (simp add: push_bit_eq_mult)

lemma pow2_unique:
  assumes "(2::nat) ^ a \<le> 2 ^ k" "(2::nat) ^ k < 2 ^ (a + 1)"
  shows "k = a"
proof -
  have "a \<le> k" using assms(1) by (rule power_le_imp_le_exp[rotated]) simp
  moreover have "k < a + 1" using assms(2) by (rule power_less_imp_less_exp[rotated]) simp
  ultimately show ?thesis by simp
qed

lemma unat_minus1: "w \<noteq> 0 \<Longrightarrow> unat (w - 1 :: u64) = unat w - 1"
  by (rule unat_minus_one)

lemma and_pow2_minus1: "w AND ((2::u64) ^ k - 1) = take_bit k w"
  by (simp add: take_bit_eq_mask mask_eq_exp_minus_1)

lemma unat_take_bit: "unat (take_bit k (w :: u64)) = unat w mod 2 ^ k"
  using unsigned_take_bit_eq[of k w] by (simp only: take_bit_eq_mod)

lemma bit_fls: "w \<noteq> 0 \<Longrightarrow> bit w (fls w)"
  using fls_correct[of w] div_nat_eqI[of "2 ^ fls w" 1 "unat w"] by (simp add: bit_word_nat)

lemma is_power_of_2_iff: "is_power_of_2 n \<longleftrightarrow> (\<exists>k < 64. unat n = 2 ^ k)"
proof (cases "n = 0")
  case True
  then show ?thesis by (simp add: is_power_of_2_def)
next
  case False
  let ?k = "fls n"
  note f = fls_correct[OF False]
  have "n AND (n - 1) = 0 \<longleftrightarrow> unat n = 2 ^ ?k"
  proof
    assume z: "n AND (n - 1) = 0"
    have "\<not> bit (n - 1) ?k"
      using z bit_fls[OF False] by (metis bit_0_eq bit_and_iff bot_apply bot_bool_def)
    moreover have "bit (n - 1) ?k" if "2 ^ ?k \<noteq> unat n"
      unfolding bit_word_nat unat_minus1[OF False]
      using f that div_nat_eqI[of "2 ^ ?k" 1 "unat n - 1"] by simp
    ultimately show "unat n = 2 ^ ?k" by metis
  next
    assume n: "unat n = 2 ^ ?k"
    have "n = 2 ^ ?k" using n unat_pow2[of ?k] f(3) by (simp add: word_unat_eq_iff)
    then have "n AND (n - 1) = take_bit ?k n" using and_pow2_minus1[of n ?k] by simp
    moreover have "unat (take_bit ?k n) = 0" by (simp add: unat_take_bit n)
    ultimately show "n AND (n - 1) = 0" by (simp add: unat_eq_zero)
  qed
  moreover have "(\<exists>k < 64. unat n = 2 ^ k) \<longleftrightarrow> unat n = 2 ^ ?k"
  proof
    assume "\<exists>k < 64. unat n = 2 ^ k"
    then obtain k where "unat n = 2 ^ k" by blast
    with f(1,2) have "k = ?k" by (metis pow2_unique)
    with \<open>unat n = 2 ^ k\<close> show "unat n = 2 ^ ?k" by simp
  qed (use f(3) in \<open>auto intro!: exI[of _ ?k]\<close>)
  ultimately show ?thesis using False by (simp add: is_power_of_2_def)
qed

text \<open>\<open>get_order\<close> is the least order whose block holds the size.\<close>

lemma get_order_correct:
  assumes "w \<noteq> 0"
  shows "unat w \<le> 2 ^ get_order w" and "get_order w \<noteq> 0 \<Longrightarrow> 2 ^ (get_order w - 1) < unat w"
proof -
  note f = fls_correct[OF assms]
  have p: "is_power_of_2 w \<longleftrightarrow> unat w = 2 ^ fls w"
  proof
    assume "is_power_of_2 w"
    then obtain k where k: "unat w = 2 ^ k" by (auto simp: is_power_of_2_iff)
    with f(1,2) have "k = fls w" by (metis pow2_unique)
    with k show "unat w = 2 ^ fls w" by simp
  qed (use f(3) in \<open>auto simp: is_power_of_2_iff intro!: exI[of _ "fls w"]\<close>)
  show "unat w \<le> 2 ^ get_order w"
    using assms f(2) p by (auto simp: get_order_def)
  show "2 ^ (get_order w - 1) < unat w" if "get_order w \<noteq> 0"
    using assms f(1) p that
    by (cases "fls w") (auto simp: get_order_def le_less split: if_splits)
qed

lemma IS_ALIGNED_iff:
  assumes "k < 64"
  shows "IS_ALIGNED x (2 ^ k) \<longleftrightarrow> unat x mod 2 ^ k = 0"
  unfolding IS_ALIGNED_def and_pow2_minus1 by (simp add: unat_take_bit flip: unat_eq_zero)

lemma ALIGN_pow2:
  assumes "k < 64" "unat x + 2 ^ k - 1 < 2 ^ 64"
  shows "unat (ALIGN x (2 ^ k)) = (unat x + 2 ^ k - 1) div 2 ^ k * 2 ^ k"
proof -
  let ?y = "x + (2 ^ k - 1)"
  have m: "unat ((2::u64) ^ k - 1) = 2 ^ k - 1"
    using unat_pow2[OF assms(1)] unat_minus1[of "2 ^ k"] by (metis unat_eq_zero power_not_zero zero_neq_numeral)
  have y: "unat ?y = unat x + 2 ^ k - 1"
    using assms(2) m by (simp add: unat_word_ariths)
  have "ALIGN x (2 ^ k) = ?y AND NOT (mask k)"
    by (simp add: ALIGN_def ALIGN_MASK_def mask_eq_exp_minus_1)
  also have "\<dots> = push_bit k (drop_bit k ?y)"
    by (rule bit_eqI) (auto simp: bit_simps)
  finally have "unat (ALIGN x (2 ^ k)) = unat (push_bit k (drop_bit k ?y))" by simp
  also have "\<dots> = unat ?y div 2 ^ k * 2 ^ k"
  proof -
    have d: "unat (drop_bit k ?y) = unat ?y div 2 ^ k"
      using unat_drop_bit_eq[of k ?y] by (simp only: drop_bit_eq_div)
    have "unat ?y div 2 ^ k * 2 ^ k \<le> unat ?y" by simp
    then have "unat (drop_bit k ?y) * 2 ^ k < 2 ^ 64"
      unfolding d using unat_lt64[of ?y] by (rule order_le_less_trans)
    then show ?thesis using unat_push_bit[of "drop_bit k ?y" k] d by simp
  qed
  finally show ?thesis unfolding y .
qed

end
