(* ===== verification/Ldiv32.thy ===== *)
theory Ldiv32
  imports Bitops "HOL-Library.Signed_Division"
begin

text \<open>
  \<open>lib/ldiv32.c\<close>: 64-bit division for 32-bit targets by shift and subtract, and the
  leading-zero counts of the RISC-V build. The 64-bit integers are words; a signed
  computation that overflows and the division by zero are undefined.
\<close>

section \<open>Definitions\<close>

text \<open>\<open>while (num) { ++n; num >>= 1; }\<close>\<close>

function clz_loop :: "u32 \<Rightarrow> nat \<Rightarrow> nat" where
  "clz_loop num n = (if num \<noteq> 0 then clz_loop (drop_bit 1 num) (n + 1) else n)"
  by pat_completeness auto
termination
proof (relation "measure (\<lambda>(num, n). unat num)")
  fix num :: u32 and n :: nat
  assume "num \<noteq> 0"
  then have "unat num div 2 < unat num" by (simp add: unat_gt_0)
  then show "((drop_bit 1 num, n + 1), num, n) \<in> measure (\<lambda>(num, n). unat num)"
    using unat_drop_bit_eq[of 1 num] by (simp add: drop_bit_eq_div)
qed simp

declare clz_loop.simps [simp del]

definition clzsi2 :: "u32 \<Rightarrow> nat" where
  "clzsi2 num = 32 - clz_loop num 0"

definition clzdi2 :: "u64 \<Rightarrow> nat" where
  "clzdi2 num = (if drop_bit 32 num \<noteq> 0 then clzsi2 (ucast (drop_bit 32 num)) else clzsi2 (ucast num) + 32)"

text \<open>\<open>__builtin_clzll\<close>: the number of clear bits above the highest set one.\<close>

definition clzll :: "u64 \<Rightarrow> nat" where
  "clzll w = length (takeWhile (\<lambda>i. \<not> bit w i) (rev [0..<64]))"

text \<open>The \<open>do ... while (n--)\<close> loop, on \<open>num\<close>, \<open>den\<close> and \<open>quot\<close>; the result is \<open>(quot, num)\<close>.\<close>

definition udiv_step :: "u64 \<Rightarrow> u64 \<Rightarrow> u64 \<Rightarrow> u64 \<times> u64" where
  "udiv_step num den quot =
     (let quot = push_bit 1 quot in
      if num \<ge> den then (num - den, quot OR 1) else (num, quot))"

fun udiv_loop :: "nat \<Rightarrow> u64 \<Rightarrow> u64 \<Rightarrow> u64 \<Rightarrow> u64 \<times> u64" where
  "udiv_loop 0 num den quot = (let (num', quot') = udiv_step num den quot in (quot', num'))"
| "udiv_loop (Suc n) num den quot =
     (let (num', quot') = udiv_step num den quot in udiv_loop n num' (drop_bit 1 den) quot')"

text \<open>The quotient and the remainder stored through \<open>p_rem\<close>.\<close>

definition udivmoddi4 :: "u64 \<Rightarrow> u64 \<Rightarrow> (u64 \<times> u64) res" where
  "udivmoddi4 num den =
     (if den = 0 then Inl Undef
      else if num \<ge> den
      then let n = clzll den - clzll num in Inr (udiv_loop n num (push_bit n den) 0)
      else Inr (0, num))"

text \<open>\<open>int64_t\<close> values are words read with \<open>sint\<close>; the masks are 0 or -1, sign-extended.\<close>

definition divmoddi4 :: "u64 \<Rightarrow> u64 \<Rightarrow> (u64 \<times> u64) res" where
  "divmoddi4 num den =
     (let nmask = (if sint num < 0 then -1 else 0);
          qmask = (if sint (num XOR den) < 0 then -1 else 0)
      in defined (sint num \<noteq> - (2 ^ 63) \<and> sint den \<noteq> - (2 ^ 63))
        (let num' = (num + nmask) XOR nmask;
             den' = (if sint den < 0 then - den else den)
         in bind_res (udivmoddi4 num' den') (\<lambda>(q, r).
              Inr ((q + qmask) XOR qmask, (r + nmask) XOR nmask))))"

definition moddi3 :: "u64 \<Rightarrow> u64 \<Rightarrow> u64 res" where
  "moddi3 num den = bind_res (divmoddi4 num den) (\<lambda>(q, r). Inr r)"

definition divdi3 :: "u64 \<Rightarrow> u64 \<Rightarrow> u64 res" where
  "divdi3 num den = bind_res (divmoddi4 num den) (\<lambda>(q, r). Inr q)"

definition udivdi3 :: "u64 \<Rightarrow> u64 \<Rightarrow> u64 res" where
  "udivdi3 num den = bind_res (udivmoddi4 num den) (\<lambda>(q, r). Inr q)"

definition umoddi3 :: "u64 \<Rightarrow> u64 \<Rightarrow> u64 res" where
  "umoddi3 num den = bind_res (udivmoddi4 num den) (\<lambda>(q, r). Inr r)"

section \<open>Leading zeros\<close>

text \<open>The highest set bit of a number between \<open>2^k\<close> and \<open>2^(k+1)\<close>.\<close>

lemma takeWhile_rev_upt:
  assumes "k < m" "P k" "\<And>i. k < i \<Longrightarrow> i < m \<Longrightarrow> \<not> P i"
  shows "takeWhile (\<lambda>i. \<not> P i) (rev [0..<m]) = rev [Suc k..<m]"
proof -
  have "[0..<m] = [0..<k] @ [k..<m]" using assms(1) using upt_add_eq_append[of 0 k "m - k"] by simp
  moreover have "[k..<m] = k # [Suc k..<m]" using assms(1) by (rule upt_conv_Cons)
  ultimately have "rev [0..<m] = rev [Suc k..<m] @ k # rev [0..<k]" by simp
  moreover have "takeWhile (\<lambda>i. \<not> P i) (rev [Suc k..<m] @ k # rev [0..<k]) = rev [Suc k..<m]"
    using assms(2,3) by (subst takeWhile_append2) auto
  ultimately show ?thesis by simp
qed

lemma bit_above_fls:
  assumes "w \<noteq> 0" "fls w < i"
  shows "\<not> bit w i"
proof -
  have "unat w < 2 ^ (fls w + 1)" using fls_correct[OF assms(1)] by simp
  also have "\<dots> \<le> 2 ^ i" using assms(2) by (intro power_increasing) auto
  finally show ?thesis by (simp add: bit_word_nat)
qed

lemma clzll_fls: "w \<noteq> 0 \<Longrightarrow> clzll w = 63 - fls w"
  using takeWhile_rev_upt[of "fls w" 64 "bit w"] bit_fls[of w] bit_above_fls[of w] fls_correct(3)[of w]
  by (simp add: clzll_def)

section \<open>Unsigned division\<close>

lemma unat_double:
  assumes "(unat q + 1) * 2 ^ Suc k \<le> 2 ^ 64"
  shows "unat (push_bit 1 q :: u64) = 2 * unat q" "unat (push_bit 1 q OR 1 :: u64) = 2 * unat q + 1"
proof -
  have "(unat q + 1) * 2 * 1 \<le> (unat q + 1) * 2 * 2 ^ k" by (intro mult_le_mono) auto
  then have b: "2 * unat q + 1 < 2 ^ 64" using assms by (simp add: algebra_simps)
  show p: "unat (push_bit 1 q :: u64) = 2 * unat q" using unat_push_bit[of q 1] b by simp
  have "push_bit 1 q OR 1 = push_bit 1 q + 1" by (simp add: or_one_eq)
  then show "unat (push_bit 1 q OR 1 :: u64) = 2 * unat q + 1"
    using p b by (simp add: unat_word_ariths)
qed

text \<open>
  One round keeps \<open>quot * den + num\<close> when \<open>den\<close> is what the quotient bit is worth: the bit
  \<open>b\<close> it adds is 1 exactly when \<open>den\<close> fits.
\<close>

lemma udiv_step_correct:
  assumes "(unat quot + 1) * 2 ^ Suc k \<le> 2 ^ 64"
  obtains b :: nat where "b \<le> 1"
    "unat (snd (udiv_step num den quot)) = 2 * unat quot + b"
    "unat num = b * unat den + unat (fst (udiv_step num den quot))"
    "unat num < 2 * unat den \<Longrightarrow> unat (fst (udiv_step num den quot)) < unat den"
proof (cases "den \<le> num")
  case True
  then have "unat (num - den) = unat num - unat den" "unat den \<le> unat num"
    by (simp_all add: unat_sub word_le_nat_alt)
  then show ?thesis using True unat_double(2)[OF assms] by (intro that[of 1]) (simp_all add: udiv_step_def)
next
  case False
  then have "unat num < unat den" by (simp add: word_le_nat_alt)
  then show ?thesis using False unat_double(1)[OF assms] by (intro that[of 0]) (simp_all add: udiv_step_def)
qed

lemma udiv_loop_correct:
  assumes "unat den = d * 2 ^ k" "unat num < d * 2 ^ Suc k" "(unat quot + 1) * 2 ^ Suc k \<le> 2 ^ 64"
    "udiv_loop k num den quot = (q, r)"
  shows "unat q = unat quot * 2 ^ Suc k + unat num div d \<and> unat r = unat num mod d"
  using assms
proof (induction k arbitrary: num den quot)
  case 0
  obtain num' quot' where s: "udiv_step num den quot = (num', quot')" by fastforce
  obtain b where b: "b \<le> 1" "unat quot' = 2 * unat quot + b" "unat num = b * d + unat num'" "unat num' < d"
    by (rule udiv_step_correct[OF "0.prems"(3), of num den]) (use 0 s in auto)
  then have "unat num div d = b" "unat num mod d = unat num'" by auto
  then show ?case using 0 s b by auto
next
  case (Suc k)
  obtain num' quot' where s: "udiv_step num den quot = (num', quot')" by fastforce
  obtain b where b: "b \<le> 1" "unat quot' = 2 * unat quot + b"
      "unat num = b * (d * 2 ^ Suc k) + unat num'" "unat num' < d * 2 ^ Suc k"
    by (rule udiv_step_correct[OF "Suc.prems"(3), of num den]) (use Suc.prems s in auto)
  have "unat (drop_bit 1 den) = d * 2 ^ k"
    using Suc.prems(1) unat_drop_bit_eq[of 1 den] by (simp add: drop_bit_eq_div)
  moreover have "(unat quot' + 1) * 2 ^ Suc k \<le> 2 ^ 64"
  proof -
    have "(unat quot' + 1) * 2 ^ Suc k \<le> (2 * unat quot + 2) * 2 ^ Suc k"
      using b(1,2) by (intro mult_le_mono) auto
    also have "\<dots> = (unat quot + 1) * 2 ^ Suc (Suc k)" by (simp add: algebra_simps)
    finally show ?thesis using Suc.prems(3) by simp
  qed
  ultimately have "unat q = unat quot' * 2 ^ Suc k + unat num' div d \<and> unat r = unat num' mod d"
    using Suc.IH[of "drop_bit 1 den" num' quot'] b(4) Suc.prems(4) s by simp
  moreover have "unat num div d = b * 2 ^ Suc k + unat num' div d" "unat num mod d = unat num' mod d"
  proof -
    have "unat num = unat num' + (b * 2 ^ Suc k) * d" using b(3) by (simp add: algebra_simps)
    moreover have "d \<noteq> 0" using b(4) by (cases d) auto
    ultimately show "unat num div d = b * 2 ^ Suc k + unat num' div d" "unat num mod d = unat num' mod d"
      by (simp_all del: power_Suc)
  qed
  ultimately show ?case using b(2) by (simp add: algebra_simps)
qed

lemma udivmoddi4_correct:
  assumes "den \<noteq> 0"
  shows "udivmoddi4 num den = Inr (num div den, num mod den)"
proof (cases "num \<ge> den")
  case True
  then have nz: "num \<noteq> 0" using assms by auto
  define n where "n = fls num - fls den"
  have f: "2 ^ fls num \<le> unat num" "unat num < 2 ^ Suc (fls num)" "fls num < 64"
    "2 ^ fls den \<le> unat den" "unat den < 2 ^ Suc (fls den)"
    using fls_correct[OF nz] fls_correct[OF assms] by auto
  have le: "fls den \<le> fls num"
  proof (rule ccontr)
    assume "\<not> ?thesis"
    then have "(2::nat) ^ Suc (fls num) \<le> 2 ^ fls den" by (intro power_increasing) auto
    then show False using f True by (simp add: word_le_nat_alt)
  qed
  have n: "clzll den - clzll num = n" using clzll_fls[OF nz] clzll_fls[OF assms] le f(3) by (simp add: n_def)
  have up: "unat den * 2 ^ n < 2 ^ 64"
  proof -
    have "unat den * 2 ^ n < 2 ^ Suc (fls den) * 2 ^ n" using f(5) by simp
    also have "\<dots> = 2 ^ Suc (fls num)" using le by (simp add: n_def flip: power_add)
    also have "\<dots> \<le> (2::nat) ^ 64" using f(3) by (intro power_increasing) auto
    finally show ?thesis .
  qed
  have "unat num < unat den * 2 ^ Suc n"
  proof -
    have "(2::nat) ^ Suc (fls num) = 2 ^ fls den * 2 ^ Suc n" using le by (simp add: n_def flip: power_add)
    also have "\<dots> \<le> unat den * 2 ^ Suc n" using f(4) by simp
    finally show ?thesis using f(2) by simp
  qed
  moreover have "(2::nat) ^ Suc n \<le> 2 ^ 64" using f(3) by (intro power_increasing) (auto simp: n_def)
  moreover have "unat (push_bit n den) = unat den * 2 ^ n" using unat_push_bit[of den n] up by (simp add: mult.commute)
  moreover obtain q r where "udiv_loop n num (push_bit n den) 0 = (q, r)" by fastforce
  ultimately have "unat q = unat num div unat den" "unat r = unat num mod unat den"
    using udiv_loop_correct[of "push_bit n den" "unat den" n num 0 q r] by (simp_all del: power_Suc)
  then have "q = num div den" "r = num mod den" by (simp_all add: word_unat_eq_iff unat_div unat_mod)
  then show ?thesis using True assms n \<open>udiv_loop n num (push_bit n den) 0 = (q, r)\<close>
    by (simp add: udivmoddi4_def)
next
  case False
  then have "num div den = 0" "num mod den = num"
    by (simp_all add: word_unat_eq_iff unat_div unat_mod word_le_nat_alt)
  then show ?thesis using False assms by (simp add: udivmoddi4_def)
qed

section \<open>Signed division\<close>

text \<open>Adding the mask 0 or -1 and inverting with it is the identity or the negation.\<close>

lemma mask_negates:
  fixes x :: u64
  shows "(x + 0) XOR 0 = x" "(x + -1) XOR -1 = - x"
  using minus_eq_not_minus_1[of x] by simp_all

lemma sint_range: "- (2 ^ 63) \<le> sint (x :: u64)" "sint (x :: u64) < 2 ^ 63"
  using sint_greater_eq[of x] sint_lt[of x] by simp_all

lemma sint_word_of_int:
  assumes "- (2 ^ 63) \<le> k" "k < 2 ^ 63"
  shows "sint (word_of_int k :: u64) = k"
  using sint_sbintrunc'[of k, where ?'a = 64] signed_take_bit_int_eq_self[of 63 k] assms by simp

lemma uint_word_of_int:
  assumes "0 \<le> k" "k < 2 ^ 64"
  shows "uint (word_of_int k :: u64) = k"
  using take_bit_int_eq_self[of k 64] assms by (simp add: unsigned_of_int)

lemma word_magnitude:
  fixes x :: u64
  shows "(if sint x < 0 then - x else x) = word_of_int \<bar>sint x\<bar>"
proof -
  have "word_of_int (- sint x) = - (word_of_int (sint x) :: u64)" by (rule of_int_minus)
  then show ?thesis by (simp add: abs_if)
qed

lemma sign_xor: "sint (x XOR y :: u64) < 0 \<longleftrightarrow> (sint x < 0) \<noteq> (sint y < 0)"
  using bit_last_iff[of x] bit_last_iff[of y] bit_last_iff[of "x XOR y"] by (auto simp: bit_xor_iff)

text \<open>The quotient is truncated towards zero and the remainder has the sign of the dividend.\<close>

lemma divmoddi4_correct:
  assumes "den \<noteq> 0" "sint num \<noteq> - (2 ^ 63)" "sint den \<noteq> - (2 ^ 63)"
  obtains q r where "divmoddi4 num den = Inr (q, r)"
    "sint q = sint num sdiv sint den" "sint r = sint num smod sint den"
proof -
  define a b where "a = \<bar>sint num\<bar>" and "b = \<bar>sint den\<bar>"
  have nz: "sint den \<noteq> 0" using assms(1) by (metis sint_0 signed_word_eqI)
  have r: "0 \<le> a" "a < 2 ^ 63" "0 < b" "b < 2 ^ 63"
    using sint_range[of num] sint_range[of den] assms(2,3) nz by (auto simp: a_def b_def)
  have d0: "(word_of_int b :: u64) \<noteq> 0"
  proof
    assume "(word_of_int b :: u64) = 0"
    then show False using uint_word_of_int[of b] r by simp
  qed
  have ab: "0 \<le> a div b" "a div b < 2 ^ 63" "0 \<le> a mod b" "a mod b < 2 ^ 63"
    using r zdiv_mono2[of a 1 b] zmod_le_nonneg_dividend[of a b]
    by (simp_all add: pos_imp_zdiv_nonneg_iff)
  have u: "udivmoddi4 (word_of_int a) (word_of_int b) = Inr (word_of_int (a div b), word_of_int (a mod b))"
    using udivmoddi4_correct[OF d0] uint_word_of_int[of a] uint_word_of_int[of b] r
    by (simp add: word_div_def word_mod_def)
  define neg where "neg = ((sint num < 0) \<noteq> (sint den < 0))"
  define q r :: u64 where "q = word_of_int (if neg then - (a div b) else a div b)"
    and "r = word_of_int (if sint num < 0 then - (a mod b) else a mod b)"
  have "divmoddi4 num den = Inr (q, r)"
  proof -
    have "(num + (if sint num < 0 then -1 else 0)) XOR (if sint num < 0 then -1 else 0) = word_of_int a"
      using word_magnitude[of num] mask_negates[of num] by (simp add: a_def)
    moreover have "(if sint den < 0 then - den else den) = word_of_int b"
      using word_magnitude[of den] by (simp add: b_def)
    ultimately show ?thesis using u assms(2,3) mask_negates[of "word_of_int (a div b)"] mask_negates[of "word_of_int (a mod b)"]
      by (simp only: divmoddi4_def Let_def sign_xor defined_True bind_res_Inr prod.case q_def r_def neg_def
          of_int_minus if_distrib[of word_of_int] refl simp_thms HOL.if_True HOL.if_False split: if_splits)
  qed
  moreover have "sint q = (if neg then - (a div b) else a div b)"
    unfolding q_def by (rule sint_word_of_int) (use ab in auto)
  then have "sint q = sint num sdiv sint den"
    using nz by (auto simp: neg_def signed_divide_int_def a_def b_def sgn_if)
  moreover have "sint r = (if sint num < 0 then - (a mod b) else a mod b)"
    unfolding r_def by (rule sint_word_of_int) (use ab in auto)
  then have "sint r = sint num smod sint den"
    by (auto simp: signed_modulo_int_def a_def b_def sgn_if)
  ultimately show ?thesis by (rule that)
qed

section \<open>The RISC-V leading-zero counts\<close>

lemma clz_loop_correct:
  assumes "num \<noteq> 0"
  shows "\<exists>k. clz_loop num n = n + Suc k \<and> 2 ^ k \<le> unat num \<and> unat num < 2 ^ Suc k"
  using assms
proof (induction num n rule: clz_loop.induct)
  case (1 num n)
  have half: "unat (drop_bit 1 num) = unat num div 2"
    using unat_drop_bit_eq[of 1 num] by (simp add: drop_bit_eq_div)
  show ?case
  proof (cases "drop_bit 1 num = 0")
    case True
    then have "unat num div 2 = 0" using half by simp
    then have "unat num < 2" by simp
    moreover have "0 < unat num" using "1.prems" by (simp add: unat_gt_0)
    ultimately show ?thesis using True "1.prems"
      by (intro exI[of _ 0]) (simp add: clz_loop.simps[of num] clz_loop.simps[of 0])
  next
    case False
    then obtain k where "clz_loop (drop_bit 1 num) (n + 1) = n + 1 + Suc k"
      "2 ^ k \<le> unat num div 2" "unat num div 2 < 2 ^ Suc k"
      using "1.IH"[OF "1.prems" False] half by auto
    then show ?thesis using "1.prems"
      by (intro exI[of _ "Suc k"]) (auto simp: clz_loop.simps[of num])
  qed
qed

lemma fls_unique:
  assumes "2 ^ k \<le> unat w" "unat w < 2 ^ Suc k"
  shows "fls w = k"
proof -
  have nz: "w \<noteq> 0" using assms(1) by auto
  have "\<not> fls w < k" "\<not> k < fls w"
    using fls_correct[OF nz] assms power_increasing[of "Suc (fls w)" k "2::nat"]
      power_increasing[of "Suc k" "fls w" "2::nat"] by auto
  then show ?thesis by simp
qed

lemma clzsi2_correct:
  assumes "2 ^ k \<le> unat num" "unat num < 2 ^ Suc k"
  shows "clzsi2 num = 31 - k"
proof -
  have "num \<noteq> 0" using assms(1) by auto
  then obtain j where "clz_loop num 0 = Suc j" "2 ^ j \<le> unat num" "unat num < 2 ^ Suc j"
    using clz_loop_correct[of num 0] by auto
  moreover from this assms have "\<not> j < k" "\<not> k < j"
    using power_increasing[of "Suc j" k "2::nat"] power_increasing[of "Suc k" j "2::nat"] by auto
  ultimately show ?thesis by (simp add: clzsi2_def)
qed

lemma unat_ucast32: "unat (ucast (w :: u64) :: u32) = unat w mod 2 ^ 32"
  by (simp add: unsigned_ucast_eq take_bit_eq_mod)

lemma clzdi2_correct:
  assumes "w \<noteq> 0"
  shows "clzdi2 w = 63 - fls w"
proof -
  note f = fls_correct[OF assms]
  have hi: "unat (drop_bit 32 w) = unat w div 2 ^ 32"
    using unat_drop_bit_eq[of 32 w] by (simp add: drop_bit_eq_div)
  have lt: "unat w < 2 ^ 64" by (rule unat_lt64)
  show ?thesis
  proof (cases "drop_bit 32 w = 0")
    case True
    then have small: "unat w < 2 ^ 32" using hi by simp
    then have u: "unat (ucast w :: u32) = unat w" by (simp add: unat_ucast32)
    have "fls w < 32" using f(1) small by (meson le_less_trans one_less_numeral_iff power_less_imp_less_exp semiring_norm(76))
    then show ?thesis using True clzsi2_correct[of "fls w" "ucast w"] f u by (simp add: clzdi2_def)
  next
    case False
    then have big: "2 ^ 32 \<le> unat w" using hi by (simp add: word_unat_eq_iff div_eq_0_iff)
    have "\<not> fls w < 32" using f(2) big power_increasing[of "Suc (fls w)" 32 "2::nat"] by auto
    then obtain k where k: "fls w = k + 32" by (metis add.commute le_Suc_ex not_less)
    have u: "unat (ucast (drop_bit 32 w) :: u32) = unat w div 2 ^ 32"
      using hi lt by (simp add: unat_ucast32)
    have "2 ^ k \<le> unat w div 2 ^ 32" using f(1) by (simp add: k power_add less_eq_div_iff_mult_less_eq)
    moreover have "unat w div 2 ^ 32 < 2 ^ Suc k"
      using f(2) by (simp add: k power_add div_less_iff_less_mult)
    ultimately show ?thesis using False clzsi2_correct[of k "ucast (drop_bit 32 w)"] u
      by (simp add: clzdi2_def k)
  qed
qed

section \<open>Properties\<close>

text \<open>
  The unsigned 64-bit division and remainder routines compute the machine division for
  every pair of operands; a zero divisor is undefined.
\<close>

theorem udiv_equiv:
  "udivdi3 num den = (if den = 0 then Inl Undef else Inr (num div den)) \<and>
   umoddi3 num den = (if den = 0 then Inl Undef else Inr (num mod den))"
  by (simp add: udivdi3_def umoddi3_def udivmoddi4_correct) (simp add: udivmoddi4_def)

text \<open>
  C39: the signed routines truncate the quotient towards zero and give the remainder the sign
  of the dividend, whenever neither operand is the least 64-bit integer, whose negation
  overflows.
\<close>

theorem sdiv_equiv:
  assumes "den \<noteq> 0" "sint num \<noteq> - (2 ^ 63)" "sint den \<noteq> - (2 ^ 63)"
  shows "\<exists>q r. divdi3 num den = Inr q \<and> moddi3 num den = Inr r \<and>
    sint q = sint num sdiv sint den \<and> sint r = sint num smod sint den"
  by (rule divmoddi4_correct[OF assms]) (simp add: divdi3_def moddi3_def)

theorem sdiv_equiv_witness:
  "\<exists>q r. divdi3 (- 33) 5 = Inr q \<and> moddi3 (- 33) 5 = Inr r \<and> sint q = - 6 \<and> sint r = - 3"
  using sdiv_equiv[of 5 "- 33"] by (simp add: signed_divide_int_def signed_modulo_int_def)

text \<open>
  On every non-zero operand the RISC-V replacement of the leading-zero count returns what
  the compiler builtin it stands for returns.
\<close>

theorem clz_equiv: "w \<noteq> 0 \<Longrightarrow> clzdi2 w = clzll w"
  by (simp add: clzdi2_correct clzll_fls)

theorem clz_equiv_witness: "(5 :: u64) \<noteq> 0 \<and> clzdi2 5 = clzll 5"
  using clz_equiv[of 5] by simp

end
