(* ===== verification/CString.thy ===== *)
theory CString
  imports Prelude
begin

text \<open>
  \<open>lib/ctype.h\<close> and \<open>lib/string.c\<close>. Memory is a list of bytes and an address an index into it,
  so that \<open>dest\<close> and \<open>src\<close> may overlap and reading or writing past the end is a \<open>Fault\<close>.
  A \<open>char\<close> is signed, as it is on x86: where the code compares or subtracts \<open>char\<close>s the
  model uses \<open>sint\<close> of the byte, where it uses \<open>unsigned char\<close> it uses \<open>uint\<close>.
\<close>

type_synonym mem = "u8 list"

section \<open>Character classes\<close>

definition isblank :: "int \<Rightarrow> bool" where
  "isblank c \<longleftrightarrow> c = 32 \<or> c = 9"

definition islower :: "int \<Rightarrow> bool" where
  "islower c \<longleftrightarrow> c \<ge> 97 \<and> c \<le> 122"

definition isupper :: "int \<Rightarrow> bool" where
  "isupper c \<longleftrightarrow> c \<ge> 65 \<and> c \<le> 90"

definition isalpha :: "int \<Rightarrow> bool" where
  "isalpha c \<longleftrightarrow> isupper c \<or> islower c"

definition isdigit :: "int \<Rightarrow> bool" where
  "isdigit c \<longleftrightarrow> c \<ge> 48 \<and> c \<le> 57"

definition isalnum :: "int \<Rightarrow> bool" where
  "isalnum c \<longleftrightarrow> isalpha c \<or> isdigit c"

definition isspace :: "int \<Rightarrow> bool" where
  "isspace c \<longleftrightarrow> c = 32 \<or> c = 9 \<or> c = 13 \<or> c = 10 \<or> c = 11 \<or> c = 12"

definition toupper :: "int \<Rightarrow> int" where
  "toupper c = (if islower c then c - 97 + 65 else c)"

definition tolower :: "int \<Rightarrow> int" where
  "tolower c = (if isupper c then c - 65 + 97 else c)"

lemmas ctype_defs = isblank_def islower_def isupper_def isalpha_def isdigit_def isalnum_def
  isspace_def toupper_def tolower_def

section \<open>Strings\<close>

function strlen_loop :: "mem \<Rightarrow> nat \<Rightarrow> nat \<Rightarrow> nat res" where
  "strlen_loop m buf len =
     bind_res (arr_get m buf) (\<lambda>c. if c \<noteq> 0 then strlen_loop m (buf + 1) (len + 1) else Inr len)"
  by pat_completeness auto
termination
  by (relation "measure (\<lambda>(m, buf, len). length m - buf)") (auto simp: arr_get_def split: if_splits)

definition strlen :: "mem \<Rightarrow> nat \<Rightarrow> nat res" where
  "strlen m buf = strlen_loop m buf 0"

fun strnlen_loop :: "mem \<Rightarrow> nat \<Rightarrow> nat \<Rightarrow> nat res" where
  "strnlen_loop m sc 0 = Inr sc"
| "strnlen_loop m sc (Suc maxlen) =
     bind_res (arr_get m sc) (\<lambda>c. if c \<noteq> 0 then strnlen_loop m (sc + 1) maxlen else Inr sc)"

definition strnlen :: "mem \<Rightarrow> nat \<Rightarrow> nat \<Rightarrow> nat res" where
  "strnlen m buf maxlen = bind_res (strnlen_loop m buf maxlen) (\<lambda>sc. Inr (sc - buf))"

text \<open>The first loop of \<open>strcat\<close>, \<open>while (*p) ++p\<close>.\<close>

function str_end :: "mem \<Rightarrow> nat \<Rightarrow> nat res" where
  "str_end m p = bind_res (arr_get m p) (\<lambda>c. if c \<noteq> 0 then str_end m (p + 1) else Inr p)"
  by pat_completeness auto
termination
  by (relation "measure (\<lambda>(m, p). length m - p)") (auto simp: arr_get_def split: if_splits)

text \<open>Its second loop, \<open>while ((*p++ = *src++) != 0)\<close>.\<close>

function str_copy :: "mem \<Rightarrow> nat \<Rightarrow> nat \<Rightarrow> mem res" where
  "str_copy m p src =
     bind_res (arr_get m src) (\<lambda>c. bind_res (arr_set m p c) (\<lambda>m'.
       if c \<noteq> 0 then str_copy m' (p + 1) (src + 1) else Inr m'))"
  by pat_completeness auto
termination
  by (relation "measure (\<lambda>(m, p, src). length m - src)")
    (auto simp: arr_get_def arr_set_def split: if_splits)

definition strcat :: "mem \<Rightarrow> nat \<Rightarrow> nat \<Rightarrow> mem res" where
  "strcat m dest src = bind_res (str_end m dest) (\<lambda>p. str_copy m p src)"

definition strcpy :: "mem \<Rightarrow> nat \<Rightarrow> nat \<Rightarrow> mem res" where
  "strcpy m dest src = bind_res (arr_set m dest 0) (\<lambda>m'. strcat m' dest src)"

fun strncmp :: "mem \<Rightarrow> nat \<Rightarrow> nat \<Rightarrow> nat \<Rightarrow> int res" where
  "strncmp m a b n =
     (if n = 0 then Inr 0
      else bind_res (arr_get m a) (\<lambda>x. bind_res (arr_get m b) (\<lambda>y.
        if x \<noteq> y \<or> x = 0 then Inr (sint x - sint y) else strncmp m (a + 1) (b + 1) (n - 1))))"

fun strncasecmp :: "mem \<Rightarrow> nat \<Rightarrow> nat \<Rightarrow> nat \<Rightarrow> int res" where
  "strncasecmp m a b n =
     (if n = 0 then Inr 0
      else bind_res (arr_get m a) (\<lambda>x. bind_res (arr_get m b) (\<lambda>y.
        if tolower (sint x) \<noteq> tolower (sint y) \<or> x = 0
        then Inr (tolower (sint x) - tolower (sint y))
        else strncasecmp m (a + 1) (b + 1) (n - 1))))"

definition SIZE_MAX :: nat where
  "SIZE_MAX = 2 ^ 64 - 1"

definition strcmp :: "mem \<Rightarrow> nat \<Rightarrow> nat \<Rightarrow> int res" where
  "strcmp m a b = strncmp m a b SIZE_MAX"

definition strcasecmp :: "mem \<Rightarrow> nat \<Rightarrow> nat \<Rightarrow> int res" where
  "strcasecmp m a b = strncasecmp m a b SIZE_MAX"

text \<open>The conversion \<open>(char)c\<close> of an \<open>int\<close>.\<close>

definition to_char :: "int \<Rightarrow> u8" where
  "to_char c = word_of_int c"

function strchr :: "mem \<Rightarrow> nat \<Rightarrow> int \<Rightarrow> nat option res" where
  "strchr m s c =
     bind_res (arr_get m s) (\<lambda>x.
       if x \<noteq> to_char c then (if x = 0 then Inr None else strchr m (s + 1) c) else Inr (Some s))"
  by pat_completeness auto
termination
  by (relation "measure (\<lambda>(m, s, c). length m - s)") (auto simp: arr_get_def split: if_splits)

function strrchr_loop :: "mem \<Rightarrow> nat \<Rightarrow> int \<Rightarrow> nat option \<Rightarrow> nat option res" where
  "strrchr_loop m s c last0 =
     bind_res (arr_get m s) (\<lambda>x.
       let last1 = (if x = to_char c then Some s else last0)
       in if x \<noteq> 0 then strrchr_loop m (s + 1) c last1 else Inr last1)"
  by pat_completeness auto
termination
  by (relation "measure (\<lambda>(m, s, c, l). length m - s)") (auto simp: arr_get_def split: if_splits)

definition strrchr :: "mem \<Rightarrow> nat \<Rightarrow> int \<Rightarrow> nat option res" where
  "strrchr m s c = strrchr_loop m s c None"

function strchrnul :: "mem \<Rightarrow> nat \<Rightarrow> int \<Rightarrow> nat res" where
  "strchrnul m s c =
     bind_res (arr_get m s) (\<lambda>x. if x \<noteq> 0 \<and> x \<noteq> to_char c then strchrnul m (s + 1) c else Inr s)"
  by pat_completeness auto
termination
  by (relation "measure (\<lambda>(m, s, c). length m - s)") (auto simp: arr_get_def split: if_splits)

section \<open>Memory blocks\<close>

text \<open>The loop of \<open>memset\<close>, with \<open>i\<close> counting up to \<open>n\<close>; the byte stored is \<open>(char)c\<close>.\<close>

function memset_loop :: "'a list \<Rightarrow> nat \<Rightarrow> 'a \<Rightarrow> nat \<Rightarrow> nat \<Rightarrow> 'a list res" where
  "memset_loop m a c i n =
     (if i < n then bind_res (arr_set m (a + i) c) (\<lambda>m'. memset_loop m' a c (i + 1) n) else Inr m)"
  by pat_completeness auto
termination
  by (relation "measure (\<lambda>(m, a, c, i, n). n - i)") auto

definition memset :: "'a list \<Rightarrow> nat \<Rightarrow> 'a \<Rightarrow> nat \<Rightarrow> 'a list res" where
  "memset m s c n = memset_loop m s c 0 n"

function memcpy_loop :: "mem \<Rightarrow> nat \<Rightarrow> nat \<Rightarrow> nat \<Rightarrow> nat \<Rightarrow> mem res" where
  "memcpy_loop m a b i n =
     (if i < n then bind_res (arr_get m (b + i)) (\<lambda>x. bind_res (arr_set m (a + i) x)
        (\<lambda>m'. memcpy_loop m' a b (i + 1) n))
      else Inr m)"
  by pat_completeness auto
termination
  by (relation "measure (\<lambda>(m, a, b, i, n). n - i)") auto

definition memcpy :: "mem \<Rightarrow> nat \<Rightarrow> nat \<Rightarrow> nat \<Rightarrow> mem res" where
  "memcpy m dest src n = memcpy_loop m dest src 0 n"

fun memcmp :: "mem \<Rightarrow> nat \<Rightarrow> nat \<Rightarrow> nat \<Rightarrow> int res" where
  "memcmp m a b 0 = Inr 0"
| "memcmp m a b (Suc n) =
     bind_res (arr_get m a) (\<lambda>x. bind_res (arr_get m b) (\<lambda>y.
       let ret = uint x - uint y
       in if ret \<noteq> 0 then Inr ret else memcmp m (a + 1) (b + 1) n))"

text \<open>The two loops of \<open>memmove\<close>: upwards, and downwards from the end.\<close>

fun memmove_up :: "mem \<Rightarrow> nat \<Rightarrow> nat \<Rightarrow> nat \<Rightarrow> mem res" where
  "memmove_up m d s 0 = Inr m"
| "memmove_up m d s (Suc n) =
     bind_res (arr_get m s) (\<lambda>x. bind_res (arr_set m d x) (\<lambda>m'. memmove_up m' (d + 1) (s + 1) n))"

fun memmove_down :: "mem \<Rightarrow> nat \<Rightarrow> nat \<Rightarrow> nat \<Rightarrow> mem res" where
  "memmove_down m d s 0 = Inr m"
| "memmove_down m d s (Suc n) =
     bind_res (arr_get m (s - 1)) (\<lambda>x. bind_res (arr_set m (d - 1) x)
       (\<lambda>m'. memmove_down m' (d - 1) (s - 1) n))"

definition memmove :: "mem \<Rightarrow> nat \<Rightarrow> nat \<Rightarrow> nat \<Rightarrow> mem res" where
  "memmove m dest src n =
     (if dest \<le> src then memmove_up m dest src n
      else memmove_down m (dest + n) (src + n) n)"

fun memchr :: "mem \<Rightarrow> nat \<Rightarrow> int \<Rightarrow> nat \<Rightarrow> nat option res" where
  "memchr m s c 0 = Inr None"
| "memchr m s c (Suc n) =
     bind_res (arr_get m s) (\<lambda>x. if x = to_char c then Inr (Some s) else memchr m (s + 1) c n)"

text \<open>
  The search loop of \<open>strstr\<close>. It is entered only with a non-empty needle; the guard
  \<open>l2 \<noteq> 0\<close> records that.
\<close>

function strstr_loop :: "mem \<Rightarrow> nat \<Rightarrow> nat \<Rightarrow> nat \<Rightarrow> nat \<Rightarrow> nat option res" where
  "strstr_loop m s1 s2 l1 l2 =
     (if l1 \<ge> l2 \<and> l2 \<noteq> 0 then
        bind_res (memcmp m s1 s2 l2) (\<lambda>r.
          if r = 0 then Inr (Some s1) else strstr_loop m (s1 + 1) s2 (l1 - 1) l2)
      else Inr None)"
  by pat_completeness auto
termination
  by (relation "measure (\<lambda>(m, s1, s2, l1, l2). l1)") auto

definition strstr :: "mem \<Rightarrow> nat \<Rightarrow> nat \<Rightarrow> nat option res" where
  "strstr m s1 s2 =
     bind_res (strlen m s2) (\<lambda>l2.
       if l2 = 0 then Inr (Some s1)
       else bind_res (strlen m s1) (\<lambda>l1. strstr_loop m s1 s2 l1 l2))"

section \<open>Numbers\<close>

function skip_spaces :: "mem \<Rightarrow> nat \<Rightarrow> nat res" where
  "skip_spaces m s =
     bind_res (arr_get m s) (\<lambda>c. if isspace (sint c) then skip_spaces m (s + 1) else Inr s)"
  by pat_completeness auto
termination
  by (relation "measure (\<lambda>(m, s). length m - s)") (auto simp: arr_get_def split: if_splits)

text \<open>The optional sign: whether the number is negated, and the rest of the text.\<close>

definition strtoll_sign :: "mem \<Rightarrow> nat \<Rightarrow> (bool \<times> nat) res" where
  "strtoll_sign m s =
     bind_res (arr_get m s) (\<lambda>c.
       if c = 45 then Inr (True, s + 1)
       else if c = 43 then Inr (False, s + 1) else Inr (False, s))"

text \<open>The \<open>0x\<close> and \<open>0\<close> prefixes that choose the base.\<close>

definition strtoll_base :: "mem \<Rightarrow> nat \<Rightarrow> int \<Rightarrow> (int \<times> nat) res" where
  "strtoll_base m s base =
     (if base = 0 \<or> base = 16 then
        bind_res (arr_get m s) (\<lambda>c.
          if c = 48 then
            bind_res (arr_get m (s + 1)) (\<lambda>d.
              if d = 120 \<or> d = 88 then Inr (16, s + 2)
              else if base = 0 then Inr (8, s + 1) else Inr (base, s + 1))
          else if base = 0 then Inr (10, s) else Inr (base, s))
      else Inr (base, s))"

definition strtoll_digit :: "int \<Rightarrow> u8 \<Rightarrow> int option" where
  "strtoll_digit base ch =
     (let x = sint ch in
      if x \<ge> 48 \<and> x < 48 + base \<and> x \<le> 57 then Some (x - 48)
      else if x \<ge> 97 \<and> x < 97 + base - 10 then Some (x - 97 + 10)
      else if x \<ge> 65 \<and> x < 65 + base - 10 then Some (x - 65 + 10)
      else None)"

text \<open>
  The overflow assertions: \<open>check_mul_overflow\<close> and \<open>check_add_overflow\<close> compute in unbounded
  precision and compare with the range of the C type, which is \<open>long\<close> or \<open>long long\<close>
  (both 64 bits wide here), signed or unsigned.
\<close>

definition LONG_BITS :: nat where "LONG_BITS = 64"
definition LLONG_BITS :: nat where "LLONG_BITS = 64"

definition fits :: "bool \<Rightarrow> nat \<Rightarrow> int \<Rightarrow> bool" where
  "fits is_signed w x \<longleftrightarrow>
     (if is_signed then - (2 ^ (w - 1)) \<le> x \<and> x < 2 ^ (w - 1) else 0 \<le> x \<and> x < 2 ^ w)"

definition strtoll_no_overflow :: "bool \<Rightarrow> bool \<Rightarrow> u64 \<Rightarrow> int \<Rightarrow> int \<Rightarrow> bool" where
  "strtoll_no_overflow is_signed is_longlong ull base c \<longleftrightarrow>
     (let w = (if is_longlong then LLONG_BITS else LONG_BITS);
          x = (if is_signed then sint ull else uint ull)
      in fits is_signed w (x * base) \<and> fits is_signed w (x * base + c))"

function strtoll_loop :: "mem \<Rightarrow> nat \<Rightarrow> u64 \<Rightarrow> int \<Rightarrow> bool \<Rightarrow> bool \<Rightarrow> (u64 \<times> nat) res" where
  "strtoll_loop m s ull base is_signed is_longlong =
     bind_res (arr_get m s) (\<lambda>ch.
       if ch = 0 then Inr (ull, s)
       else case strtoll_digit base ch of
         None \<Rightarrow> Inr (ull, s)
       | Some c \<Rightarrow>
           require (strtoll_no_overflow is_signed is_longlong ull base c)
             (strtoll_loop m (s + 1) (ull * word_of_int base + word_of_int c)
                base is_signed is_longlong))"
  by pat_completeness auto
termination
  by (relation "measure (\<lambda>(m, s, _). length m - s)") (auto simp: arr_get_def split: if_splits)

text \<open>\<open>__strtoll\<close>: the value and the address stored through \<open>endptr\<close>.\<close>

definition strtoll_gen :: "mem \<Rightarrow> nat \<Rightarrow> int \<Rightarrow> bool \<Rightarrow> bool \<Rightarrow> (u64 \<times> nat) res" where
  "strtoll_gen m nptr base is_signed is_longlong =
     require (base = 0 \<or> (base \<ge> 2 \<and> base \<le> 36))
       (bind_res (skip_spaces m nptr) (\<lambda>s1.
        bind_res (strtoll_sign m s1) (\<lambda>(neg, s2).
        bind_res (strtoll_base m s2 base) (\<lambda>(base', s3).
        bind_res (strtoll_loop m s3 0 base' is_signed is_longlong) (\<lambda>(ull, s4).
          Inr (if neg then - ull else ull, s4))))))"

definition strtol :: "mem \<Rightarrow> nat \<Rightarrow> int \<Rightarrow> (int \<times> nat) res" where
  "strtol m nptr base =
     bind_res (strtoll_gen m nptr base True False) (\<lambda>(v, e). Inr (sint v, e))"

definition strtoul :: "mem \<Rightarrow> nat \<Rightarrow> int \<Rightarrow> (u64 \<times> nat) res" where
  "strtoul m nptr base = strtoll_gen m nptr base False False"

definition strtoll :: "mem \<Rightarrow> nat \<Rightarrow> int \<Rightarrow> (int \<times> nat) res" where
  "strtoll m nptr base =
     bind_res (strtoll_gen m nptr base True True) (\<lambda>(v, e). Inr (sint v, e))"

definition strtoull :: "mem \<Rightarrow> nat \<Rightarrow> int \<Rightarrow> (u64 \<times> nat) res" where
  "strtoull m nptr base = strtoll_gen m nptr base False True"

definition atol :: "mem \<Rightarrow> nat \<Rightarrow> int res" where
  "atol m ptr = bind_res (strtol m ptr 10) (\<lambda>(v, _). Inr v)"

text \<open>\<open>parse_keyval\<close> of \<open>lib/util.c\<close>: the length of the key and the value, or -1.\<close>

definition parse_keyval :: "mem \<Rightarrow> nat \<Rightarrow> (int \<times> int option) res" where
  "parse_keyval m s =
     bind_res (strchr m s 61) (\<lambda>r. case r of
       None \<Rightarrow> Inr (-1, None)
     | Some p \<Rightarrow> bind_res (strtol m (p + 1) 0) (\<lambda>(v, _). Inr (int (p - s), Some v)))"

section \<open>Environment and globs\<close>

text \<open>\<open>environ\<close> as the list of the addresses before its \<open>NULL\<close> entry.\<close>

fun getenv :: "mem \<Rightarrow> nat list \<Rightarrow> nat \<Rightarrow> nat option res" where
  "getenv m [] name = Inr None"
| "getenv m (env # envp) name =
     bind_res (strchr m env 61) (\<lambda>d. case d of
       None \<Rightarrow> Inl AssertFail
     | Some delim \<Rightarrow>
         let len = delim - env in
         bind_res (memcmp m name env len) (\<lambda>r.
           if r = 0 then
             bind_res (arr_get m (name + len)) (\<lambda>c.
               if c = 0 then Inr (Some (delim + 1)) else getenv m envp name)
           else getenv m envp name))"

text \<open>
  \<open>simple_glob\<close>: the array \<open>copy[n + 1]\<close> on the stack is a fresh block of \<open>n + 1\<close> bytes behind
  the memory; \<open>strcpy\<close> overwrites what the model puts there.
\<close>

definition simple_glob :: "mem \<Rightarrow> nat \<Rightarrow> nat \<Rightarrow> bool res" where
  "simple_glob m0 text pattern0 =
     bind_res (strlen m0 pattern0) (\<lambda>n0.
       let copy = length m0;
           m = m0 @ replicate (n0 + 1) 0
       in bind_res (arr_get m pattern0) (\<lambda>p0.
            let star_start = (p0 = 42);
                pattern = (if star_start then pattern0 + 1 else pattern0);
                n = (if star_start then n0 - 1 else n0)
            in bind_res (strcpy m copy pattern) (\<lambda>m1.
               bind_res (if n > 0 then bind_res (arr_get m1 (pattern + n - 1)) (\<lambda>c. Inr (c = 42))
                         else Inr False) (\<lambda>star_end.
                 let n' = (if star_end then n - 1 else n) in
                 bind_res (if star_end then arr_set m1 (copy + n') 0 else Inr m1) (\<lambda>m2.
                   if star_start \<and> star_end then
                     bind_res (strstr m2 text copy) (\<lambda>r. Inr (r \<noteq> None))
                   else if star_end then
                     bind_res (strstr m2 text copy) (\<lambda>r. Inr (r = Some text))
                   else if star_start then
                     bind_res (strlen m2 text) (\<lambda>text_len.
                       if n' > text_len then Inr False
                       else bind_res (strcmp m2 (text + text_len - n') copy) (\<lambda>r. Inr (r = 0)))
                   else bind_res (strcmp m2 text copy) (\<lambda>r. Inr (r = 0)))))))"

declare strlen_loop.simps [simp del] str_end.simps [simp del] str_copy.simps [simp del]
  strncmp.simps [simp del] strncasecmp.simps [simp del] strchr.simps [simp del]
  strrchr_loop.simps [simp del] strchrnul.simps [simp del] memset_loop.simps [simp del]
  memcpy_loop.simps [simp del] strstr_loop.simps [simp del] skip_spaces.simps [simp del]
  strtoll_loop.simps [simp del]

section \<open>What the functions compute\<close>

text \<open>The NUL-terminated string \<open>s\<close> is stored at address \<open>p\<close>.\<close>

primrec cstring_at :: "mem \<Rightarrow> nat \<Rightarrow> u8 list \<Rightarrow> bool" where
  "cstring_at m p [] \<longleftrightarrow> p < length m \<and> m ! p = 0"
| "cstring_at m p (c # s) \<longleftrightarrow> p < length m \<and> m ! p = c \<and> c \<noteq> 0 \<and> cstring_at m (Suc p) s"

lemma cstring_at_bound: "cstring_at m p s \<Longrightarrow> p + length s < length m"
proof (induction s arbitrary: p)
  case (Cons c s)
  then show ?case using Cons.IH[of "Suc p"] by simp
qed simp

lemma cstring_at_nth: "cstring_at m p s \<Longrightarrow> i < length s \<Longrightarrow> m ! (p + i) = s ! i"
proof (induction s arbitrary: p i)
  case (Cons c s)
  then show ?case using Cons.IH[of "Suc p" "i - 1"] by (cases i) auto
qed simp

lemma cstring_at_end: "cstring_at m p s \<Longrightarrow> m ! (p + length s) = 0"
proof (induction s arbitrary: p)
  case (Cons c s)
  then show ?case using Cons.IH[of "Suc p"] by simp
qed simp

lemma cstring_at_nonzero: "cstring_at m p s \<Longrightarrow> 0 \<notin> set s"
  by (induction s arbitrary: p) auto

lemma cstring_at_drop: "cstring_at m p s \<Longrightarrow> i \<le> length s \<Longrightarrow> cstring_at m (p + i) (drop i s)"
proof (induction s arbitrary: p i)
  case (Cons c s)
  then show ?case using Cons.IH[of "Suc p" "i - 1"] by (cases i) auto
qed simp

lemma cstring_at_take_drop: "cstring_at m p s \<Longrightarrow> take (length s) (drop p m) = s"
  using cstring_at_bound[of m p s]
  by (intro nth_equalityI) (auto simp: cstring_at_nth)

lemma cstring_atI:
  assumes "p + length s < length m" "0 \<notin> set s" "m ! (p + length s) = 0"
    and "\<And>i. i < length s \<Longrightarrow> m ! (p + i) = s ! i"
  shows "cstring_at m p s"
  using assms
proof (induction s arbitrary: p)
  case (Cons c s)
  have "cstring_at m (p + 1) s"
    by (rule Cons.IH) (use Cons.prems(1-3) Cons.prems(4)[of "Suc _"] in auto)
  then show ?case using Cons.prems(1,2) Cons.prems(4)[of 0] by auto
qed simp

lemma cstring_at_append_mem: "cstring_at m p s \<Longrightarrow> cstring_at (m @ m') p s"
  by (induction s arbitrary: p) (auto simp: nth_append)

lemma cstring_at_update:
  "cstring_at m p s \<Longrightarrow> q < p \<or> p + length s < q \<Longrightarrow> cstring_at (m[q := v]) p s"
  by (induction s arbitrary: p) auto

lemma strlen_loop_correct: "cstring_at m p s \<Longrightarrow> strlen_loop m p len = Inr (len + length s)"
  by (induction s arbitrary: p len) (auto simp: strlen_loop.simps[of m])

lemma strlen_correct: "cstring_at m p s \<Longrightarrow> strlen m p = Inr (length s)"
  by (simp add: strlen_def strlen_loop_correct)

lemma str_end_correct: "cstring_at m p s \<Longrightarrow> str_end m p = Inr (p + length s)"
  by (induction s arbitrary: p) (auto simp: str_end.simps[of m])

lemma strnlen_loop_correct:
  "cstring_at m p s \<Longrightarrow> strnlen_loop m p k = Inr (p + min k (length s))"
proof (induction s arbitrary: p k)
  case Nil
  then show ?case by (cases k) auto
next
  case (Cons c s)
  then show ?case by (cases k) auto
qed

lemma strnlen_correct: "cstring_at m p s \<Longrightarrow> strnlen m p k = Inr (min k (length s))"
  by (simp add: strnlen_def strnlen_loop_correct)

lemma strchr_correct:
  assumes "cstring_at m p s" "to_char c \<noteq> 0"
  shows "strchr m p c =
    Inr (if to_char c \<in> set s then Some (p + length (takeWhile (\<lambda>x. x \<noteq> to_char c) s)) else None)"
  using assms
proof (induction s arbitrary: p)
  case Nil
  then show ?case by (auto simp: strchr.simps[of m p])
next
  case (Cons x s)
  then show ?case using Cons.IH[of "Suc p"] by (auto simp: strchr.simps[of m p])
qed

subsection \<open>Blocks\<close>

lemma memset_loop_eq:
  "a + n \<le> length m \<Longrightarrow> i \<le> n \<Longrightarrow> memset_loop m a c i n = Inr (fill (a + i) (n - i) c m)"
proof (induction m a c i n rule: memset_loop.induct)
  case (1 m a c i n)
  show ?case
  proof (cases "i < n")
    case True
    have "memset_loop (m[a + i := c]) a c (i + 1) n
        = Inr (fill (a + (i + 1)) (n - (i + 1)) c (m[a + i := c]))"
      by (rule "1.IH") (use True "1.prems" in auto)
    moreover have "n - i = Suc (n - (i + 1))" using True by simp
    ultimately show ?thesis
      using True "1.prems" fill_Suc[of "a + i" "n - (i + 1)" m c]
      by (simp add: memset_loop.simps[of m a c i n])
  next
    case False
    then show ?thesis using "1.prems" memset_loop.simps[of m a c i n] by simp
  qed
qed

lemma memset_eq: "a + n \<le> length m \<Longrightarrow> memset m a c n = Inr (fill a n c m)"
  by (simp add: memset_def memset_loop_eq)

text \<open>The memory with the \<open>n\<close> bytes at \<open>d\<close> replaced by those at \<open>s\<close>.\<close>

definition blit :: "nat \<Rightarrow> nat \<Rightarrow> nat \<Rightarrow> mem \<Rightarrow> mem" where
  "blit d s n m = take d m @ take n (drop s m) @ drop (d + n) m"

lemma length_blit: "d + n \<le> length m \<Longrightarrow> s + n \<le> length m \<Longrightarrow> length (blit d s n m) = length m"
  by (simp add: blit_def)

lemma nth_blit:
  assumes "d + n \<le> length m" "s + n \<le> length m" "i < length m"
  shows "blit d s n m ! i = (if d \<le> i \<and> i < d + n then m ! (s + (i - d)) else m ! i)"
proof -
  have "length (take n (drop s m)) = n" using assms(2) by simp
  with assms show ?thesis by (auto simp: blit_def nth_append not_less)
qed

lemma memmove_up_eq:
  "d \<le> s \<or> s + n \<le> d \<Longrightarrow> d + n \<le> length m \<Longrightarrow> s + n \<le> length m \<Longrightarrow>
   memmove_up m d s n = Inr (blit d s n m)"
proof (induction n arbitrary: m d s)
  case 0
  then show ?case by (simp add: blit_def)
next
  case (Suc n)
  have "memmove_up (m[d := m ! s]) (d + 1) (s + 1) n = Inr (blit (d + 1) (s + 1) n (m[d := m ! s]))"
    by (rule Suc.IH) (use Suc.prems in auto)
  moreover have "blit (d + 1) (s + 1) n (m[d := m ! s]) = blit d s (Suc n) m"
    by (rule nth_equalityI)
      (use Suc.prems in \<open>auto simp: length_blit nth_blit nth_list_update Suc_diff_Suc Suc_le_eq
        intro!: arg_cong[where f = "nth m"]\<close>)
  ultimately show ?case using Suc.prems by simp
qed

lemma memmove_down_eq:
  "s \<le> d \<Longrightarrow> d + n \<le> length m \<Longrightarrow> memmove_down m (d + n) (s + n) n = Inr (blit d s n m)"
proof (induction n arbitrary: m)
  case 0
  then show ?case by (simp add: blit_def)
next
  case (Suc n)
  let ?m = "m[d + n := m ! (s + n)]"
  have "memmove_down ?m (d + n) (s + n) n = Inr (blit d s n ?m)"
    by (rule Suc.IH) (use Suc.prems in auto)
  moreover have "blit d s n ?m = blit d s (Suc n) m"
    by (rule nth_equalityI)
      (use Suc.prems in \<open>auto simp: length_blit nth_blit nth_list_update\<close>)
  ultimately show ?case using Suc.prems by simp
qed

lemma memmove_eq:
  assumes "d + n \<le> length m" "s + n \<le> length m"
  shows "memmove m d s n = Inr (blit d s n m)"
  using assms by (simp add: memmove_def memmove_up_eq memmove_down_eq)

lemma memcpy_loop_eq_up:
  "i \<le> n \<Longrightarrow> memcpy_loop m a b i n = memmove_up m (a + i) (b + i) (n - i)"
proof (induction m a b i n rule: memcpy_loop.induct)
  case (1 m a b i n)
  show ?case
  proof (cases "i < n")
    case True
    then have "n - i = Suc (n - (i + 1))" by simp
    then show ?thesis
      using True "1.IH"
      by (simp add: memcpy_loop.simps[of m a b i n] bind_res_def split: sum.splits)
  next
    case False
    then show ?thesis using "1.prems" memcpy_loop.simps[of m a b i n] by simp
  qed
qed

lemma memcpy_eq:
  assumes "d \<le> s \<or> s + n \<le> d" "d + n \<le> length m" "s + n \<le> length m"
  shows "memcpy m d s n = Inr (blit d s n m)"
  using assms by (simp add: memcpy_def memcpy_loop_eq_up memmove_up_eq)

end
