(* ===== verification/Printf.thy ===== *)
theory Printf
  imports CString
begin

text \<open>
  \<open>lib/printf.c\<close>: formatted output into a buffer of limited size. The buffer, the format and
  the string arguments are in one byte memory, so a conversion that runs over its buffer is
  visible; the arrays on the stack (\<open>buf\<close> of \<open>print_int\<close> and \<open>printf\<close>) are blocks behind that
  memory while the function runs. A \<open>va_list\<close> is the list of the 64-bit argument slots still
  to be read. What \<open>puts\<close> does with the finished string is console output.
\<close>

section \<open>Streams\<close>

record pstream =
  buffer :: nat
  remain :: int
  added :: int

record strprops =
  pad :: u8
  npad :: int
  alternate :: bool
  precision :: int

definition INT_MAX :: int where "INT_MAX = 2 ^ 31 - 1"

text \<open>The conversion to \<open>int\<close>, and \<open>int\<close> arithmetic, which is undefined when it overflows.\<close>

definition c_int :: "int \<Rightarrow> int" where
  "c_int k = sint (word_of_int k :: u32)"

definition int_ok :: "int \<Rightarrow> bool" where
  "int_ok k \<longleftrightarrow> - INT_MAX - 1 \<le> k \<and> k \<le> INT_MAX"

definition addchar :: "mem \<Rightarrow> pstream \<Rightarrow> u8 \<Rightarrow> (mem \<times> pstream) res" where
  "addchar m p c =
     bind_res
       (if remain p \<noteq> 0 then
          bind_res (arr_set m (buffer p) c) (\<lambda>m'.
            defined (int_ok (remain p - 1)) (Inr (m', p\<lparr>buffer := buffer p + 1, remain := remain p - 1\<rparr>)))
        else Inr (m, p)) (\<lambda>(m', p').
       defined (int_ok (added p' + 1)) (Inr (m', p'\<lparr>added := added p' + 1\<rparr>)))"

lemma addchar_length: "addchar m p c = Inr (m', p') \<Longrightarrow> length m' = length m"
  by (auto simp: addchar_def res_simps split: if_splits)

text \<open>The padding loops of \<open>print_str\<close>, \<open>n\<close> times.\<close>

fun addchars :: "mem \<Rightarrow> pstream \<Rightarrow> u8 \<Rightarrow> nat \<Rightarrow> (mem \<times> pstream) res" where
  "addchars m p c 0 = Inr (m, p)"
| "addchars m p c (Suc n) = bind_res (addchar m p c) (\<lambda>(m', p'). addchars m' p' c n)"

text \<open>\<open>while (*s && props.precision--) addchar(p, *s++);\<close>\<close>

function addstr :: "mem \<Rightarrow> pstream \<Rightarrow> nat \<Rightarrow> int \<Rightarrow> (mem \<times> pstream) res" where
  "addstr m p s prec =
     bind_res (arr_get m s) (\<lambda>c.
       if c = 0 then Inr (m, p)
       else defined (int_ok (prec - 1))
         (if prec = 0 then Inr (m, p)
          else bind_res (addchar m p c) (\<lambda>(m', p'). addstr m' p' (s + 1) (prec - 1))))"
  by pat_completeness auto
termination
  by (relation "measure (\<lambda>(m, p, s, prec). length m - s)")
    (auto simp: arr_get_eq_Inr dest!: addchar_length)

declare addstr.simps [simp del]

definition print_str :: "mem \<Rightarrow> pstream \<Rightarrow> nat \<Rightarrow> strprops \<Rightarrow> (mem \<times> pstream) res" where
  "print_str m p s props =
     bind_res
       (if npad props > 0 then
          bind_res (strlen m s) (\<lambda>l.
            let n = c_int (npad props - int l) in
            bind_res (addchars m p (pad props) (nat n)) (\<lambda>(m', p'). Inr (m', p', if n > 0 then 0 else n)))
        else Inr (m, p, npad props)) (\<lambda>(m1, p1, n1).
     bind_res (addstr m1 p1 s (precision props)) (\<lambda>(m2, p2).
       if n1 < 0 then
         bind_res (strlen m2 s) (\<lambda>l.
           let n2 = c_int (n1 + int l) in addchars m2 p2 32 (nat (- n2)))
       else Inr (m2, p2)))"

section \<open>Wide strings\<close>

text \<open>Little-endian 16-bit loads, and accesses through a pointer that may lie before the memory.\<close>

definition load16 :: "mem \<Rightarrow> nat \<Rightarrow> u16 res" where
  "load16 m a = bind_res (arr_get m a) (\<lambda>x. bind_res (arr_get m (a + 1)) (\<lambda>y.
     Inr (ucast x OR push_bit 8 (ucast y))))"

definition ptr_get :: "mem \<Rightarrow> int \<Rightarrow> u8 res" where
  "ptr_get m a = (if a < 0 then Inl Fault else arr_get m (nat a))"

definition ptr_set :: "mem \<Rightarrow> int \<Rightarrow> u8 \<Rightarrow> mem res" where
  "ptr_set m a v = (if a < 0 then Inl Fault else arr_set m (nat a) v)"

definition utf16_to_utf32 :: "mem \<Rightarrow> nat \<Rightarrow> (u32 \<times> nat) res" where
  "utf16_to_utf32 m s16 =
     bind_res (load16 m s16) (\<lambda>c0.
       if c0 AND 0xf800 \<noteq> 0xd800 then Inr (ucast c0, s16 + 2)
       else if c0 AND 0x0400 \<noteq> 0 then Inr (0xfffd, s16 + 2)
       else bind_res (load16 m (s16 + 2)) (\<lambda>c1.
         if c1 AND 0xfc00 \<noteq> 0xdc00 then Inr (0xfffd, s16 + 2)
         else Inr ((0x10000 - push_bit 10 0xd800 - 0xdc00) + push_bit 10 (ucast c0) + ucast c1, s16 + 4)))"

text \<open>The loop of \<open>utf16s_utf8nlen\<close>; \<open>maxlen\<close> is a \<open>size_t\<close>.\<close>

function utf8nlen_loop :: "mem \<Rightarrow> nat \<Rightarrow> nat \<Rightarrow> nat \<Rightarrow> nat res" where
  "utf8nlen_loop m s16 len maxlen =
     (if len < maxlen then
        bind_res (load16 m s16) (\<lambda>c0.
          if c0 = 0 then Inr len
          else let clen = 1 + of_bool (c0 \<ge> 0x80) + of_bool (c0 \<ge> 0x800) in
            if len + clen > maxlen then Inr len
            else if c0 AND 0xfc00 = 0xd800 then
              (if len + clen = maxlen then Inr len
               else bind_res (load16 m (s16 + 2)) (\<lambda>c1.
                 if c1 AND 0xfc00 = 0xdc00 then utf8nlen_loop m (s16 + 4) (len + (clen + 1)) maxlen
                 else utf8nlen_loop m (s16 + 2) (len + clen) maxlen))
            else utf8nlen_loop m (s16 + 2) (len + clen) maxlen)
      else Inr len)"
  by pat_completeness auto
termination
  by (relation "measure (\<lambda>(m, s16, len, maxlen). length m - s16)") (auto simp: load16_def res_simps)

declare utf8nlen_loop.simps [simp del]

definition utf16s_utf8nlen :: "mem \<Rightarrow> nat \<Rightarrow> nat \<Rightarrow> nat res" where
  "utf16s_utf8nlen m s16 maxlen = utf8nlen_loop m s16 0 maxlen"

text \<open>The trailing octets, in reverse order, and then the low bits of the leading one.\<close>

fun put_octets :: "mem \<Rightarrow> int \<Rightarrow> nat \<Rightarrow> u32 \<Rightarrow> mem res" where
  "put_octets m s8 0 c32 = bind_res (ptr_get m s8) (\<lambda>x. ptr_set m s8 (x OR ucast c32))"
| "put_octets m s8 (Suc clen) c32 =
     bind_res (ptr_set m s8 (0x80 OR (ucast c32 AND 0x3f))) (\<lambda>m'. put_octets m' (s8 - 1) clen (drop_bit 6 c32))"

lemma ptr_set_length: "ptr_set m a v = Inr m' \<Longrightarrow> length m' = length m"
  by (auto simp: ptr_set_def res_simps split: if_splits)

lemma put_octets_length: "put_octets m s8 clen c32 = Inr m' \<Longrightarrow> length m' = length m"
  by (induction m s8 clen c32 rule: put_octets.induct)
    (fastforce simp: res_simps dest: ptr_set_length)+

lemma utf16_to_utf32_progress: "utf16_to_utf32 m s = Inr (c, s') \<Longrightarrow> s < s' \<and> s < length m"
  by (auto simp: utf16_to_utf32_def load16_def res_simps split: if_splits)

text \<open>
  One character outside ASCII in \<open>print_wstring\<close>: \<open>clen\<close> is the number of its trailing octets;
  \<open>pos\<close> and \<open>sz\<close> are \<open>size_t\<close>. The result has the new \<open>pos\<close>.
\<close>

definition trailing_octets :: "u32 \<Rightarrow> nat" where
  "trailing_octets c32 = 1 + of_bool (c32 \<ge> 0x800) + of_bool (c32 \<ge> 0x10000)"

definition put_wchar :: "mem \<Rightarrow> pstream \<Rightarrow> u32 \<Rightarrow> u64 \<Rightarrow> u64 \<Rightarrow> (mem \<times> pstream \<times> u64) res" where
  "put_wchar m p c32 pos sz =
     (let clen = trailing_octets c32;
          s8 = int (buffer p) - added p + uint pos
      in bind_res (addchar m p 0) (\<lambda>(m', p').
           let pos' = pos + of_nat clen in
           if pos' \<ge> sz then Inr (m', p', pos')
           else
             bind_res (ptr_set m' s8 (ucast (drop_bit clen (drop_bit 1 0xf00 :: u32)))) (\<lambda>m1.
             bind_res (put_octets m1 (s8 + int clen) clen c32) (\<lambda>m2. Inr (m2, p', pos')))))"

lemma put_wchar_length: "put_wchar m p c32 pos sz = Inr (m', p', pos') \<Longrightarrow> length m' = length m"
  by (auto simp: put_wchar_def bind_res_eq_Inr Let_def simp del: put_octets.simps split: if_splits
      dest!: addchar_length put_octets_length ptr_set_length)

text \<open>The loop of \<open>print_wstring\<close>; \<open>len\<close> is a \<open>size_t\<close>.\<close>

function wstring_loop :: "mem \<Rightarrow> pstream \<Rightarrow> nat \<Rightarrow> u64 \<Rightarrow> u64 \<Rightarrow> u64 \<Rightarrow> (mem \<times> pstream) res" where
  "wstring_loop m p ws len pos sz =
     (if len > 0 then
        bind_res (utf16_to_utf32 m ws) (\<lambda>(c32, ws').
          if c32 < 0x80 then
            bind_res (addchar m p (ucast c32)) (\<lambda>(m', p'). wstring_loop m' p' ws' (len - 1) pos sz)
          else
            bind_res (put_wchar m p c32 pos sz) (\<lambda>(m', p', pos').
              wstring_loop m' p' ws' (len - 1 - of_nat (trailing_octets c32)) pos' sz))
      else Inr (m, p))"
  by pat_completeness auto
termination
  by (relation "measure (\<lambda>(m, p, ws, len, pos, sz). length m - ws)")
    (auto dest!: utf16_to_utf32_progress addchar_length put_wchar_length)

declare wstring_loop.simps [simp del]

definition print_wstring :: "mem \<Rightarrow> pstream \<Rightarrow> nat \<Rightarrow> strprops \<Rightarrow> (mem \<times> pstream) res" where
  "print_wstring m p s props =
     bind_res (utf16s_utf8nlen m s (unat (word_of_int (precision props) :: u64))) (\<lambda>len.
       wstring_loop m p s (of_nat len) 0 (word_of_int (remain p + 1)))"

section \<open>Numbers\<close>

definition digits :: "u8 list" where
  "digits = [48, 49, 50, 51, 52, 53, 54, 55, 56, 57, 97, 98, 99, 100, 101, 102]"

text \<open>
  The two functions fill an array \<open>buf\<close> from the least digit on. \<open>put_digits\<close> is
  \<open>while (n) { *p++ = digits[n % base]; n /= base; }\<close> and \<open>put_zeros\<close> is
  \<open>while (p == buf || (p - buf < props.precision)) *p++ = '0';\<close> where \<open>i\<close> is \<open>p - buf\<close>.
  The base is 10 or 16.
\<close>

function put_digits :: "u8 list \<Rightarrow> nat \<Rightarrow> nat \<Rightarrow> nat \<Rightarrow> (u8 list \<times> nat) res" where
  "put_digits buf i n base =
     (if n \<noteq> 0 \<and> base > 1 then
        bind_res (arr_get digits (n mod base)) (\<lambda>d.
        bind_res (arr_set buf i d) (\<lambda>buf'. put_digits buf' (i + 1) (n div base) base))
      else Inr (buf, i))"
  by pat_completeness auto
termination
  by (relation "measure (\<lambda>(buf, i, n, base). n)") auto

declare put_digits.simps [simp del]

function put_zeros :: "u8 list \<Rightarrow> nat \<Rightarrow> int \<Rightarrow> (u8 list \<times> nat) res" where
  "put_zeros buf i prec =
     (if i = 0 \<or> int i < prec
      then bind_res (arr_set buf i 48) (\<lambda>buf'. put_zeros buf' (i + 1) prec)
      else Inr (buf, i))"
  by pat_completeness auto
termination
  by (relation "measure (\<lambda>(buf, i, prec). length buf - i)") (auto simp: arr_set_eq_Inr)

declare put_zeros.simps [simp del]

text \<open>
  \<open>for (i = 0; i < (p - buf) / 2; ++i)\<close> with the swap of \<open>buf[i]\<close> and \<open>p[-1 - i]\<close>; \<open>e\<close> is
  \<open>p - buf\<close>.
\<close>

function reverse_loop :: "u8 list \<Rightarrow> nat \<Rightarrow> nat \<Rightarrow> u8 list res" where
  "reverse_loop buf i e =
     (if i < e div 2 then
        bind_res (arr_get buf i) (\<lambda>tmp.
        bind_res (arr_get buf (e - 1 - i)) (\<lambda>x.
        bind_res (arr_set buf i x) (\<lambda>buf1.
        bind_res (arr_set buf1 (e - 1 - i) tmp) (\<lambda>buf2. reverse_loop buf2 (i + 1) e))))
      else Inr buf)"
  by pat_completeness auto
termination
  by (relation "measure (\<lambda>(buf, i, e). e div 2 - i)") auto

declare reverse_loop.simps [simp del]

text \<open>Printing the array, while it is on the stack behind the memory.\<close>

definition print_buf :: "mem \<Rightarrow> pstream \<Rightarrow> u8 list \<Rightarrow> strprops \<Rightarrow> (mem \<times> pstream) res" where
  "print_buf m ps buf props =
     bind_res (print_str (m @ buf) ps (length m) props) (\<lambda>(m', ps'). Inr (take (length m) m', ps'))"

definition print_int :: "mem \<Rightarrow> pstream \<Rightarrow> int \<Rightarrow> nat \<Rightarrow> strprops \<Rightarrow> (mem \<times> pstream) res" where
  "print_int m ps n base props =
     defined (n \<noteq> - (2 ^ 63))
     (bind_res (put_digits (replicate 26 0) 0 (nat \<bar>n\<bar>) base) (\<lambda>(buf1, p1).
      bind_res (put_zeros buf1 p1 (precision props)) (\<lambda>(buf2, p2).
      bind_res (if n < 0 then bind_res (arr_set buf2 p2 45) (\<lambda>b. Inr (b, p2 + 1)) else Inr (buf2, p2)) (\<lambda>(buf3, p3).
      bind_res (reverse_loop buf3 0 p3) (\<lambda>buf4.
      bind_res (arr_set buf4 p3 0) (\<lambda>buf5.
        print_buf m ps buf5 (props\<lparr>precision := -1\<rparr>)))))))"

definition print_unsigned :: "mem \<Rightarrow> pstream \<Rightarrow> u64 \<Rightarrow> nat \<Rightarrow> strprops \<Rightarrow> (mem \<times> pstream) res" where
  "print_unsigned m ps n base props =
     bind_res (put_digits (replicate 27 0) 0 (unat n) base) (\<lambda>(buf1, p1).
     let alt = (alternate props \<and> p1 \<noteq> 0) in
     bind_res (put_zeros buf1 p1 (precision props)) (\<lambda>(buf2, p2).
     bind_res
       (if alt \<and> base = 16 then
          if pad props = 48 then
            bind_res (addchar m ps 48) (\<lambda>(m1, ps1).
            bind_res (addchar m1 ps1 120) (\<lambda>(m2, ps2).
              Inr (m2, ps2, buf2, p2, if npad props > 0 then max (npad props - 2) 0 else npad props)))
          else
            bind_res (arr_set buf2 p2 120) (\<lambda>b1.
            bind_res (arr_set b1 (p2 + 1) 48) (\<lambda>b2. Inr (m, ps, b2, p2 + 2, npad props)))
        else Inr (m, ps, buf2, p2, npad props)) (\<lambda>(m', ps', buf3, p3, np).
     bind_res (reverse_loop buf3 0 p3) (\<lambda>buf4.
     bind_res (arr_set buf4 p3 0) (\<lambda>buf5.
       print_buf m' ps' buf5 (props\<lparr>npad := np, alternate := alt, precision := -1\<rparr>))))))"

section \<open>Formats\<close>

function digit_run :: "mem \<Rightarrow> nat \<Rightarrow> nat \<Rightarrow> nat res" where
  "digit_run m f len =
     bind_res (arr_get m f) (\<lambda>c.
       if sint c \<ge> 48 \<and> sint c \<le> 57 then digit_run m (f + 1) (len + 1) else Inr len)"
  by pat_completeness auto
termination
  by (relation "measure (\<lambda>(m, f, len). length m - f)") (auto simp: arr_get_eq_Inr)

declare digit_run.simps [simp del]

text \<open>The number and the advanced \<open>*fmt\<close>.\<close>

definition fmtnum :: "mem \<Rightarrow> nat \<Rightarrow> (int \<times> nat) res" where
  "fmtnum m fmt =
     bind_res (arr_get m fmt) (\<lambda>c.
     bind_res (if c = 45 then digit_run m (fmt + 1) 1 else digit_run m fmt 0) (\<lambda>len.
     bind_res (atol m fmt) (\<lambda>num. Inr (c_int num, fmt + len))))"

text \<open>\<open>do { i = i*10 + *((*s)++) - '0'; } while (isdigit(**s));\<close>\<close>

function skip_atoi_loop :: "mem \<Rightarrow> nat \<Rightarrow> int \<Rightarrow> (int \<times> nat) res" where
  "skip_atoi_loop m s i =
     bind_res (arr_get m s) (\<lambda>c.
     defined (int_ok (i * 10) \<and> int_ok (i * 10 + sint c))
       (let i' = i * 10 + sint c - 48 in
        bind_res (arr_get m (s + 1)) (\<lambda>d.
          if isdigit (sint d) then skip_atoi_loop m (s + 1) i' else Inr (i', s + 1))))"
  by pat_completeness auto
termination
  by (relation "measure (\<lambda>(m, s, i). length m - s)") (auto simp: arr_get_eq_Inr)

declare skip_atoi_loop.simps [simp del]

definition skip_atoi :: "mem \<Rightarrow> nat \<Rightarrow> (int \<times> nat) res" where
  "skip_atoi m s = skip_atoi_loop m s 0"

text \<open>\<open>va_arg\<close>: the next slot, read at the width of the type.\<close>

definition va_arg :: "u64 list \<Rightarrow> (u64 \<times> u64 list) res" where
  "va_arg args = (case args of [] \<Rightarrow> Inl Undef | a # as \<Rightarrow> Inr (a, as))"

definition arg_int :: "u64 \<Rightarrow> int" where
  "arg_int a = sint (ucast a :: u32)"

definition arg_uint :: "u64 \<Rightarrow> u64" where
  "arg_uint a = ucast (ucast a :: u32)"

definition get_int :: "mem \<Rightarrow> nat \<Rightarrow> u64 list \<Rightarrow> (int \<times> nat \<times> u64 list) res" where
  "get_int m fmt args =
     bind_res (arr_get m fmt) (\<lambda>c.
       if isdigit (sint c) then bind_res (skip_atoi m fmt) (\<lambda>(i, f). Inr (i, f, args))
       else if c = 42 then bind_res (va_arg args) (\<lambda>(a, as). Inr (arg_int a, fmt + 1, as))
       else Inr (0, fmt, args))"

lemma digit_run_ge: "digit_run m f len = Inr k \<Longrightarrow> len \<le> k"
proof (induction m f len rule: digit_run.induct)
  case (1 m f len)
  show ?case using 1(1)[of "m ! f"] 1(2)
    by (auto simp: digit_run.simps[of m f] res_simps split: if_splits)
qed

lemma digit_run_gt:
  "digit_run m f len = Inr k \<Longrightarrow> f < length m \<Longrightarrow> 48 \<le> sint (m ! f) \<Longrightarrow> sint (m ! f) \<le> 57 \<Longrightarrow> len < k"
  by (subst (asm) digit_run.simps) (auto dest: digit_run_ge)

lemma fmtnum_progress:
  "fmtnum m fmt = Inr (n, fmt') \<Longrightarrow> fmt \<le> fmt' \<and>
   (m ! fmt = 45 \<or> 48 \<le> sint (m ! fmt) \<and> sint (m ! fmt) \<le> 57 \<longrightarrow> fmt < fmt')"
  by (auto simp: fmtnum_def res_simps split: if_splits dest: digit_run_gt digit_run_ge)

lemma skip_atoi_ge: "skip_atoi_loop m s i = Inr (n, s') \<Longrightarrow> s < s'"
proof (induction m s i rule: skip_atoi_loop.induct)
  case (1 m s i)
  show ?case using 1(1)[of "m ! s"] 1(2)
    by (auto simp: skip_atoi_loop.simps[of m s] res_simps Let_def split: if_splits)
qed

lemma get_int_ge: "get_int m fmt args = Inr (n, fmt', args') \<Longrightarrow> fmt \<le> fmt'"
  by (auto simp: get_int_def skip_atoi_def va_arg_def res_simps split: if_splits list.splits dest!: skip_atoi_ge)

text \<open>
  The part of the loop of \<open>vsnprintf\<close> between the label \<open>morefmt\<close> and the conversion
  character: \<open>fmt\<close> points to the character to be read. The result is the conversion character,
  the advanced \<open>fmt\<close>, the remaining arguments, the properties and \<open>nlong\<close>.
\<close>

function morefmt ::
  "mem \<Rightarrow> nat \<Rightarrow> u64 list \<Rightarrow> strprops \<Rightarrow> nat \<Rightarrow> (u8 \<times> nat \<times> u64 list \<times> strprops \<times> nat) res" where
  "morefmt m fmt args props nlong =
     bind_res (arr_get m fmt) (\<lambda>f.
       if f = 46 then
         bind_res (get_int m (fmt + 1) args) (\<lambda>(i, fmt', args').
           morefmt m fmt' args' (props\<lparr>pad := 32, precision := i\<rparr>) nlong)
       else if f = 35 then morefmt m (fmt + 1) args (props\<lparr>alternate := True\<rparr>) nlong
       else if f = 48 then
         bind_res (fmtnum m (fmt + 1)) (\<lambda>(n, fmt').
           morefmt m fmt' args (props\<lparr>pad := 48, npad := n\<rparr>) nlong)
       else if (49 \<le> sint f \<and> sint f \<le> 57) \<or> f = 45 then
         bind_res (fmtnum m fmt) (\<lambda>(n, fmt'). morefmt m fmt' args (props\<lparr>npad := n\<rparr>) nlong)
       else if f = 108 then morefmt m (fmt + 1) args props (nlong + 1)
       else if f = 116 \<or> f = 122 then morefmt m (fmt + 1) args props 1
       else Inr (f, fmt + 1, args, props, nlong))"
  by pat_completeness auto
termination
  by (relation "measure (\<lambda>(m, fmt, args, props, nlong). length m - fmt)")
    (auto simp: arr_get_eq_Inr dest!: get_int_ge fmtnum_progress)

declare morefmt.simps [simp del]

text \<open>
  The conversion: the \<open>switch\<close> for the characters at which it breaks. A slot is read as
  \<open>int\<close> or \<open>unsigned int\<close> without an \<open>l\<close> and whole with one or more.
\<close>

definition arg_signed :: "nat \<Rightarrow> u64 \<Rightarrow> int" where
  "arg_signed nlong a = (if nlong = 0 then arg_int a else sint a)"

definition arg_unsigned :: "nat \<Rightarrow> u64 \<Rightarrow> u64" where
  "arg_unsigned nlong a = (if nlong = 0 then arg_uint a else a)"

definition convert ::
  "mem \<Rightarrow> pstream \<Rightarrow> u8 \<Rightarrow> nat \<Rightarrow> u64 list \<Rightarrow> strprops \<Rightarrow> nat \<Rightarrow> (mem \<times> pstream \<times> nat \<times> u64 list) res" where
  "convert m s f fmt args props nlong =
     (let output = (\<lambda>as r. bind_res r (\<lambda>(m', s'). Inr (m', s', fmt, as)))
      in if f = 37 then output args (addchar m s 37)
         else if f = 99 then bind_res (va_arg args) (\<lambda>(a, as). output as (addchar m s (ucast a)))
         else if f = 0 then Inr (m, s, fmt - 1, args)
         else if f = 100 then
           bind_res (va_arg args) (\<lambda>(a, as). output as (print_int m s (arg_signed nlong a) 10 props))
         else if f = 117 then
           bind_res (va_arg args) (\<lambda>(a, as). output as (print_unsigned m s (arg_unsigned nlong a) 10 props))
         else if f = 120 then
           bind_res (va_arg args) (\<lambda>(a, as). output as (print_unsigned m s (arg_unsigned nlong a) 16 props))
         else if f = 112 then
           bind_res (va_arg args) (\<lambda>(a, as). output as (print_unsigned m s a 16 (props\<lparr>alternate := True\<rparr>)))
         else if f = 115 then
           bind_res (va_arg args) (\<lambda>(a, as).
             if nlong \<noteq> 0 then output as (print_wstring m s (unat a) props)
             else output as (print_str m s (unat a) props))
         else output args (addchar m s f))"

lemma morefmt_gt: "morefmt m fmt args props nlong = Inr (f, fmt', args', props', nlong') \<Longrightarrow> fmt < fmt'"
proof (induction m fmt args props nlong rule: morefmt.induct)
  case (1 m fmt args props nlong)
  have fm: "fmt < length m"
  proof (rule ccontr)
    assume "\<not> fmt < length m"
    then have "arr_get m fmt = Inl Fault" by (simp add: arr_get_def)
    then show False using 1(7) morefmt.simps[of m fmt args props nlong] by (simp only: bind_res_Inl Inl_Inr_False)
  qed
  then have get: "arr_get m fmt = Inr (m ! fmt)" by simp
  note run = 1(7)[unfolded morefmt.simps[of m fmt args props nlong] get bind_res_Inr]
  show ?case
  proof (cases "m ! fmt = 46")
    case dot: True
    then obtain i f1 a1 where g: "get_int m (fmt + 1) args = Inr (i, f1, a1)"
      "morefmt m f1 a1 (props\<lparr>pad := 32, precision := i\<rparr>) nlong = Inr (f, fmt', args', props', nlong')"
      using run by (auto simp: bind_res_eq_Inr)
    show ?thesis using 1(1)[OF get dot g(1) refl refl g(2)] get_int_ge[OF g(1)] by simp
  next
    case n1: False
    show ?thesis
    proof (cases "m ! fmt = 48")
      case zero: True
      then obtain n f1 where g: "fmtnum m (fmt + 1) = Inr (n, f1)"
        "morefmt m f1 args (props\<lparr>pad := 48, npad := n\<rparr>) nlong = Inr (f, fmt', args', props', nlong')"
        using run by (auto simp: bind_res_eq_Inr)
      show ?thesis using 1(3)[OF get n1 _ zero g(1) refl g(2)] zero fmtnum_progress[OF g(1)] by simp
    next
      case n2: False
      show ?thesis
      proof (cases "(49 \<le> sint (m ! fmt) \<and> sint (m ! fmt) \<le> 57) \<or> m ! fmt = 45")
        case num: True
        then have n3: "m ! fmt \<noteq> 35" by auto
        with num obtain n f1 where g: "fmtnum m fmt = Inr (n, f1)"
          "morefmt m f1 args (props\<lparr>npad := n\<rparr>) nlong = Inr (f, fmt', args', props', nlong')"
          using run n1 n2 by (auto simp: bind_res_eq_Inr)
        show ?thesis using 1(4)[OF get n1 n3 n2 num g(1) refl g(2)] fmtnum_progress[OF g(1)] num by auto
      next
        case False
        then show ?thesis using run n1 n2 1(2)[OF get n1] 1(5,6)[OF get n1 _ n2 False] by (auto split: if_splits)
      qed
    qed
  qed
qed

lemma addchars_length: "addchars m p c n = Inr (m', p') \<Longrightarrow> length m' = length m"
  by (induction m p c n rule: addchars.induct) (auto simp: res_simps dest: addchar_length)

lemma addstr_length: "addstr m p s prec = Inr (m', p') \<Longrightarrow> length m' = length m"
proof (induction m p s prec rule: addstr.induct)
  case (1 m p s prec)
  then show ?case unfolding addstr.simps[of m p s prec]
    by (auto simp: res_simps split: if_splits dest: addchar_length)
qed

lemma print_str_length: "print_str m p s props = Inr (m', p') \<Longrightarrow> length m' = length m"
  by (auto simp: print_str_def res_simps Let_def split: if_splits dest!: addchars_length addstr_length)

lemma wstring_loop_length: "wstring_loop m p ws len pos sz = Inr (m', p') \<Longrightarrow> length m' = length m"
proof (induction m p ws len pos sz rule: wstring_loop.induct)
  case (1 m p ws len pos sz)
  show ?case
  proof (cases "len > 0")
    case True
    then obtain c32 ws' where u: "utf16_to_utf32 m ws = Inr (c32, ws')"
      using 1(3) wstring_loop.simps[of m p ws len pos sz] by (auto simp: bind_res_eq_Inr)
    show ?thesis
    proof (cases "c32 < 0x80")
      case c: True
      then obtain m1 p1 where "addchar m p (ucast c32) = Inr (m1, p1)"
        "wstring_loop m1 p1 ws' (len - 1) pos sz = Inr (m', p')"
        using 1(3) True u wstring_loop.simps[of m p ws len pos sz] by (auto simp: bind_res_eq_Inr)
      then show ?thesis using 1(1)[OF True u refl c] addchar_length by auto
    next
      case False
      then obtain m1 p1 pos1 where "put_wchar m p c32 pos sz = Inr (m1, p1, pos1)"
        "wstring_loop m1 p1 ws' (len - 1 - of_nat (trailing_octets c32)) pos1 sz = Inr (m', p')"
        using 1(3) True u wstring_loop.simps[of m p ws len pos sz] by (auto simp: bind_res_eq_Inr)
      then show ?thesis using 1(2)[OF True u refl False] put_wchar_length by auto
    qed
  qed (use 1(3) wstring_loop.simps[of m p ws len pos sz] in auto)
qed

lemma print_wstring_length: "print_wstring m p s props = Inr (m', p') \<Longrightarrow> length m' = length m"
  by (auto simp: print_wstring_def res_simps dest: wstring_loop_length)

lemma print_buf_length: "print_buf m p b props = Inr (m', p') \<Longrightarrow> length m' = length m"
  by (auto simp: print_buf_def res_simps dest: print_str_length)

lemma print_int_length: "print_int m p n base props = Inr (m', p') \<Longrightarrow> length m' = length m"
  by (auto simp: print_int_def bind_res_eq_Inr defined_eq_Inr dest: print_buf_length)

lemma print_unsigned_length: "print_unsigned m p n base props = Inr (m', p') \<Longrightarrow> length m' = length m"
  by (auto simp: print_unsigned_def bind_res_eq_Inr Let_def split: if_splits dest!: print_buf_length addchar_length)

lemma convert_length:
  "convert m s f fmt args props nlong = Inr (m', s', fmt', args') \<Longrightarrow> length m' = length m \<and> fmt - 1 \<le> fmt'"
  by (auto simp: convert_def bind_res_eq_Inr Let_def split: if_splits
      dest!: addchar_length print_int_length print_unsigned_length print_wstring_length print_str_length)

text \<open>The loop of \<open>vsnprintf\<close>, \<open>fmt\<close> being the address of the next format character.\<close>

definition no_props :: strprops where
  "no_props = \<lparr>pad = 32, npad = 0, alternate = False, precision = -1\<rparr>"

function vsnprintf_loop :: "mem \<Rightarrow> pstream \<Rightarrow> nat \<Rightarrow> u64 list \<Rightarrow> (mem \<times> pstream) res" where
  "vsnprintf_loop m s fmt args =
     bind_res (arr_get m fmt) (\<lambda>f.
       if f = 0 then Inr (m, s)
       else if f \<noteq> 37 then
         bind_res (addchar m s f) (\<lambda>(m', s'). vsnprintf_loop m' s' (fmt + 1) args)
       else
         bind_res (morefmt m (fmt + 1) args no_props 0) (\<lambda>(c, fmt1, args1, props, nlong).
         bind_res (convert m s c fmt1 args1 props nlong) (\<lambda>(m', s', fmt2, args2).
           vsnprintf_loop m' s' fmt2 args2)))"
  by pat_completeness auto
termination
  by (relation "measure (\<lambda>(m, s, fmt, args). length m - fmt)")
    (auto simp: arr_get_eq_Inr dest!: addchar_length morefmt_gt convert_length)

declare vsnprintf_loop.simps [simp del]

definition vsnprintf :: "mem \<Rightarrow> nat \<Rightarrow> int \<Rightarrow> nat \<Rightarrow> u64 list \<Rightarrow> (int \<times> mem) res" where
  "vsnprintf m buf sz fmt va =
     defined (int_ok (sz - 1))
     (bind_res (vsnprintf_loop m \<lparr>buffer = buf, remain = sz - 1, added = 0\<rparr> fmt va) (\<lambda>(m', s).
      bind_res (arr_set m' (buffer s) 0) (\<lambda>m''. Inr (added s, m''))))"

definition snprintf :: "mem \<Rightarrow> nat \<Rightarrow> int \<Rightarrow> nat \<Rightarrow> u64 list \<Rightarrow> (int \<times> mem) res" where
  "snprintf m buf sz fmt va = vsnprintf m buf sz fmt va"

definition BUFSZ :: nat where "BUFSZ = 2000"

text \<open>The result, the memory and the string handed to \<open>puts\<close>.\<close>

definition vprintf :: "mem \<Rightarrow> nat \<Rightarrow> u64 list \<Rightarrow> (int \<times> mem \<times> u8 list) res" where
  "vprintf m fmt va =
     bind_res (vsnprintf (m @ replicate BUFSZ 0) (length m) (int BUFSZ) fmt va) (\<lambda>(r, m').
       Inr (r, take (length m) m', takeWhile (\<lambda>c. c \<noteq> 0) (drop (length m) m')))"

definition printf :: "mem \<Rightarrow> nat \<Rightarrow> u64 list \<Rightarrow> (int \<times> mem \<times> u8 list) res" where
  "printf m fmt va =
     bind_res (vsnprintf (m @ replicate BUFSZ 0) (length m) (int BUFSZ) fmt va) (\<lambda>(r, m').
       Inr (r, take (length m) m', takeWhile (\<lambda>c. c \<noteq> 0) (drop (length m) m')))"

section \<open>Binary numbers\<close>

definition BINSTR_SZ :: nat where "BINSTR_SZ = 8 * 8 + 8 * 2"

text \<open>The loop of \<open>binstr\<close>: \<open>c\<close> is the index of the next character in \<open>out\<close>.\<close>

function binstr_loop :: "u64 \<Rightarrow> u8 list \<Rightarrow> nat \<Rightarrow> nat \<Rightarrow> (u8 list \<times> nat) res" where
  "binstr_loop x out c i =
     bind_res (arr_set out c (if x AND push_bit (64 - i - 1) 1 \<noteq> 0 then 49 else 48)) (\<lambda>out1.
       if i + 1 = 64 then bind_res (arr_set out1 (c + 1) 0) (\<lambda>out2. Inr (out2, c + 1))
       else if (i + 1) mod 4 = 0 then
         bind_res (arr_set out1 (c + 1) 39) (\<lambda>out2. binstr_loop x out2 (c + 2) (i + 1))
       else binstr_loop x out1 (c + 1) (i + 1))"
  by pat_completeness auto
termination
  by (relation "measure (\<lambda>(x, out, c, i). length out - c)") (auto simp: arr_set_eq_Inr)

declare binstr_loop.simps [simp del]

definition binstr :: "u64 \<Rightarrow> u8 list \<Rightarrow> u8 list res" where
  "binstr x out =
     bind_res (binstr_loop x out 0 0) (\<lambda>(out', c). require (c + 1 = BINSTR_SZ) (Inr out'))"

end
