(* ===== verification/Strtol.thy ===== *)
theory Strtol
  imports CString
begin

text \<open>
  What the number parsers of \<open>lib/string.c\<close> compute: a run of digits in any base is read as its
  value, provided the value fits the type; an overflow is a failed assertion.
\<close>

section \<open>Digits\<close>

definition is_digit :: "int \<Rightarrow> u8 \<Rightarrow> bool" where
  "is_digit base d \<longleftrightarrow> strtoll_digit base d \<noteq> None"

definition digit_val :: "int \<Rightarrow> u8 \<Rightarrow> int" where
  "digit_val base d = the (strtoll_digit base d)"

text \<open>The number that the digits \<open>ds\<close> continue after \<open>a\<close>.\<close>

definition num_val :: "int \<Rightarrow> int \<Rightarrow> u8 list \<Rightarrow> int" where
  "num_val base a ds = foldl (\<lambda>v d. v * base + digit_val base d) a ds"

lemma num_val_simps [simp]:
  "num_val base a [] = a"
  "num_val base a (d # ds) = num_val base (a * base + digit_val base d) ds"
  by (simp_all add: num_val_def)

lemma num_val_append: "num_val base a (ds @ es) = num_val base (num_val base a ds) es"
  by (simp add: num_val_def)

lemma digit_val_range:
  assumes "is_digit base d" "base \<ge> 2"
  shows "0 \<le> digit_val base d \<and> digit_val base d < base" "d \<noteq> 0"
  using assms by (auto simp: is_digit_def digit_val_def strtoll_digit_def Let_def split: if_splits)

lemma num_val_mono:
  assumes "\<forall>d \<in> set ds. is_digit base d" "base \<ge> 2" "0 \<le> a"
  shows "a \<le> num_val base a ds"
  using assms
proof (induction ds arbitrary: a)
  case (Cons d ds)
  have d: "0 \<le> digit_val base d" using digit_val_range(1) Cons.prems by auto
  have "a * 1 \<le> a * base" using Cons.prems by (intro mult_left_mono) auto
  then have le: "a \<le> a * base + digit_val base d" using d by simp
  moreover have "a * base + digit_val base d \<le> num_val base (a * base + digit_val base d) ds"
    using Cons.prems le by (intro Cons.IH) auto
  ultimately show ?case by simp
qed simp

section \<open>The conversion loop\<close>

lemma fits_mono: "fits sg 64 y \<Longrightarrow> 0 \<le> x \<Longrightarrow> x \<le> y \<Longrightarrow> fits sg 64 x"
  by (auto simp: fits_def split: if_splits)

lemma fits_read:
  assumes "fits sg 64 a" "0 \<le> a"
  shows "(if sg then sint (word_of_int a :: u64) else uint (word_of_int a :: u64)) = a"
proof (cases sg)
  case True
  then have "a < 2 ^ 63" using assms by (simp add: fits_def)
  then show ?thesis using True assms(2) sint_sbintrunc'[of a, where ?'a = 64]
      signed_take_bit_int_eq_self[of 63 a] by simp
next
  case False
  then have "a < 2 ^ 64" using assms by (simp add: fits_def)
  then show ?thesis using False assms(2) take_bit_int_eq_self[of a 64] by (simp add: unsigned_of_int)
qed

lemma strtoll_loop_correct:
  assumes "cstring_at m p (ds @ rest)" "\<forall>d \<in> set ds. is_digit base d" "rest = [] \<or> \<not> is_digit base (hd rest)"
    "base \<ge> 2" "0 \<le> a" "fits sg 64 (num_val base a ds)"
  shows "strtoll_loop m p (word_of_int a) base sg ll = Inr (word_of_int (num_val base a ds), p + length ds)"
  using assms
proof (induction ds arbitrary: p a)
  case Nil
  then show ?case
    by (cases rest) (auto simp: strtoll_loop.simps[of m p] is_digit_def split: option.splits)
next
  case (Cons d ds)
  define a' where "a' = a * base + digit_val base d"
  have d: "0 \<le> digit_val base d" "strtoll_digit base d = Some (digit_val base d)" "d \<noteq> 0"
    using digit_val_range[of base d] Cons.prems by (auto simp: is_digit_def digit_val_def)
  have "a * 1 \<le> a * base" using Cons.prems by (intro mult_left_mono) auto
  then have le: "a \<le> a * base" "0 \<le> a * base" "a * base \<le> a'" "0 \<le> a'" "a \<le> a'"
    using d(1) Cons.prems(5) by (auto simp: a'_def)
  have "a' \<le> num_val base a' ds" using Cons.prems le by (intro num_val_mono) auto
  then have f: "fits sg 64 a" "fits sg 64 (a * base)" "fits sg 64 a'"
    using Cons.prems(5,6) le by (auto simp: a'_def intro: fits_mono)
  have ok: "strtoll_no_overflow sg ll (word_of_int a) base (digit_val base d)"
    using f fits_read[OF f(1) Cons.prems(5)]
    by (simp add: strtoll_no_overflow_def LONG_BITS_def LLONG_BITS_def a'_def del: of_int_mult)
  have "word_of_int a * word_of_int base + word_of_int (digit_val base d) = (word_of_int a' :: u64)"
    by (simp add: a'_def)
  then have "strtoll_loop m p (word_of_int a) base sg ll = strtoll_loop m (Suc p) (word_of_int a') base sg ll"
    using Cons.prems(1) d ok by (simp add: strtoll_loop.simps[of m p])
  also have "\<dots> = Inr (word_of_int (num_val base a' ds), Suc p + length ds)"
    using Cons.prems le by (intro Cons.IH) (auto simp: a'_def)
  finally show ?case by (simp add: a'_def)
qed

section \<open>\<open>strtol\<close> and \<open>atol\<close>\<close>

definition signed_val :: "bool \<Rightarrow> int \<Rightarrow> int" where
  "signed_val neg v = (if neg then - v else v)"

text \<open>Decimal text: an optional minus sign and a run of digits, possibly empty.\<close>

lemma strtol_decimal:
  assumes "cstring_at m p ((if neg then [45] else []) @ ds @ rest)" "\<forall>d \<in> set ds. is_digit 10 d"
    "rest = [] \<or> \<not> is_digit 10 (hd rest)" "num_val 10 0 ds < 2 ^ 63"
    "neg \<or> ds \<noteq> [] \<or> rest = [] \<or> \<not> isspace (sint (hd rest)) \<and> hd rest \<noteq> 43 \<and> hd rest \<noteq> 45"
  shows "strtol m p 10 = Inr (signed_val neg (num_val 10 0 ds), p + of_bool neg + length ds)"
proof -
  let ?s = "(if neg then [45] else []) @ ds @ rest"
  have bound: "p + length ?s < length m" using cstring_at_bound[OF assms(1)] .
  have first: "m ! p = (if neg then 45 else if ds \<noteq> [] then hd ds else if rest \<noteq> [] then hd rest else 0)"
    using assms(1) by (cases neg; cases ds; cases rest) auto
  have dig: "\<not> isspace (sint d) \<and> d \<noteq> 43 \<and> d \<noteq> 45" if "is_digit 10 d" for d :: u8
    using that by (auto simp: is_digit_def strtoll_digit_def isspace_def Let_def split: if_splits)
  have nosp: "\<not> isspace (sint (m ! p))" "m ! p \<noteq> 43" "\<not> neg \<Longrightarrow> m ! p \<noteq> 45"
    using first assms(2,5) dig[of "hd ds"] by (auto simp: isspace_def split: if_splits)
  have v0: "0 \<le> num_val 10 0 ds" using num_val_mono[OF assms(2), of 0] by simp
  have cs: "cstring_at m (p + of_bool neg) (ds @ rest)" using assms(1) by (cases neg) auto
  have loop: "strtoll_loop m (p + of_bool neg) 0 10 True False =
      Inr (word_of_int (num_val 10 0 ds), p + of_bool neg + length ds)"
    using strtoll_loop_correct[OF cs assms(2,3), of 0 True False] v0 assms(4) by (simp add: fits_def)
  have "sint (word_of_int (signed_val neg (num_val 10 0 ds)) :: u64) = signed_val neg (num_val 10 0 ds)"
    using sint_sbintrunc'[of "signed_val neg (num_val 10 0 ds)", where ?'a = 64] v0 assms(4)
      signed_take_bit_int_eq_self[of 63 "signed_val neg (num_val 10 0 ds)"] by (simp add: signed_val_def)
  then show ?thesis using bound nosp first loop
    by (cases neg) (simp_all add: strtol_def strtoll_gen_def skip_spaces.simps[of m p] strtoll_sign_def
        strtoll_base_def signed_val_def)
qed

lemma atol_decimal:
  assumes "cstring_at m p ((if neg then [45] else []) @ ds @ rest)" "\<forall>d \<in> set ds. is_digit 10 d"
    "rest = [] \<or> \<not> is_digit 10 (hd rest)" "num_val 10 0 ds < 2 ^ 63"
    "neg \<or> ds \<noteq> [] \<or> rest = [] \<or> \<not> isspace (sint (hd rest)) \<and> hd rest \<noteq> 43 \<and> hd rest \<noteq> 45"
  shows "atol m p = Inr (signed_val neg (num_val 10 0 ds))"
  using strtol_decimal[OF assms] by (simp add: atol_def)

end
