(* ===== verification/PrintfSpec.thy ===== *)
theory PrintfSpec
  imports Printf Strtol
begin

text \<open>
  What \<open>vsnprintf\<close> promises: an abstract formatter that maps a format and its arguments to the
  text, on lists and without a buffer, and the refinement: the code leaves as much of that text
  as fits in the buffer, terminates it, touches nothing else and returns the full length.
\<close>

section \<open>A stream as the text added to it\<close>

text \<open>The memory \<open>m0\<close> with at most \<open>cap\<close> characters of \<open>out\<close> written to address \<open>buf\<close>.\<close>

definition put_at :: "mem \<Rightarrow> nat \<Rightarrow> u8 list \<Rightarrow> mem" where
  "put_at m0 buf xs = take buf m0 @ xs @ drop (buf + length xs) m0"

definition stream_at :: "mem \<Rightarrow> nat \<Rightarrow> nat \<Rightarrow> u8 list \<Rightarrow> mem \<times> pstream \<Rightarrow> bool" where
  "stream_at m0 buf cap out s \<longleftrightarrow>
     buf + cap < length m0 \<and> int cap \<le> INT_MAX \<and> int (length out) \<le> INT_MAX \<and>
     fst s = put_at m0 buf (take cap out) \<and>
     snd s = \<lparr>buffer = buf + min cap (length out), remain = int (cap - length out), added = int (length out)\<rparr>"

text \<open>The action \<open>f\<close> adds the text \<open>xs\<close>, as long as the count of characters stays an \<open>int\<close>.\<close>

definition appends :: "mem \<Rightarrow> nat \<Rightarrow> nat \<Rightarrow> (mem \<Rightarrow> pstream \<Rightarrow> (mem \<times> pstream) res) \<Rightarrow> u8 list \<Rightarrow> bool" where
  "appends m0 buf cap f xs \<longleftrightarrow>
     (\<forall>out m p. stream_at m0 buf cap out (m, p) \<longrightarrow> int (length (out @ xs)) \<le> INT_MAX \<longrightarrow>
       (\<exists>s'. f m p = Inr s' \<and> stream_at m0 buf cap (out @ xs) s'))"

lemma appendsE:
  assumes "appends m0 buf cap f xs" "stream_at m0 buf cap out (m, p)" "int (length (out @ xs)) \<le> INT_MAX"
  obtains m' p' where "f m p = Inr (m', p')" "stream_at m0 buf cap (out @ xs) (m', p')"
  using assms unfolding appends_def by (metis surj_pair)

lemma length_put_at [simp]: "buf + length xs \<le> length m0 \<Longrightarrow> length (put_at m0 buf xs) = length m0"
  by (simp add: put_at_def)

lemma nth_put_at:
  assumes "buf + length xs \<le> length m0" "i < length m0"
  shows "put_at m0 buf xs ! i = (if buf \<le> i \<and> i < buf + length xs then xs ! (i - buf) else m0 ! i)"
  using assms by (auto simp: put_at_def nth_append min_def)

lemma put_at_snoc:
  assumes "buf + length xs < length m0"
  shows "(put_at m0 buf xs)[buf + length xs := c] = put_at m0 buf (xs @ [c])"
  by (rule nth_equalityI) (use assms in \<open>auto simp: nth_put_at nth_list_update nth_append\<close>)

lemma addchar_appends: "appends m0 buf cap (\<lambda>m p. addchar m p c) [c]"
  unfolding appends_def
proof (intro allI impI)
  fix out m p
  assume s: "stream_at m0 buf cap out (m, p)" and l: "int (length (out @ [c])) \<le> INT_MAX"
  note s' = s[unfolded stream_at_def fst_conv snd_conv]
  show "\<exists>s'. addchar m p c = Inr s' \<and> stream_at m0 buf cap (out @ [c]) s'"
  proof (cases "length out < cap")
    case True
    then have "(put_at m0 buf out)[buf + length out := c] = put_at m0 buf (out @ [c])"
      using s' by (intro put_at_snoc) auto
    then show ?thesis using s' l True
      by (auto simp: addchar_def stream_at_def int_ok_def INT_MAX_def)
  next
    case False
    then show ?thesis using s' l by (auto simp: addchar_def stream_at_def int_ok_def INT_MAX_def)
  qed
qed

lemma stream_length: "stream_at m0 buf cap out (m, p) \<Longrightarrow> length m = length m0"
  by (auto simp: stream_at_def put_at_def)

lemma stream_cstring:
  assumes "stream_at m0 buf cap out (m, p)" "cstring_at m0 s str" "s + length str < buf \<or> buf + cap < s"
  shows "cstring_at m s str"
proof (rule cstring_atI)
  note s = assms(1)[unfolded stream_at_def fst_conv snd_conv]
  have b: "s + length str < length m0" using cstring_at_bound[OF assms(2)] .
  show "s + length str < length m" using stream_length[OF assms(1)] b by simp
  show "0 \<notin> set str" using cstring_at_nonzero[OF assms(2)] .
  show "m ! (s + length str) = 0" "\<And>i. i < length str \<Longrightarrow> m ! (s + i) = str ! i"
    using s b assms(3) cstring_at_end[OF assms(2)] cstring_at_nth[OF assms(2)] by (auto simp: nth_put_at)
qed

lemma appends_Nil: "appends m0 buf cap (\<lambda>m p. Inr (m, p)) []"
  by (simp add: appends_def)

lemma appends_bind:
  assumes "appends m0 buf cap f xs" "appends m0 buf cap g ys"
  shows "appends m0 buf cap (\<lambda>m p. bind_res (f m p) (\<lambda>(m', p'). g m' p')) (xs @ ys)"
  unfolding appends_def
proof (intro allI impI)
  fix out m p
  assume s: "stream_at m0 buf cap out (m, p)" and l: "int (length (out @ xs @ ys)) \<le> INT_MAX"
  obtain m1 p1 where 1: "f m p = Inr (m1, p1)" "stream_at m0 buf cap (out @ xs) (m1, p1)"
    using appendsE[OF assms(1) s] l by auto
  obtain m2 p2 where "g m1 p1 = Inr (m2, p2)" "stream_at m0 buf cap ((out @ xs) @ ys) (m2, p2)"
    using appendsE[OF assms(2) 1(2)] l by auto
  then show "\<exists>s'. bind_res (f m p) (\<lambda>(m', p'). g m' p') = Inr s' \<and> stream_at m0 buf cap (out @ xs @ ys) s'"
    using 1 by simp
qed

lemma addchars_appends: "appends m0 buf cap (\<lambda>m p. addchars m p c n) (replicate n c)"
proof (induction n)
  case 0
  show ?case using appends_Nil by simp
next
  case (Suc n)
  show ?case using appends_bind[OF addchar_appends[of m0 buf cap c] Suc] by simp
qed

section \<open>Strings\<close>

definition cut :: "int \<Rightarrow> u8 list \<Rightarrow> u8 list" where
  "cut prec str = (if prec < 0 then str else take (nat prec) str)"

lemma cut_simps [simp]:
  "cut prec [] = []" "cut 0 str = []"
  "prec \<noteq> 0 \<Longrightarrow> cut prec (c # str) = c # cut (prec - 1) str"
  by (auto simp: cut_def take_Cons' nat_diff_distrib)

lemma addstr_appends:
  assumes "cstring_at m0 s str" "s + length str < buf \<or> buf + cap < s"
    "prec < 0 \<longrightarrow> - (2 ^ 31) \<le> prec - int (length str)" "prec < 2 ^ 31"
  shows "appends m0 buf cap (\<lambda>m p. addstr m p s prec) (cut prec str)"
  using assms
proof (induction str arbitrary: s prec)
  case Nil
  show ?case unfolding appends_def
  proof (intro allI impI)
    fix out m p
    assume s: "stream_at m0 buf cap out (m, p)"
    have "cstring_at m s []" using stream_cstring[OF s Nil(1)] Nil(2) by simp
    then show "\<exists>s'. addstr m p s prec = Inr s' \<and> stream_at m0 buf cap (out @ cut prec []) s'"
      using s by (simp add: addstr.simps[of m])
  qed
next
  case (Cons c str)
  show ?case unfolding appends_def
  proof (intro allI impI)
    fix out m p
    assume s: "stream_at m0 buf cap out (m, p)" and l: "int (length (out @ cut prec (c # str))) \<le> INT_MAX"
    have c: "cstring_at m s (c # str)" using stream_cstring[OF s Cons.prems(1,2)] .
    have ok: "int_ok (prec - 1)" using Cons.prems(3,4) by (auto simp: int_ok_def INT_MAX_def)
    show "\<exists>s'. addstr m p s prec = Inr s' \<and> stream_at m0 buf cap (out @ cut prec (c # str)) s'"
    proof (cases "prec = 0")
      case True
      then show ?thesis using c s ok by (simp add: addstr.simps[of m])
    next
      case False
      have "appends m0 buf cap (\<lambda>m p. addstr m p (Suc s) (prec - 1)) (cut (prec - 1) str)"
        using Cons.prems False by (intro Cons.IH) auto
      from appends_bind[OF addchar_appends[of m0 buf cap c] this]
      obtain m' p' where "bind_res (addchar m p c) (\<lambda>(m', p'). addstr m' p' (Suc s) (prec - 1)) = Inr (m', p')"
        "stream_at m0 buf cap (out @ [c] @ cut (prec - 1) str) (m', p')"
        by (rule appendsE[OF _ s]) (use l False in auto)
      then show ?thesis using c ok False by (simp add: addstr.simps[of m])
    qed
  qed
qed

lemma c_int_id: "- (2 ^ 31) \<le> k \<Longrightarrow> k < 2 ^ 31 \<Longrightarrow> c_int k = k"
  using sint_sbintrunc'[of k, where ?'a = 32] signed_take_bit_int_eq_self[of 31 k] by (simp add: c_int_def)

text \<open>The text of a string conversion: the padding counts the whole string, not the part cut off.\<close>

definition pad_str :: "strprops \<Rightarrow> u8 list \<Rightarrow> u8 list" where
  "pad_str props str =
     replicate (nat (npad props - int (length str))) (pad props) @ cut (precision props) str @
     replicate (nat (- npad props - int (length str))) 32"

definition props_ok :: "strprops \<Rightarrow> bool" where
  "props_ok props \<longleftrightarrow> \<bar>npad props\<bar> < 2 ^ 31 \<and> - 1 \<le> precision props \<and> precision props < 2 ^ 31"

lemma appends_sourced:
  assumes "cstring_at m0 s str" "s + length str < buf \<or> buf + cap < s" "appends m0 buf cap g xs"
    "\<And>m p. cstring_at m s str \<Longrightarrow> f m p = g m p"
  shows "appends m0 buf cap f xs"
  using assms stream_cstring[OF _ assms(1,2)] unfolding appends_def by metis

lemma c_int_0 [simp]: "c_int 0 = 0"
  by (simp add: c_int_def)

lemma bind_res_Inr_right [simp]: "bind_res r Inr = r"
  by (cases r) auto

lemma bind_res_fst_snd [simp]: "bind_res r (\<lambda>p. Inr (fst p, snd p)) = r"
  by (cases r) auto

lemma print_str_appends:
  assumes "cstring_at m0 s str" "s + length str < buf \<or> buf + cap < s" "props_ok props" "length str < 2 ^ 31 - 1"
  shows "appends m0 buf cap (\<lambda>m p. print_str m p s props) (pad_str props str)"
proof -
  let ?n = "npad props" and ?L = "int (length str)"
  note ok = assms(3)[unfolded props_ok_def]
  have body: "appends m0 buf cap (\<lambda>m p. addstr m p s (precision props)) (cut (precision props) str)"
    using ok assms(4) by (intro addstr_appends[OF assms(1,2)]) auto
  have c: "c_int (?n - ?L) = ?n - ?L" if "?n > 0" using that ok assms(4) by (intro c_int_id) auto
  have c': "c_int (?n + ?L) = ?n + ?L" if "?n \<le> 0" using that ok assms(4) by (intro c_int_id) auto
  have tail: "appends m0 buf cap
      (\<lambda>m p. bind_res (strlen m s) (\<lambda>l. addchars m p 32 (nat (- c_int (k + int l))))) (replicate (nat (- c_int (k + ?L))) 32)" for k
    by (rule appends_sourced[OF assms(1,2) addchars_appends[of m0 buf cap 32 "nat (- c_int (k + ?L))"]])
      (simp add: strlen_correct)
  consider (right) "?n > 0" | (left) "?n < 0" | (plain) "?n = 0" by linarith
  then show ?thesis
  proof cases
    case right
    let ?k = "?n - ?L"
    have z: "c_int (?k + ?L) = ?n" using c_int_id[of ?n] ok by (simp add: abs_less_iff)
    note head = addchars_appends[of m0 buf cap "pad props" "nat ?k"]
    show ?thesis
    proof (cases "?k < 0")
      case True
      have "appends m0 buf cap (\<lambda>m p. bind_res (addchars m p (pad props) (nat ?k)) (\<lambda>(m', p').
          bind_res (addstr m' p' s (precision props)) (\<lambda>(m', p').
          bind_res (strlen m' s) (\<lambda>l. addchars m' p' 32 (nat (- c_int (?k + int l))))))) (pad_str props str)"
        using appends_bind[OF head appends_bind[OF body tail[of ?k]]] right z by (simp add: pad_str_def)
      then show ?thesis by (rule appends_sourced[OF assms(1,2)])
        (use right c True in \<open>simp add: print_str_def strlen_correct Let_def split_def bind_res_assoc\<close>)
    next
      case False
      have "appends m0 buf cap (\<lambda>m p. bind_res (addchars m p (pad props) (nat ?k)) (\<lambda>(m', p').
          addstr m' p' s (precision props))) (pad_str props str)"
        using appends_bind[OF head body] right by (simp add: pad_str_def)
      then show ?thesis by (rule appends_sourced[OF assms(1,2)])
        (use right c False in \<open>simp add: print_str_def strlen_correct Let_def split_def bind_res_assoc\<close>)
    qed
  next
    case left
    have "appends m0 buf cap (\<lambda>m p. bind_res (addstr m p s (precision props)) (\<lambda>(m', p').
        bind_res (strlen m' s) (\<lambda>l. addchars m' p' 32 (nat (- c_int (?n + int l)))))) (pad_str props str)"
      using appends_bind[OF body tail[of ?n]] left c' by (simp add: pad_str_def)
    then show ?thesis by (rule appends_sourced[OF assms(1,2)])
      (use left in \<open>simp add: print_str_def Let_def split_def\<close>)
  next
    case plain
    then show ?thesis using appends_bind[OF body appends_Nil] by (simp add: print_str_def pad_str_def)
  qed
qed

section \<open>Numbers\<close>

text \<open>The digits of \<open>n\<close>, least first.\<close>

function digs :: "nat \<Rightarrow> nat \<Rightarrow> u8 list" where
  "digs base n = (if n \<noteq> 0 \<and> base > 1 then digits ! (n mod base) # digs base (n div base) else [])"
  by pat_completeness auto
termination
  by (relation "measure snd") auto

declare digs.simps [simp del]

lemma digs_length:
  assumes "n < base ^ k" "base > 1"
  shows "length (digs base n) \<le> k"
  using assms(1)
proof (induction k arbitrary: n)
  case 0
  then show ?case by (subst digs.simps) simp
next
  case (Suc k)
  have "n div base < base ^ k" using Suc.prems assms(2) by (simp add: div_less_iff_less_mult mult.commute)
  then show ?case using Suc.IH by (simp add: digs.simps[of _ n])
qed

lemma digits_nth_nonzero: "i < 16 \<Longrightarrow> digits ! i \<noteq> 0"
proof -
  assume "i < 16"
  then have "digits ! i \<in> set digits" by (intro nth_mem) (simp add: digits_def)
  then show ?thesis by (auto simp: digits_def)
qed

lemma digs_nonzero: "base \<le> 16 \<Longrightarrow> 0 \<notin> set (digs base n)"
proof (induction base n rule: digs.induct)
  case (1 base n)
  show ?case
  proof (cases "n \<noteq> 0 \<and> base > 1")
    case True
    then have "n mod base < base" by auto
    then have "n mod base < 16" using 1(2) by simp
    then show ?thesis using True 1 digits_nth_nonzero[of "n mod base"] by (simp add: digs.simps[of base n])
  next
    case False
    then show ?thesis by (subst digs.simps) auto
  qed
qed

lemma arr_set_append:
  assumes "rest \<noteq> []"
  shows "arr_set (xs @ rest) (length xs) v = Inr (xs @ v # tl rest)"
  using assms by (cases rest) (simp_all add: arr_set_def)

lemma put_digits_correct:
  assumes "length (digs base n) \<le> length rest" "base \<le> 16"
  shows "put_digits (xs @ rest) (length xs) n base =
    Inr (xs @ digs base n @ drop (length (digs base n)) rest, length xs + length (digs base n))"
  using assms
proof (induction base n arbitrary: xs rest rule: digs.induct)
  case (1 base n)
  show ?case
  proof (cases "n \<noteq> 0 \<and> base > 1")
    case True
    let ?d = "digits ! (n mod base)"
    have dg: "digs base n = ?d # digs base (n div base)" using True by (simp add: digs.simps[of base n])
    then have ne: "rest \<noteq> []" using 1(2) by auto
    have "n mod base < base" using True by simp
    then have get: "arr_get digits (n mod base) = Inr ?d" using 1(3) by (simp add: digits_def)
    have "put_digits (xs @ rest) (length xs) n base = put_digits ((xs @ [?d]) @ tl rest) (length (xs @ [?d])) (n div base) base"
      using True get arr_set_append[OF ne, of xs ?d] by (simp add: put_digits.simps[of "xs @ rest"])
    also have "\<dots> = Inr ((xs @ [?d]) @ digs base (n div base) @ drop (length (digs base (n div base))) (tl rest),
        length (xs @ [?d]) + length (digs base (n div base)))"
      using 1(2,3) dg by (intro 1(1)[OF True]) auto
    finally show ?thesis using dg by (simp add: drop_Suc)
  qed (auto simp: put_digits.simps[of "xs @ rest"] digs.simps[of base n])
qed

text \<open>The zeros added up to the precision; at least one digit.\<close>

definition zeros :: "int \<Rightarrow> nat \<Rightarrow> nat" where
  "zeros prec i = (if i = 0 then max 1 (nat prec) else nat prec - i)"

lemma put_zeros_correct:
  assumes "zeros prec (length xs) \<le> length rest"
  shows "put_zeros (xs @ rest) (length xs) prec =
    Inr (xs @ replicate (zeros prec (length xs)) 48 @ drop (zeros prec (length xs)) rest, length xs + zeros prec (length xs))"
  using assms
proof (induction "zeros prec (length xs)" arbitrary: xs rest)
  case 0
  then have "\<not> (xs = [] \<or> int (length xs) < prec)" by (auto simp: zeros_def split: if_splits)
  then show ?case using 0 by (simp add: put_zeros.simps[of "xs @ rest"])
next
  case (Suc k)
  have go: "xs = [] \<or> int (length xs) < prec"
    using Suc(2) by (auto simp: zeros_def split: if_splits)
  have k: "k = zeros prec (length (xs @ [48]))" using Suc(2) go by (auto simp: zeros_def split: if_splits)
  have ne: "rest \<noteq> []" using Suc(2,3) by auto
  have "put_zeros (xs @ rest) (length xs) prec = put_zeros ((xs @ [48]) @ tl rest) (length (xs @ [48])) prec"
    using go arr_set_append[OF ne, of xs 48] by (auto simp: put_zeros.simps[of "xs @ rest"])
  also have "\<dots> = Inr ((xs @ [48]) @ replicate k 48 @ drop k (tl rest), length (xs @ [48]) + k)"
    using Suc(1)[OF k, of "tl rest"] Suc(2,3) unfolding k[symmetric] by simp
  finally show ?case using Suc(2)[symmetric] by (simp add: drop_Suc)
qed

lemma reverse_loop_nth:
  assumes "e \<le> length buf" "i \<le> e div 2"
  shows "\<exists>r. reverse_loop buf i e = Inr r \<and> length r = length buf \<and>
    (\<forall>j < length buf. r ! j = (if i \<le> j \<and> j < e - i then buf ! (e - 1 - j) else buf ! j))"
  using assms
proof (induction buf i e rule: reverse_loop.induct)
  case (1 buf i e)
  show ?case
  proof (cases "i < e div 2")
    case True
    let ?b = "buf[i := buf ! (e - 1 - i), e - 1 - i := buf ! i]"
    have lt: "i < length buf" "e - 1 - i < length buf" using True 1(2) by auto
    have eq: "reverse_loop buf i e = reverse_loop ?b (i + 1) e"
      using True lt by (simp add: reverse_loop.simps[of buf i])
    obtain r where r: "reverse_loop ?b (i + 1) e = Inr r" "length r = length buf"
      "\<And>j. j < length buf \<Longrightarrow> r ! j = (if i + 1 \<le> j \<and> j < e - (i + 1) then ?b ! (e - 1 - j) else ?b ! j)"
      using 1(1)[OF True, of "buf ! i" "buf ! (e - 1 - i)" "buf[i := buf ! (e - 1 - i)]" ?b] lt True 1(2) by auto
    have "r ! j = (if i \<le> j \<and> j < e - i then buf ! (e - 1 - j) else buf ! j)" if j: "j < length buf" for j
    proof -
      have b: "?b ! j = (if j = e - 1 - i then buf ! i else if j = i then buf ! (e - 1 - i) else buf ! j)"
        if "j < length buf" for j using that by (simp add: nth_list_update)
      have ie: "i \<noteq> e - 1 - i" "i < e - i" "e - 1 - (e - 1 - i) = i" using True by auto
      show ?thesis
      proof (cases "j = i \<or> j = e - 1 - i")
        case ends: True
        then have "\<not> (i + 1 \<le> j \<and> j < e - (i + 1))" "i \<le> j \<and> j < e - i" using ie True by auto
        then show ?thesis using r(3)[OF j] b[OF j] ends ie by (metis (no_types))
      next
        case False
        then have "(i \<le> j \<and> j < e - i) = (i + 1 \<le> j \<and> j < e - (i + 1))" by auto
        moreover have "?b ! (e - 1 - j) = buf ! (e - 1 - j)" if "i + 1 \<le> j \<and> j < e - (i + 1)"
        proof -
          have "e - 1 - j < length buf" "e - 1 - j \<noteq> i" "e - 1 - j \<noteq> e - 1 - i" using that 1(2) by auto
          then show ?thesis using b[of "e - 1 - j"] by simp
        qed
        moreover have "?b ! j = buf ! j" using b[OF j] False by simp
        ultimately show ?thesis using r(3)[OF j] by presburger
      qed
    qed
    then show ?thesis using eq r(1,2) by auto
  next
    case False
    then have "i = e div 2" using 1(3) by simp
    then have "e - 1 - j = j" if "i \<le> j" "j < e - i" for j using that by presburger
    then show ?thesis using False by (auto simp: reverse_loop.simps[of buf i])
  qed
qed

lemma reverse_loop_correct: "reverse_loop (xs @ rest) 0 (length xs) = Inr (rev xs @ rest)"
proof -
  obtain r where r: "reverse_loop (xs @ rest) 0 (length xs) = Inr r" "length r = length (xs @ rest)"
    "\<forall>j < length (xs @ rest). r ! j = (if 0 \<le> j \<and> j < length xs - 0 then (xs @ rest) ! (length xs - 1 - j) else (xs @ rest) ! j)"
    using reverse_loop_nth[of "length xs" "xs @ rest" 0] by auto
  have "r = rev xs @ rest"
    by (rule nth_equalityI) (use r in \<open>auto simp: nth_append rev_nth\<close>)
  with r show ?thesis by simp
qed

lemma put_at_append: "buf + length xs \<le> length m0 \<Longrightarrow> put_at (m0 @ b) buf xs = put_at m0 buf xs @ b"
  by (simp add: put_at_def)

lemma stream_at_extend:
  assumes "stream_at m0 buf cap out (m, p)"
  shows "stream_at (m0 @ b) buf cap out (m @ b, p)"
  using assms put_at_append[of buf "take cap out" m0 b] by (auto simp: stream_at_def)

lemma stream_at_restrict:
  assumes "stream_at (m0 @ b) buf cap out (m', p)" "buf + cap < length m0"
  shows "stream_at m0 buf cap out (take (length m0) m', p)"
proof -
  have "buf + length (take cap out) \<le> length m0" using assms(2) by simp
  then have "take (length m0) (put_at (m0 @ b) buf (take cap out)) = put_at m0 buf (take cap out)"
    by (simp add: put_at_append)
  then show ?thesis using assms by (auto simp: stream_at_def)
qed

lemma print_buf_appends:
  assumes "0 \<notin> set str" "props_ok props" "length str < 2 ^ 31 - 1"
  shows "appends m0 buf cap (\<lambda>m p. print_buf m p (str @ 0 # rest) props) (pad_str props str)"
  unfolding appends_def
proof (intro allI impI)
  fix out m p
  let ?b = "str @ 0 # rest"
  assume s: "stream_at m0 buf cap out (m, p)" and l: "int (length (out @ pad_str props str)) \<le> INT_MAX"
  have room: "buf + cap < length m0" using s by (simp add: stream_at_def)
  have "cstring_at (m0 @ ?b) (length m0) str"
    using assms(1) by (intro cstring_atI) (auto simp: nth_append)
  then have "appends (m0 @ ?b) buf cap (\<lambda>m p. print_str m p (length m0) props) (pad_str props str)"
    using room assms(2,3) by (intro print_str_appends) auto
  from appendsE[OF this stream_at_extend[OF s] l]
  obtain m' p' where "print_str (m @ ?b) p (length m0) props = Inr (m', p')"
    "stream_at (m0 @ ?b) buf cap (out @ pad_str props str) (m', p')" by blast
  then show "\<exists>s'. print_buf m p ?b props = Inr s' \<and> stream_at m0 buf cap (out @ pad_str props str) s'"
    using stream_at_restrict[OF _ room] stream_length[OF s] by (auto simp: print_buf_def)
qed

text \<open>The digit arrays: what the first two loops leave in an array of \<open>k\<close> characters.\<close>

lemma number_array:
  assumes "base \<le> 16" "length (digs base n) + zeros prec (length (digs base n)) \<le> k"
  obtains r1 r2 where "put_digits (replicate k 0) 0 n base = Inr (digs base n @ r1, length (digs base n))"
    "put_zeros (digs base n @ r1) (length (digs base n)) prec =
      Inr ((digs base n @ replicate (zeros prec (length (digs base n))) 48) @ r2,
           length (digs base n @ replicate (zeros prec (length (digs base n))) 48))"
    "length r2 = k - length (digs base n) - zeros prec (length (digs base n))"
proof -
  let ?d = "digs base n" and ?z = "zeros prec (length (digs base n))"
  let ?r1 = "drop (length ?d) (replicate k (0::u8))"
  have "put_digits (replicate k 0) 0 n base = Inr (?d @ ?r1, length ?d)"
    using put_digits_correct[of base n "replicate k 0" "[]"] assms by simp
  moreover have "put_zeros (?d @ ?r1) (length ?d) prec = Inr (?d @ replicate ?z 48 @ drop ?z ?r1, length ?d + ?z)"
    using assms by (intro put_zeros_correct) auto
  ultimately show ?thesis using that[of ?r1 "drop ?z ?r1"] by simp
qed

lemma finish_array:
  assumes "rest \<noteq> []" "n = length xs"
  shows "bind_res (reverse_loop (xs @ rest) 0 n) (\<lambda>b. bind_res (arr_set b n 0) f) = f (rev xs @ 0 # tl rest)"
  using assms reverse_loop_correct[of xs rest] arr_set_append[OF assms(1), of "rev xs" 0] by simp

definition int_text :: "nat \<Rightarrow> int \<Rightarrow> int \<Rightarrow> u8 list" where
  "int_text base prec n =
     (let ds = digs base (nat \<bar>n\<bar>)
      in (if n < 0 then [45] else []) @ replicate (zeros prec (length ds)) 48 @ rev ds)"

lemma digs_length_64:
  assumes "n < 2 ^ 64" "base = 10 \<or> base = 16"
  shows "length (digs base n) \<le> 20"
proof (rule digs_length)
  show "n < base ^ 20" using assms by (auto intro: less_le_trans)
  show "1 < base" using assms by auto
qed

lemma zeros_bound: "k \<le> 20 \<Longrightarrow> prec \<le> 24 \<Longrightarrow> k + zeros prec k \<le> 24"
  by (auto simp: zeros_def)

lemma print_int_appends:
  assumes "\<bar>n\<bar> < 2 ^ 63" "base = 10 \<or> base = 16" "props_ok props" "precision props \<le> 24"
  shows "appends m0 buf cap (\<lambda>m p. print_int m p n base props)
    (pad_str (props\<lparr>precision := -1\<rparr>) (int_text base (precision props) n))"
proof -
  let ?d = "digs base (nat \<bar>n\<bar>)"
  let ?z = "zeros (precision props) (length ?d)"
  let ?xs = "?d @ replicate ?z 48 @ (if n < 0 then [45] else [])"
  have b16: "base \<le> 16" and nm: "n \<noteq> - (2 ^ 63)" using assms(1,2) by auto
  have "nat \<bar>n\<bar> < 2 ^ 64" using assms(1) by simp
  then have z: "length ?d + ?z \<le> 24" using zeros_bound[OF digs_length_64[OF _ assms(2)] assms(4)] by simp
  then obtain r1 r2 where r: "put_digits (replicate 26 0) 0 (nat \<bar>n\<bar>) base = Inr (?d @ r1, length ?d)"
    "put_zeros (?d @ r1) (length ?d) (precision props) = Inr ((?d @ replicate ?z 48) @ r2, length (?d @ replicate ?z 48))"
    "length r2 = 26 - length ?d - ?z"
    using number_array[OF b16, of "nat \<bar>n\<bar>" "precision props" 26] by auto
  define r3 where "r3 = (if n < 0 then tl r2 else r2)"
  have ne: "r2 \<noteq> []" "r3 \<noteq> []" using r(3) z unfolding r3_def by (cases r2; cases "tl r2"; auto)+
  have sign: "(if n < 0 then bind_res (arr_set ((?d @ replicate ?z 48) @ r2) (length (?d @ replicate ?z 48)) 45)
        (\<lambda>b. Inr (b, length (?d @ replicate ?z 48) + 1)) else Inr ((?d @ replicate ?z 48) @ r2, length (?d @ replicate ?z 48)))
      = Inr (?xs @ r3, length ?xs)"
    unfolding r3_def by (subst arr_set_append[OF ne(1)]) simp
  have "print_int m p n base props = print_buf m p (rev ?xs @ 0 # tl r3) (props\<lparr>precision := -1\<rparr>)" for m p
    by (simp only: print_int_def defined_True[OF nm] r(1,2) bind_res_Inr prod.case sign finish_array[OF ne(2) refl])
  moreover have "rev ?xs = int_text base (precision props) n" by (simp add: int_text_def Let_def)
  moreover have "appends m0 buf cap (\<lambda>m p. print_buf m p (int_text base (precision props) n @ 0 # tl r3) (props\<lparr>precision := -1\<rparr>))
      (pad_str (props\<lparr>precision := -1\<rparr>) (int_text base (precision props) n))"
    using assms(3) z digs_nonzero[OF b16, of "nat \<bar>n\<bar>"]
    by (intro print_buf_appends) (auto simp: int_text_def Let_def props_ok_def)
  ultimately show ?thesis by (simp only:)
qed

definition uint_text :: "nat \<Rightarrow> strprops \<Rightarrow> u64 \<Rightarrow> u8 list" where
  "uint_text base props n =
     (let ds = digs base (unat n); num = replicate (zeros (precision props) (length ds)) 48 @ rev ds;
          np = npad props; pr = props\<lparr>precision := -1\<rparr>
      in if alternate props \<and> n \<noteq> 0 \<and> base = 16 then
           if pad props = 48 then [48, 120] @ pad_str (pr\<lparr>npad := if np > 0 then max (np - 2) 0 else np\<rparr>) num
           else pad_str pr ([48, 120] @ num)
         else pad_str pr num)"

lemma pad_str_alternate [simp]: "pad_str (props\<lparr>alternate := a\<rparr>) str = pad_str props str"
  by (simp add: pad_str_def)

lemma digs_empty_iff: "base > 1 \<Longrightarrow> length (digs base n) = 0 \<longleftrightarrow> n = 0"
  by (subst digs.simps) simp

lemma print_unsigned_appends:
  assumes "base = 10 \<or> base = 16" "props_ok props" "precision props \<le> 24"
  shows "appends m0 buf cap (\<lambda>m p. print_unsigned m p n base props) (uint_text base props n)"
proof -
  let ?d = "digs base (unat n)"
  let ?z = "zeros (precision props) (length ?d)"
  let ?ys = "?d @ replicate ?z 48"
  let ?alt = "alternate props \<and> length ?d \<noteq> 0"
  have b16: "base \<le> 16" "base > 1" using assms(1) by auto
  have "unat n < 2 ^ 64" using unsigned_less[of n] by simp
  then have z: "length ?d + ?z \<le> 24" using zeros_bound[OF digs_length_64[OF _ assms(1)] assms(3)] by simp
  then obtain r1 r2 where r: "put_digits (replicate 27 0) 0 (unat n) base = Inr (?d @ r1, length ?d)"
    "put_zeros (?d @ r1) (length ?d) (precision props) = Inr (?ys @ r2, length ?ys)"
    "length r2 = 27 - length ?d - ?z"
    using number_array[OF b16(1), of "unat n" "precision props" 27] by auto
  have ne: "r2 \<noteq> []" "tl r2 \<noteq> []" "tl (tl r2) \<noteq> []" using r(3) z by (cases r2; cases "tl r2"; auto)+
  have alt: "?alt \<longleftrightarrow> alternate props \<and> n \<noteq> 0" using digs_empty_iff[OF b16(2), of "unat n"] by (simp add: unat_eq_0)
  have nz: "0 \<notin> set ?ys" using digs_nonzero[OF b16(1), of "unat n"] by simp
  have ok: "props_ok (props\<lparr>npad := np, alternate := a, precision := -1\<rparr>)" if "\<bar>np\<bar> < 2 ^ 31" for np a
    using assms(2) that by (simp add: props_ok_def)
  have np: "\<bar>npad props\<bar> < 2 ^ 31" using assms(2) by (simp add: props_ok_def)
  have fits: "appends m0 buf cap (\<lambda>m p. print_buf m p (rev xs @ 0 # rest) (props\<lparr>npad := np, alternate := a, precision := -1\<rparr>))
      (pad_str (props\<lparr>npad := np, alternate := a, precision := -1\<rparr>) (rev xs))"
    if "0 \<notin> set xs" "length xs \<le> 26" "\<bar>np\<bar> < 2 ^ 31" for xs rest np a
    using that ok by (intro print_buf_appends) auto
  note run = print_unsigned_def r(1,2) bind_res_Inr prod.case Let_def
  consider (zero_pad) "?alt" "base = 16" "pad props = 48" | (prefix) "?alt" "base = 16" "pad props \<noteq> 48"
    | (plain) "\<not> (?alt \<and> base = 16)" by blast
  then show ?thesis
  proof cases
    case zero_pad
    let ?np = "if npad props > 0 then max (npad props - 2) 0 else npad props"
    have cond: "(?alt \<and> base = 16) = True" "(pad props = 48) = True" using zero_pad by auto
    have "appends m0 buf cap (\<lambda>m p. bind_res (addchar m p 48) (\<lambda>(m, p). bind_res (addchar m p 120) (\<lambda>(m, p).
        print_buf m p (rev ?ys @ 0 # tl r2) (props\<lparr>npad := ?np, alternate := ?alt, precision := -1\<rparr>)))) (uint_text base props n)"
      using appends_bind[OF addchar_appends[of m0 buf cap 48] appends_bind[OF addchar_appends[of m0 buf cap 120]
          fits[OF nz, of ?np "tl r2" ?alt]]] z np zero_pad alt by (auto simp: uint_text_def Let_def pad_str_def)
    moreover have "print_unsigned m p n base props = bind_res (addchar m p 48) (\<lambda>(m, p). bind_res (addchar m p 120) (\<lambda>(m, p).
        print_buf m p (rev ?ys @ 0 # tl r2) (props\<lparr>npad := ?np, alternate := ?alt, precision := -1\<rparr>)))" for m p
      by (simp only: run cond finish_array[OF ne(1) refl] bind_res_assoc split_def fst_conv snd_conv if_True)
    ultimately show ?thesis by simp
  next
    case prefix
    let ?xs = "(?ys @ [120]) @ [48]"
    have s: "arr_set (?ys @ r2) (length ?ys) 120 = Inr ((?ys @ [120]) @ tl r2)"
      "arr_set ((?ys @ [120]) @ tl r2) (length ?ys + 1) 48 = Inr (?xs @ tl (tl r2))"
      using arr_set_append[OF ne(1), of ?ys 120] arr_set_append[OF ne(2), of "?ys @ [120]" 48] by simp_all
    have cond: "(?alt \<and> base = 16) = True" "(pad props = 48) = False" using prefix by auto
    have len: "length ?ys + 2 = length ?xs" by simp
    have "print_unsigned m p n base props =
        print_buf m p (rev ?xs @ 0 # tl (tl (tl r2))) (props\<lparr>npad := npad props, alternate := ?alt, precision := -1\<rparr>)" for m p
      by (simp only: run cond s finish_array[OF ne(3) len] if_True if_False)
    then show ?thesis using fits[of ?xs "npad props" "tl (tl (tl r2))" ?alt] nz z np prefix alt
      by (auto simp: uint_text_def Let_def pad_str_def)
  next
    case plain
    then have cond: "(?alt \<and> base = 16) = False" by simp
    have "print_unsigned m p n base props =
        print_buf m p (rev ?ys @ 0 # tl r2) (props\<lparr>npad := npad props, alternate := ?alt, precision := -1\<rparr>)" for m p
      by (simp only: run cond finish_array[OF ne(1) refl] if_False simp_thms)
    then show ?thesis using fits[OF nz, of "npad props" "tl r2" ?alt] z np plain alt
      by (auto simp: uint_text_def Let_def pad_str_def)
  qed
qed

end
