(* ===== verification/PrintfRefine.thy ===== *)
theory PrintfRefine
  imports PrintfSpec
begin

text \<open>
  The abstract formatter and the refinement theorem for \<open>vsnprintf\<close>. The formatter is undefined
  (\<open>None\<close>) where the code has no good behaviour: a missing argument, \<open>%ls\<close>, a numeric precision
  beyond the digit array, a width that is not an \<open>int\<close> or is preceded by white space, and the
  least 64-bit integer.
\<close>

section \<open>The abstract formatter\<close>

definition spec_num :: "u8 list \<Rightarrow> (int \<times> u8 list) option" where
  "spec_num fs =
     (let neg = (fs \<noteq> [] \<and> hd fs = 45); gs = (if neg then tl fs else fs);
          ds = takeWhile (is_digit 10) gs; rest = dropWhile (is_digit 10) gs; v = num_val 10 0 ds
      in if v < 2 ^ 31 \<and> (neg \<or> ds \<noteq> [] \<or> rest = [] \<or> \<not> isspace (sint (hd rest)) \<and> hd rest \<noteq> 43)
         then Some (signed_val neg v, rest) else None)"

definition spec_int :: "u8 list \<Rightarrow> u64 list \<Rightarrow> (int \<times> u8 list \<times> u64 list) option" where
  "spec_int fs args =
     (if fs \<noteq> [] \<and> is_digit 10 (hd fs) then
        let v = num_val 10 0 (takeWhile (is_digit 10) fs)
        in if v < 2 ^ 31 - 48 then Some (v, dropWhile (is_digit 10) fs, args) else None
      else if fs \<noteq> [] \<and> hd fs = 42 then
        (case args of [] \<Rightarrow> None
         | a # as \<Rightarrow> if - 1 \<le> arg_int a then Some (arg_int a, tl fs, as) else None)
      else Some (0, fs, args))"

lemma spec_num_length: "spec_num fs = Some (n, rest) \<Longrightarrow> length rest \<le> length fs"
  by (auto simp: spec_num_def Let_def intro: order_trans[OF length_dropWhile_le] split: if_splits)

lemma spec_int_length: "spec_int fs args = Some (n, rest, as) \<Longrightarrow> length rest \<le> length fs"
  by (auto simp: spec_int_def Let_def length_dropWhile_le split: if_splits list.splits)

text \<open>The flags up to the conversion character, which is 0 at the end of the format.\<close>

function spec_more ::
  "u8 list \<Rightarrow> u64 list \<Rightarrow> strprops \<Rightarrow> nat \<Rightarrow> (u8 \<times> u8 list \<times> u64 list \<times> strprops \<times> nat) option" where
  "spec_more [] args props nlong = Some (0, [], args, props, nlong)"
| "spec_more (f # fs) args props nlong =
     (if f = 46 then
        (case spec_int fs args of None \<Rightarrow> None
         | Some (i, rest, args') \<Rightarrow> spec_more rest args' (props\<lparr>pad := 32, precision := i\<rparr>) nlong)
      else if f = 35 then spec_more fs args (props\<lparr>alternate := True\<rparr>) nlong
      else if f = 48 then
        (case spec_num fs of None \<Rightarrow> None
         | Some (n, rest) \<Rightarrow> spec_more rest args (props\<lparr>pad := 48, npad := n\<rparr>) nlong)
      else if is_digit 10 f \<or> f = 45 then
        (case spec_num (f # fs) of None \<Rightarrow> None
         | Some (n, rest) \<Rightarrow>
             if length rest < length (f # fs) then spec_more rest args (props\<lparr>npad := n\<rparr>) nlong else None)
      else if f = 108 then spec_more fs args props (nlong + 1)
      else if f = 116 \<or> f = 122 then spec_more fs args props 1
      else Some (f, fs, args, props, nlong))"
  by pat_completeness auto
termination
  by (relation "measure (\<lambda>(fs, args, props, nlong). length fs)")
    (auto dest!: spec_num_length spec_int_length)

declare spec_more.simps(2) [simp del]

definition spec_conv ::
  "(nat \<Rightarrow> u8 list option) \<Rightarrow> u8 \<Rightarrow> u64 list \<Rightarrow> strprops \<Rightarrow> nat \<Rightarrow> (u8 list \<times> u64 list) option" where
  "spec_conv strs c args props nlong =
     (if c = 0 then Some ([], args)
      else if c \<notin> {99, 100, 117, 120, 112, 115} then Some ([c], args)
      else case args of [] \<Rightarrow> None | a # as \<Rightarrow>
        if c = 99 then Some ([ucast a], as)
        else if c = 115 then
          (case strs (unat a) of None \<Rightarrow> None
           | Some str \<Rightarrow> if nlong = 0 then Some (pad_str props str, as) else None)
        else if precision props > 24 then None
        else if c = 100 then
          let n = arg_signed nlong a
          in if n = - (2 ^ 63) then None
             else Some (pad_str (props\<lparr>precision := -1\<rparr>) (int_text 10 (precision props) n), as)
        else if c = 117 then Some (uint_text 10 props (arg_unsigned nlong a), as)
        else if c = 120 then Some (uint_text 16 props (arg_unsigned nlong a), as)
        else Some (uint_text 16 (props\<lparr>alternate := True\<rparr>) a, as))"

lemma spec_more_length:
  "spec_more fs args props nlong = Some (c, rest, args', props', nlong') \<Longrightarrow> length rest \<le> length fs"
proof (induction fs args props nlong rule: spec_more.induct)
  case (2 f fs args props nlong)
  note run = "2.prems"[unfolded spec_more.simps(2)]
  show ?case
  proof (cases "f = 46 \<or> f = 48 \<or> is_digit 10 f \<or> f = 45")
    case True
    moreover from True have "f \<noteq> 35" by (auto simp: is_digit_def strtoll_digit_def Let_def)
    ultimately show ?thesis using run 2(1,3,4)
      by (auto split: if_splits option.splits dest!: spec_num_length spec_int_length)
        (meson le_SucI order_trans less_Suc_eq_le)+
  next
    case False
    then show ?thesis using run 2(2,5,6) by (auto split: if_splits)
  qed
qed simp

function spec_fmt :: "(nat \<Rightarrow> u8 list option) \<Rightarrow> u8 list \<Rightarrow> u64 list \<Rightarrow> u8 list option" where
  "spec_fmt strs [] args = Some []"
| "spec_fmt strs (f # fs) args =
     (if f \<noteq> 37 then map_option (Cons f) (spec_fmt strs fs args)
      else case spec_more fs args no_props 0 of None \<Rightarrow> None
        | Some (c, rest, args1, props, nlong) \<Rightarrow>
            (case spec_conv strs c args1 props nlong of None \<Rightarrow> None
             | Some (tx, args2) \<Rightarrow> map_option (append tx) (spec_fmt strs rest args2)))"
  by pat_completeness auto
termination
  by (relation "measure (\<lambda>(strs, fs, args). length fs)") (auto dest!: spec_more_length)

declare spec_fmt.simps(2) [simp del]

section \<open>Parsing the format\<close>

lemma is_digit_10: "is_digit 10 d \<longleftrightarrow> 48 \<le> sint d \<and> sint d \<le> 57"
  by (auto simp: is_digit_def strtoll_digit_def Let_def)

lemma digit_val_10: "is_digit 10 d \<Longrightarrow> digit_val 10 d = sint d - 48"
  by (auto simp: is_digit_10 digit_val_def strtoll_digit_def Let_def)

lemma digit_run_correct:
  "cstring_at m f fs \<Longrightarrow> digit_run m f len = Inr (len + length (takeWhile (is_digit 10) fs))"
proof (induction fs arbitrary: f len)
  case Nil
  then show ?case by (simp add: digit_run.simps[of m f])
next
  case (Cons d fs)
  then show ?case by (auto simp: digit_run.simps[of m f] is_digit_10)
qed

lemma not_digit_hd: "dropWhile (is_digit 10) gs = [] \<or> \<not> is_digit 10 (hd (dropWhile (is_digit 10) gs))"
  by (induction gs) auto

lemma set_takeWhile_digits: "\<forall>d \<in> set (takeWhile (is_digit 10) gs). is_digit 10 d"
  using set_takeWhileD by fast

lemma fmtnum_correct:
  assumes "cstring_at m fmt fs" "spec_num fs = Some (n, rest)"
  shows "fmtnum m fmt = Inr (n, fmt + (length fs - length rest))" "cstring_at m (fmt + (length fs - length rest)) rest"
    "\<bar>n\<bar> < 2 ^ 31"
proof -
  define neg gs where "neg \<longleftrightarrow> fs \<noteq> [] \<and> hd fs = 45" and "gs = (if neg then tl fs else fs)"
  define ds where "ds = takeWhile (is_digit 10) gs"
  define v where "v = num_val 10 0 ds"
  have sp: "rest = dropWhile (is_digit 10) gs" "n = signed_val neg v" "v < 2 ^ 31"
    "neg \<or> ds \<noteq> [] \<or> rest = [] \<or> \<not> isspace (sint (hd rest)) \<and> hd rest \<noteq> 43"
    using assms(2) unfolding spec_num_def neg_def[symmetric] gs_def[symmetric] ds_def[symmetric] v_def[symmetric]
      Let_def by (auto split: if_splits)
  have fs: "fs = (if neg then [45] else []) @ ds @ rest"
    by (cases fs) (auto simp: neg_def gs_def ds_def sp(1))
  have v0: "0 \<le> v" using num_val_mono[OF set_takeWhile_digits, of 0 gs] by (simp add: v_def ds_def)
  have last: "neg \<or> ds \<noteq> [] \<or> rest = [] \<or> \<not> isspace (sint (hd rest)) \<and> hd rest \<noteq> 43 \<and> hd rest \<noteq> 45"
  proof (cases "neg \<or> ds \<noteq> [] \<or> rest = []")
    case False
    then have "fs = rest" using fs by simp
    then have "hd rest \<noteq> 45" using False neg_def by blast
    then show ?thesis using sp(4) False by blast
  qed blast
  have ds_ok: "\<forall>d \<in> set ds. is_digit 10 d" unfolding ds_def by (rule set_takeWhile_digits)
  have rest_ok: "rest = [] \<or> \<not> is_digit 10 (hd rest)" unfolding sp(1) by (rule not_digit_hd)
  have cs: "cstring_at m fmt ((if neg then [45] else []) @ ds @ rest)" using assms(1) fs by simp
  have "v < 2 ^ 63" using sp(3) by simp
  then have atol: "atol m fmt = Inr n"
    using atol_decimal[OF cs ds_ok rest_ok _ last] unfolding v_def[symmetric] sp(2) by blast
  show n: "\<bar>n\<bar> < 2 ^ 31" using sp(2,3) v0 by (simp add: signed_val_def)
  have run: "digit_run m (fmt + of_bool neg) k = Inr (k + length ds)" for k
  proof -
    have "takeWhile (is_digit 10) (ds @ rest) = ds" by (simp add: ds_def sp(1))
    moreover have "cstring_at m (fmt + of_bool neg) (ds @ rest)" using cs by (cases neg) auto
    ultimately show ?thesis using digit_run_correct[of m "fmt + of_bool neg" "ds @ rest" k] by simp
  qed
  have first: "fmt < length m" "m ! fmt = 45 \<longleftrightarrow> neg"
    using assms(1) cstring_at_bound[OF assms(1)] by (cases fs; auto simp: neg_def)+
  have len: "length fs - length rest = of_bool neg + length ds" by (subst fs) simp
  show "fmtnum m fmt = Inr (n, fmt + (length fs - length rest))"
    using first run[of 1] run[of 0] atol n len c_int_id[of n] unfolding fmtnum_def
    by (cases neg) (simp_all add: abs_less_iff)
  show "cstring_at m (fmt + (length fs - length rest)) rest"
    using cstring_at_drop[OF assms(1), of "length fs - length rest"] fs len by simp
qed

lemma skip_atoi_correct:
  assumes "cstring_at m s (ds @ rest)" "ds \<noteq> []" "\<forall>d \<in> set ds. is_digit 10 d" "rest = [] \<or> \<not> is_digit 10 (hd rest)"
    "0 \<le> i" "num_val 10 i ds < 2 ^ 31 - 48"
  shows "skip_atoi_loop m s i = Inr (num_val 10 i ds, s + length ds)"
  using assms
proof (induction ds arbitrary: s i)
  case step: (Cons d ds)
  let ?i = "i * 10 + digit_val 10 d"
  have d: "digit_val 10 d = sint d - 48" "0 \<le> digit_val 10 d"
    using digit_val_10[of d] digit_val_range(1)[of 10 d] step.prems(3) by auto
  have e: "i * 10 + sint d - 48 = ?i" using d(1) by simp
  have le: "?i \<le> num_val 10 ?i ds" using step.prems d(2) by (intro num_val_mono) auto
  then have ok: "int_ok (i * 10) \<and> int_ok (i * 10 + sint d)"
    using step.prems(5,6) d by (auto simp: int_ok_def INT_MAX_def)
  have b: "s + length (d # ds @ rest) < length m" using cstring_at_bound[of m s "d # ds @ rest"] step.prems(1) by simp
  show ?case
  proof (cases ds)
    case Nil
    have "\<not> isdigit (sint (m ! (s + 1)))"
      using step.prems(1,4) Nil by (cases rest) (auto simp: isdigit_def is_digit_10)
    then show ?thesis using step.prems(1) ok b d(1) Nil
      by (simp add: skip_atoi_loop.simps[of m s] Let_def)
  next
    case (Cons e es)
    have "isdigit (sint (m ! (s + 1)))"
      using step.prems(1,3) Cons by (auto simp: isdigit_def is_digit_10)
    then have "skip_atoi_loop m s i = skip_atoi_loop m (Suc s) (i * 10 + sint d - 48)"
      using step.prems(1) ok b by (simp add: skip_atoi_loop.simps[of m s] Let_def)
    also have "\<dots> = skip_atoi_loop m (Suc s) ?i" by (simp only: e)
    also have "\<dots> = Inr (num_val 10 ?i ds, Suc s + length ds)"
      using step.prems d(2) Cons by (intro step.IH) auto
    finally show ?thesis by simp
  qed
qed simp

lemma arg_int_bounds: "- (2 ^ 31) \<le> arg_int a" "arg_int a < 2 ^ 31"
  using sint_greater_eq[of "ucast a :: u32"] sint_lt[of "ucast a :: u32"] by (simp_all add: arg_int_def)

lemma get_int_correct:
  assumes "cstring_at m fmt fs" "spec_int fs args = Some (n, rest, as)"
  shows "get_int m fmt args = Inr (n, fmt + (length fs - length rest), as)"
    "cstring_at m (fmt + (length fs - length rest)) rest" "- 1 \<le> n \<and> n < 2 ^ 31"
proof -
  have first: "fmt < length m" "fs \<noteq> [] \<Longrightarrow> m ! fmt = hd fs" "fs = [] \<Longrightarrow> m ! fmt = 0"
    using assms(1) cstring_at_bound[OF assms(1)] by (cases fs; auto)+
  let ?ds = "takeWhile (is_digit 10) fs"
  consider (digits) "fs \<noteq> [] \<and> is_digit 10 (hd fs)" | (star) "\<not> (fs \<noteq> [] \<and> is_digit 10 (hd fs))" "fs \<noteq> [] \<and> hd fs = 42"
    | (none) "\<not> (fs \<noteq> [] \<and> is_digit 10 (hd fs))" "\<not> (fs \<noteq> [] \<and> hd fs = 42)" by blast
  then have "get_int m fmt args = Inr (n, fmt + (length fs - length rest), as) \<and>
    cstring_at m (fmt + (length fs - length rest)) rest \<and> - 1 \<le> n \<and> n < 2 ^ 31"
  proof cases
    case digits
    then have sp: "n = num_val 10 0 ?ds" "n < 2 ^ 31 - 48" "rest = dropWhile (is_digit 10) fs" "as = args"
      using assms(2) by (auto simp: spec_int_def Let_def split: if_splits)
    have ne: "?ds \<noteq> []" using digits by (cases fs) auto
    have fs: "?ds @ rest = fs" by (simp add: sp(3))
    have cs: "cstring_at m fmt (?ds @ rest)" using assms(1) fs by simp
    have "skip_atoi_loop m fmt 0 = Inr (n, fmt + length ?ds)"
      using skip_atoi_correct[OF cs ne set_takeWhile_digits, of 0] not_digit_hd[of fs] sp(1-3) by simp
    moreover have "length fs - length rest = length ?ds" using arg_cong[OF fs, of length] by simp
    moreover have "isdigit (sint (m ! fmt))" using digits first(2) by (simp add: is_digit_10 isdigit_def)
    moreover have "0 \<le> n" using num_val_mono[OF set_takeWhile_digits, of 0 fs] sp(1) by simp
    moreover have "cstring_at m (fmt + length ?ds) rest"
      using cstring_at_drop[OF cs, of "length ?ds"] by simp
    ultimately show ?thesis using first(1) sp(2,4) by (simp add: get_int_def skip_atoi_def)
  next
    case star
    then obtain a where sp: "args = a # as" "n = arg_int a" "- 1 \<le> n" "rest = tl fs"
      using assms(2) by (auto simp: spec_int_def split: list.splits if_splits)
    have "length fs - length rest = 1" using star sp(4) by (cases fs) auto
    moreover have "cstring_at m (fmt + 1) rest" using assms(1) star sp(4) by (cases fs) auto
    ultimately show ?thesis using first star sp arg_int_bounds[of a]
      by (simp add: get_int_def va_arg_def isdigit_def is_digit_10)
  next
    case none
    then have sp: "n = 0" "rest = fs" "as = args" using assms(2) by (auto simp: spec_int_def)
    have "\<not> isdigit (sint (m ! fmt))" "m ! fmt \<noteq> 42"
      using none first by (cases fs; auto simp: isdigit_def is_digit_10)+
    then show ?thesis using first(1) sp assms(1) by (simp add: get_int_def)
  qed
  then show "get_int m fmt args = Inr (n, fmt + (length fs - length rest), as)"
    "cstring_at m (fmt + (length fs - length rest)) rest" "- 1 \<le> n \<and> n < 2 ^ 31" by auto
qed

text \<open>Where the code continues after a conversion: at the terminator when the format has ended.\<close>

definition after_conv :: "u8 \<Rightarrow> nat \<Rightarrow> nat" where
  "after_conv c fmt = (if c = 0 then fmt - 1 else fmt)"

lemma morefmt_correct:
  assumes "spec_more fs args props nlong = Some (c, rest, args', props', nlong')" "cstring_at m fmt fs" "props_ok props"
  shows "\<exists>fmt'. morefmt m fmt args props nlong = Inr (c, fmt', args', props', nlong') \<and>
    cstring_at m (after_conv c fmt') rest \<and> props_ok props' \<and> after_conv c fmt' = fmt + (length fs - length rest)"
  using assms
proof (induction fs args props nlong arbitrary: fmt rule: spec_more.induct)
  case (1 args props nlong)
  then show ?case by (auto simp: morefmt.simps[of m fmt] after_conv_def)
next
  case (2 f fs args props nlong)
  note sp = "2.prems"(1)[unfolded spec_more.simps(2)]
  have get: "arr_get m fmt = Inr f" and f0: "f \<noteq> 0" and cs: "cstring_at m (Suc fmt) fs" using "2.prems"(2) by auto
  note run = morefmt.simps[of m fmt args props nlong, unfolded get bind_res_Inr]
  note ok = "2.prems"(3)[unfolded props_ok_def]
  note le = spec_more_length
  consider (dot) "f = 46" | (hash) "f = 35" | (zero) "f = 48"
    | (num) "f \<noteq> 46" "f \<noteq> 35" "f \<noteq> 48" "is_digit 10 f \<or> f = 45"
    | (rest) "f \<noteq> 46" "f \<noteq> 35" "f \<noteq> 48" "\<not> (is_digit 10 f \<or> f = 45)" by blast
  then show ?case
  proof cases
    case dot
    then obtain i r as where s: "spec_int fs args = Some (i, r, as)"
      "spec_more r as (props\<lparr>pad := 32, precision := i\<rparr>) nlong = Some (c, rest, args', props', nlong')"
      using sp by (auto split: option.splits)
    note g = get_int_correct[OF cs s(1)]
    have "props_ok (props\<lparr>pad := 32, precision := i\<rparr>)" using ok g(3) by (simp add: props_ok_def)
    from 2(1)[OF dot s(1) refl refl s(2) g(2) this] show ?thesis
      using dot run g(1) le[OF s(2)] spec_int_length[OF s(1)] by auto
  next
    case hash
    then have s: "spec_more fs args (props\<lparr>alternate := True\<rparr>) nlong = Some (c, rest, args', props', nlong')"
      using sp by auto
    have "props_ok (props\<lparr>alternate := True\<rparr>)" using ok by (simp add: props_ok_def)
    from 2(2)[OF _ hash s cs this] show ?thesis using hash run le[OF s] by (auto simp: Suc_diff_le)
  next
    case zero
    then obtain n r where s: "spec_num fs = Some (n, r)"
      "spec_more r args (props\<lparr>pad := 48, npad := n\<rparr>) nlong = Some (c, rest, args', props', nlong')"
      using sp by (auto split: option.splits)
    note g = fmtnum_correct[OF cs s(1)]
    have "props_ok (props\<lparr>pad := 48, npad := n\<rparr>)" using ok g(3) by (simp add: props_ok_def)
    from 2(3)[OF _ _ zero s(1) refl s(2) g(2) this] show ?thesis
      using zero run g(1) le[OF s(2)] spec_num_length[OF s(1)] by auto
  next
    case num
    then obtain n r where s: "spec_num (f # fs) = Some (n, r)" "length r < length (f # fs)"
      "spec_more r args (props\<lparr>npad := n\<rparr>) nlong = Some (c, rest, args', props', nlong')"
      using sp by (auto split: option.splits if_splits)
    note g = fmtnum_correct[OF "2.prems"(2) s(1)]
    have "props_ok (props\<lparr>npad := n\<rparr>)" using ok g(3) by (simp add: props_ok_def)
    moreover have "sint f \<noteq> 48" using num(3) signed_word_eqI[of f 48] by auto
    then have "(49 \<le> sint f \<and> sint f \<le> 57) \<or> f = 45" using num(4) by (auto simp: is_digit_10)
    ultimately show ?thesis using 2(4)[OF num(1-4) s(1) refl s(2,3) g(2)] num run g(1) le[OF s(3)] s(2) by auto
  next
    case rest
    then have nd: "\<not> ((49 \<le> sint f \<and> sint f \<le> 57) \<or> f = 45)" by (auto simp: is_digit_10)
    consider "f = 108" | "f = 116 \<or> f = 122" | "f \<noteq> 108" "f \<noteq> 116" "f \<noteq> 122" by blast
    then show ?thesis
    proof cases
      case 1
      then have s: "spec_more fs args props (nlong + 1) = Some (c, rest, args', props', nlong')" using sp rest by auto
      from 2(5)[OF rest(1-4) 1 s cs "2.prems"(3)] show ?thesis using 1 run nd le[OF s] by (auto simp: Suc_diff_le)
    next
      case two: 2
      then have s: "spec_more fs args props 1 = Some (c, rest, args', props', nlong')" using sp rest by auto
      from 2(6)[OF rest(1-4) _ two s cs "2.prems"(3)] show ?thesis using two run nd le[OF s] by (auto simp: Suc_diff_le)
    next
      case 3
      then show ?thesis using sp rest run nd f0 cs "2.prems"(3) by (auto simp: after_conv_def)
    qed
  qed
qed

section \<open>The refinement\<close>

text \<open>The strings \<open>strs\<close> names are stored in \<open>m0\<close>, clear of the \<open>cap + 1\<close> bytes of the buffer.\<close>

definition strs_at :: "mem \<Rightarrow> nat \<Rightarrow> nat \<Rightarrow> (nat \<Rightarrow> u8 list option) \<Rightarrow> bool" where
  "strs_at m0 buf cap strs \<longleftrightarrow>
     (\<forall>a str. strs a = Some str \<longrightarrow>
       cstring_at m0 a str \<and> (a + length str < buf \<or> buf + cap < a) \<and> length str < 2 ^ 31 - 1)"

lemma convert_appends:
  assumes "spec_conv strs c args props nlong = Some (tx, args')" "strs_at m0 buf cap strs" "props_ok props"
    "stream_at m0 buf cap out (m, p)" "int (length (out @ tx)) \<le> INT_MAX"
  shows "\<exists>m' p'. convert m p c fmt args props nlong = Inr (m', p', after_conv c fmt, args') \<and>
    stream_at m0 buf cap (out @ tx) (m', p')"
proof -
  note sp = assms(1)[unfolded spec_conv_def]
  have fin: ?thesis
    if "\<And>m p. convert m p c fmt args props nlong = bind_res (act m p) (\<lambda>(m', p'). Inr (m', p', fmt, args'))"
      "appends m0 buf cap act tx" "c \<noteq> 0" for act
    by (rule appendsE[OF that(2) assms(4,5)]) (use that(1,3) in \<open>simp add: after_conv_def\<close>)
  show ?thesis
  proof (cases "c = 0 \<or> c \<notin> {99, 100, 117, 120, 112, 115}")
    case True
    then show ?thesis
    proof (cases "c = 0")
      case z: True
      then show ?thesis using sp assms(4) by (simp add: convert_def after_conv_def)
    next
      case False
      then have t: "tx = [c]" "args' = args" using sp True by auto
      show ?thesis
        by (rule fin[of "\<lambda>m p. addchar m p c"])
          (use True False t addchar_appends in \<open>auto simp: convert_def Let_def\<close>)
    qed
  next
    case conv: False
    then obtain a where a: "args = a # args'" using sp by (auto split: list.splits if_splits option.splits simp: Let_def)
    have va: "va_arg args = Inr (a, args')" by (simp add: a va_arg_def)
    note sp' = sp[unfolded a list.case]
    have p24: "precision props \<le> 24" if "c \<noteq> 99" "c \<noteq> 115" using sp' conv that by (auto split: if_splits)
    consider "c = 99" | "c = 115" | "c = 100" | "c = 117" | "c = 120" | "c = 112" using conv by auto
    then show ?thesis
    proof cases
      case 1
      then show ?thesis using sp' addchar_appends
        by (intro fin[of "\<lambda>m p. addchar m p (ucast a)"]) (auto simp: convert_def Let_def va)
    next
      case 2
      then obtain str where str: "strs (unat a) = Some str" "tx = pad_str props str" "nlong = 0"
        using sp' by (auto split: option.splits if_splits)
      then have "cstring_at m0 (unat a) str" "unat a + length str < buf \<or> buf + cap < unat a" "length str < 2 ^ 31 - 1"
        using assms(2) unfolding strs_at_def by blast+
      from print_str_appends[OF this(1,2) assms(3) this(3)] 2 str(2,3) show ?thesis
        by (intro fin[of "\<lambda>m p. print_str m p (unat a) props"]) (auto simp: convert_def Let_def va)
    next
      case 3
      let ?n = "arg_signed nlong a"
      have n: "?n \<noteq> - (2 ^ 63)" "tx = pad_str (props\<lparr>precision := -1\<rparr>) (int_text 10 (precision props) ?n)"
        using sp' 3 by (auto simp: Let_def split: if_splits)
      have "\<bar>?n\<bar> < 2 ^ 63"
        using n(1) arg_int_bounds[of a] sint_greater_eq[of a] sint_lt[of a] by (auto simp: arg_signed_def)
      from print_int_appends[OF this _ assms(3) p24, of 10] 3 n(2) show ?thesis
        by (intro fin[of "\<lambda>m p. print_int m p ?n 10 props"]) (auto simp: convert_def Let_def va)
    next
      case 4
      with sp' print_unsigned_appends[OF _ assms(3) p24, of 10] show ?thesis
        by (intro fin[of "\<lambda>m p. print_unsigned m p (arg_unsigned nlong a) 10 props"])
          (auto simp: convert_def Let_def va split: if_splits)
    next
      case 5
      with sp' print_unsigned_appends[OF _ assms(3) p24, of 16] show ?thesis
        by (intro fin[of "\<lambda>m p. print_unsigned m p (arg_unsigned nlong a) 16 props"])
          (auto simp: convert_def Let_def va split: if_splits)
    next
      case 6
      have "props_ok (props\<lparr>alternate := True\<rparr>)" using assms(3) by (simp add: props_ok_def)
      with 6 sp' print_unsigned_appends[of 16 "props\<lparr>alternate := True\<rparr>"] p24 show ?thesis
        by (intro fin[of "\<lambda>m p. print_unsigned m p a 16 (props\<lparr>alternate := True\<rparr>)"])
          (auto simp: convert_def Let_def va split: if_splits)
    qed
  qed
qed

lemma no_props_ok: "props_ok no_props"
  by (simp add: props_ok_def no_props_def)

lemma vsnprintf_loop_correct:
  assumes "spec_fmt strs fs args = Some tx" "cstring_at m0 fmt fs" "fmt + length fs < buf \<or> buf + cap < fmt"
    "strs_at m0 buf cap strs" "stream_at m0 buf cap out (m, p)" "int (length (out @ tx)) \<le> INT_MAX"
  shows "\<exists>s'. vsnprintf_loop m p fmt args = Inr s' \<and> stream_at m0 buf cap (out @ tx) s'"
  using assms
proof (induction strs fs args arbitrary: fmt out m p tx rule: spec_fmt.induct)
  case (1 strs args)
  then have "cstring_at m fmt []" using stream_cstring by blast
  then show ?case using 1 by (simp add: vsnprintf_loop.simps[of m p])
next
  case (2 strs f fs args)
  note sp = "2.prems"(1)[unfolded spec_fmt.simps(2)]
  have cs: "cstring_at m fmt (f # fs)" using stream_cstring[OF "2.prems"(5,2,3)] .
  show ?case
  proof (cases "f = 37")
    case False
    then obtain t where t: "spec_fmt strs fs args = Some t" "tx = f # t" using sp by auto
    obtain m1 p1 where 1: "addchar m p f = Inr (m1, p1)" "stream_at m0 buf cap (out @ [f]) (m1, p1)"
      by (rule appendsE[OF addchar_appends[of m0 buf cap f] "2.prems"(5)]) (use "2.prems"(6) t in auto)
    have "\<exists>s'. vsnprintf_loop m1 p1 (Suc fmt) args = Inr s' \<and> stream_at m0 buf cap ((out @ [f]) @ t) s'"
      using "2.prems" t by (intro 2(1)[OF _ t(1) _ _ _ 1(2)]) (auto simp: False)
    then show ?thesis using cs False 1(1) t(2) by (auto simp: vsnprintf_loop.simps[of m p])
  next
    case True
    then obtain c rest args1 props nlong t1 args2 t2 where
      s: "spec_more fs args no_props 0 = Some (c, rest, args1, props, nlong)"
      "spec_conv strs c args1 props nlong = Some (t1, args2)" "spec_fmt strs rest args2 = Some t2" "tx = t1 @ t2"
      using sp by (auto split: option.splits prod.splits)
    have csm: "cstring_at m (Suc fmt) fs" and csm0: "cstring_at m0 (Suc fmt) fs" using cs "2.prems"(2) by auto
    obtain fmt1 where f1: "morefmt m (Suc fmt) args no_props 0 = Inr (c, fmt1, args1, props, nlong)" "props_ok props"
      "after_conv c fmt1 = Suc fmt + (length fs - length rest)"
      using morefmt_correct[OF s(1) csm no_props_ok] by blast
    have f2: "cstring_at m0 (after_conv c fmt1) rest"
      using morefmt_correct[OF s(1) csm0 no_props_ok] f1(3) by auto
    obtain m1 p1 where 1: "convert m p c fmt1 args1 props nlong = Inr (m1, p1, after_conv c fmt1, args2)"
      "stream_at m0 buf cap (out @ t1) (m1, p1)"
      using convert_appends[OF s(2) "2.prems"(4) f1(2) "2.prems"(5), where fmt = fmt1] "2.prems"(6) s(4) by auto
    have "\<exists>s'. vsnprintf_loop m1 p1 (after_conv c fmt1) args2 = Inr s' \<and> stream_at m0 buf cap ((out @ t1) @ t2) s'"
      using "2.prems"(3,4,6) f1(3) spec_more_length[OF s(1)] s(4)
      by (intro 2(2)[OF _ s(1) refl refl refl refl s(2) refl s(3) f2 _ _ 1(2)]) (auto simp: True)
    then show ?thesis using cs True f1(1) 1(1) s(4) by (auto simp: vsnprintf_loop.simps[of m p])
  qed
qed

section \<open>Properties\<close>

text \<open>
  C22: \<open>vsnprintf\<close> refines the abstract formatter: it returns the length of the whole text,
  leaves in the buffer as much of it as fits and a terminator, and changes no other byte.
\<close>

theorem vsnprintf_refines:
  assumes "0 < sz" "int sz \<le> INT_MAX" "buf + sz \<le> length m"
    "cstring_at m fmt fs" "fmt + length fs < buf \<or> buf + sz \<le> fmt" "strs_at m buf (sz - 1) strs"
    "spec_fmt strs fs args = Some tx" "int (length tx) \<le> INT_MAX"
  shows "vsnprintf m buf (int sz) fmt args = Inr (int (length tx), put_at m buf (take (sz - 1) tx @ [0]))"
proof -
  let ?p = "\<lparr>buffer = buf, remain = int sz - 1, added = 0\<rparr>"
  have s: "stream_at m buf (sz - 1) [] (m, ?p)"
    using assms(1-3) by (auto simp: stream_at_def put_at_def INT_MAX_def)
  have "fmt + length fs < buf \<or> buf + (sz - 1) < fmt" using assms(1,5) by auto
  from vsnprintf_loop_correct[OF assms(7,4) this assms(6) s] assms(8)
  obtain m' p' where r: "vsnprintf_loop m ?p fmt args = Inr (m', p')" "stream_at m buf (sz - 1) tx (m', p')" by auto
  have "buf + length (take (sz - 1) tx) < length m" using assms(1,3) by auto
  from put_at_snoc[OF this, of 0] have "arr_set m' (buffer p') 0 = Inr (put_at m buf (take (sz - 1) tx @ [0]))"
    using r(2) stream_length[OF r(2)] assms(1,3) by (auto simp: stream_at_def arr_set_def min.commute)
  moreover have "added p' = int (length tx)" using r(2) by (simp add: stream_at_def)
  ultimately show ?thesis using assms(1,2) r(1) by (simp add: vsnprintf_def int_ok_def INT_MAX_def)
qed

text \<open>The memory of the examples: six bytes for the buffer, then \<open>"n=%d%s"\<close> and \<open>"ab"\<close>.\<close>

definition fmt_mem :: mem where
  "fmt_mem = replicate 6 1 @ [110, 61, 37, 100, 37, 115, 0] @ [97, 98, 0]"

definition fmt_strs :: "nat \<Rightarrow> u8 list option" where
  "fmt_strs a = (if a = 13 then Some [97, 98] else None)"

lemma fmt_strs_at: "strs_at fmt_mem 0 5 fmt_strs"
  by (auto simp: strs_at_def fmt_strs_def fmt_mem_def nth_append nth_Cons')

theorem vsnprintf_refines_witness:
  "vsnprintf fmt_mem 0 6 6 [- 42, 13] = Inr (7, [110, 61, 45, 52, 50, 0] @ drop 6 fmt_mem)"
proof -
  have sp: "spec_fmt fmt_strs [110, 61, 37, 100, 37, 115] [- 42, 13] = Some [110, 61, 45, 52, 50, 97, 98]"
    by (simp add: spec_fmt.simps(2) spec_more.simps(2) is_digit_10 spec_conv_def no_props_def arg_signed_def arg_int_def
        int_text_def zeros_def digs.simps digits_def pad_str_def cut_def fmt_strs_def)
  have "cstring_at fmt_mem 6 [110, 61, 37, 100, 37, 115]" by (simp add: fmt_mem_def nth_append nth_Cons')
  from vsnprintf_refines[OF _ _ _ this _ _ sp, of 6 0] fmt_strs_at show ?thesis
    by (simp add: INT_MAX_def fmt_mem_def put_at_def)
qed

text \<open>The digits of a number read back.\<close>

lemma digits_10: "i < 10 \<Longrightarrow> is_digit 10 (digits ! i) \<and> digit_val 10 (digits ! i) = int i"
proof -
  assume "i < 10"
  then have "i \<in> {0, 1, 2, 3, 4, 5, 6, 7, 8, 9}" by auto
  then show ?thesis by (auto simp: digits_def is_digit_10 digit_val_def strtoll_digit_def)
qed

lemma num_val_digs: "(\<forall>d \<in> set (digs 10 n). is_digit 10 d) \<and> num_val 10 0 (rev (digs 10 n)) = int n"
proof (induction "10::nat" n rule: digs.induct)
  case (1 n)
  show ?case
  proof (cases "n = 0")
    case False
    then have "digs 10 n = digits ! (n mod 10) # digs 10 (n div 10)" by (simp add: digs.simps[of 10 n])
    moreover have "int (n div 10) * 10 + int (n mod 10) = int n" by presburger
    ultimately show ?thesis using 1 False digits_10[of "n mod 10"] by (simp add: num_val_append)
  qed (simp add: digs.simps)
qed

lemma num_val_zeros: "num_val 10 0 (replicate k 48 @ ds) = num_val 10 0 ds"
  by (induction k) (simp_all add: digit_val_10 is_digit_10)

lemma put_at_cstring:
  assumes "buf + length tx < length m" "0 \<notin> set tx"
  shows "cstring_at (put_at m buf (tx @ [0])) buf tx"
  using assms by (intro cstring_atI) (auto simp: nth_put_at nth_append)

text \<open>
  C23: a number printed with \<open>%ld\<close> into a buffer of at least 21 bytes and read back with
  \<open>strtol\<close> in base 10 is the number.
\<close>

theorem print_strtol_roundtrip:
  assumes "sint a \<noteq> - (2 ^ 63)" "21 \<le> sz" "int sz \<le> INT_MAX" "buf + sz \<le> length m"
    "cstring_at m fmt [37, 108, 100]" "fmt + 3 < buf \<or> buf + sz \<le> fmt"
  shows "\<exists>n m'. vsnprintf m buf (int sz) fmt [a] = Inr (int n, m') \<and> strtol m' buf 10 = Inr (sint a, buf + n)"
proof -
  let ?d = "digs 10 (nat \<bar>sint a\<bar>)" and ?neg = "sint a < 0"
  define zs where "zs = replicate (zeros (-1) (length ?d)) (48 :: u8)"
  define tx where "tx = (if ?neg then [45] else []) @ (zs @ rev ?d) @ []"
  have r: "\<bar>sint a\<bar> < 2 ^ 63" using assms(1) sint_greater_eq[of a] sint_lt[of a] by auto
  then have "length ?d \<le> 19" by (intro digs_length) auto
  then have len: "length tx \<le> 20" by (auto simp: tx_def zs_def zeros_def)
  have sp: "spec_fmt (\<lambda>_. None) [37, 108, 100] [a] = Some tx"
    using assms(1) by (simp add: spec_fmt.simps(2) spec_more.simps(2) is_digit_10 spec_conv_def no_props_def arg_signed_def
        pad_str_def cut_def int_text_def Let_def tx_def zs_def)
  have dj: "fmt + length [37 :: u8, 108, 100] < buf \<or> buf + sz \<le> fmt" using assms(6) by auto
  have out: "vsnprintf m buf (int sz) fmt [a] = Inr (int (length tx), put_at m buf (tx @ [0]))"
    using vsnprintf_refines[OF _ assms(3,4,5) dj _ sp] assms(2) len by (simp add: strs_at_def INT_MAX_def)
  note dig = num_val_digs[of "nat \<bar>sint a\<bar>"]
  have d: "\<forall>d \<in> set (zs @ rev ?d). is_digit 10 d" using dig by (auto simp: zs_def is_digit_10)
  have "\<not> is_digit 10 0" by (simp add: is_digit_10)
  then have nz: "0 \<notin> set tx" using d by (auto simp: tx_def)
  have lt: "buf + length tx < length m" using len assms(2,4) by linarith
  define m' where "m' = put_at m buf (tx @ [0])"
  have cs: "cstring_at m' buf ((if ?neg then [45] else []) @ (zs @ rev ?d) @ [])"
    using put_at_cstring[OF lt nz] unfolding m'_def[symmetric] by (simp only: tx_def)
  have v: "num_val 10 0 (zs @ rev ?d) = \<bar>sint a\<bar>" using dig by (simp add: num_val_zeros zs_def)
  have "zs @ rev ?d \<noteq> []" by (auto simp: zs_def zeros_def)
  then have "strtol m' buf 10 = Inr (signed_val ?neg (num_val 10 0 (zs @ rev ?d)), buf + of_bool ?neg + length (zs @ rev ?d))"
    by (intro strtol_decimal[OF cs d]) (use v r in auto)
  moreover have "signed_val ?neg \<bar>sint a\<bar> = sint a" by (simp add: signed_val_def)
  moreover have "buf + of_bool ?neg + length (zs @ rev ?d) = buf + length tx" by (simp add: tx_def)
  ultimately have "strtol m' buf 10 = Inr (sint a, buf + length tx)" by (simp only: v)
  then show ?thesis using out unfolding m'_def by blast
qed

theorem print_strtol_roundtrip_witness:
  "\<exists>n m'. vsnprintf (replicate 21 1 @ [37, 108, 100, 0]) 0 21 21 [- 120] = Inr (int n, m') \<and>
     strtol m' 0 10 = Inr (- 120, n)"
  using print_strtol_roundtrip[of "- 120" 21 0 "replicate 21 1 @ [37, 108, 100, 0]" 21]
  by (simp add: INT_MAX_def nth_append nth_Cons')

lemma put_zeros_fault: "int (length buf) < prec \<Longrightarrow> i \<le> length buf \<Longrightarrow> put_zeros buf i prec = Inl Fault"
proof (induction buf i prec rule: put_zeros.induct)
  case (1 buf i prec)
  have go: "i = 0 \<or> int i < prec" using "1.prems" by auto
  show ?case
  proof (cases "i < length buf")
    case True
    then show ?thesis using "1.IH"[OF go, of "buf[i := 48]"] go "1.prems" by (simp add: put_zeros.simps[of buf i])
  next
    case False
    then show ?thesis using go by (simp add: put_zeros.simps[of buf i] arr_set_def)
  qed
qed

text \<open>
  C33: the precision of a numeric conversion is not limited to the 26 bytes the digits are built
  in: from 27 on \<open>print_int\<close> writes behind the array, whatever the number and the buffer.
\<close>

theorem precision_overruns_array:
  assumes "\<bar>n\<bar> < 2 ^ 63" "base = 10 \<or> base = 16" "26 < precision props"
  shows "print_int m p n base props = Inl Fault"
proof -
  let ?d = "digs base (nat \<bar>n\<bar>)"
  have "nat \<bar>n\<bar> < 2 ^ 64" using assms(1) by simp
  then have l: "length ?d \<le> 26" using digs_length_64[OF _ assms(2)] by force
  have "base \<le> 16" using assms(2) by auto
  then have "put_digits (replicate 26 0) 0 (nat \<bar>n\<bar>) base = Inr (?d @ replicate (26 - length ?d) 0, length ?d)"
    using put_digits_correct[of base "nat \<bar>n\<bar>" "replicate 26 0" "[]"] l by simp
  moreover have "put_zeros (?d @ replicate (26 - length ?d) 0) (length ?d) (precision props) = Inl Fault"
    using l assms(3) by (intro put_zeros_fault) auto
  moreover have "n \<noteq> - (2 ^ 63)" using assms(1) by auto
  ultimately show ?thesis by (simp add: print_int_def)
qed

theorem precision_overruns_array_witness:
  "print_int (replicate 64 1) \<lparr>buffer = 0, remain = 63, added = 0\<rparr> 5 10 (no_props\<lparr>precision := 30\<rparr>) = Inl Fault"
  by (rule precision_overruns_array) (simp_all add: no_props_def)

lemma unat_minus_1: "unat (- 1 :: u64) = 18446744073709551615"
  by (simp add: unsigned_minus_1_eq_mask mask_eq_exp_minus_1)

lemmas wide_eval = unat_minus_1 vsnprintf_def vsnprintf_loop.simps morefmt.simps convert_def no_props_def va_arg_def
  print_wstring_def utf16s_utf8nlen_def utf8nlen_loop.simps load16_def wstring_loop.simps utf16_to_utf32_def
  addchar_def put_wchar_def trailing_octets_def ptr_set_def ptr_get_def int_ok_def INT_MAX_def
  Let_def word_le_nat_alt word_less_nat_alt


end
