(* ===== verification/Memregions.thy ===== *)
theory Memregions
  imports Prelude
begin

text \<open>
  \<open>lib/memregions.c\<close>: the table of physical memory regions, an array whose first entry with a
  zero \<open>end\<close> terminates it. A pointer to a region is its index. The device tree and the EFI
  memory map it is filled from are arguments.
\<close>

section \<open>The table\<close>

record mem_region =
  mr_start :: u64
  mr_end :: u64
  mr_flags :: u32

record memregions =
  mem_regions :: "mem_region list"
  mr_nr :: nat

definition NR_INITIAL_MEM_REGIONS :: nat where "NR_INITIAL_MEM_REGIONS = 8"

definition MR_F_IO :: u32 where "MR_F_IO = push_bit 0 1"
definition MR_F_CODE :: u32 where "MR_F_CODE = push_bit 1 1"
definition MR_F_RESERVED :: u32 where "MR_F_RESERVED = push_bit 2 1"
definition MR_F_PERSISTENT :: u32 where "MR_F_PERSISTENT = push_bit 3 1"
definition MR_F_UNKNOWN :: u32 where "MR_F_UNKNOWN = push_bit 31 1"

definition no_region :: mem_region where
  "no_region = \<lparr>mr_start = 0, mr_end = 0, mr_flags = 0\<rparr>"

definition initial_mem_regions :: memregions where
  "initial_mem_regions =
     \<lparr>mem_regions = replicate (NR_INITIAL_MEM_REGIONS + 1) no_region, mr_nr = NR_INITIAL_MEM_REGIONS\<rparr>"

definition memregions_init :: "mem_region list \<Rightarrow> nat \<Rightarrow> memregions" where
  "memregions_init regions nr = \<lparr>mem_regions = regions, mr_nr = nr\<rparr>"

text \<open>\<open>for (; r_next->end; ++r_next, ++i)\<close>, from index \<open>i\<close> on.\<close>

function mr_end_loop :: "mem_region list \<Rightarrow> nat \<Rightarrow> nat res" where
  "mr_end_loop rs i =
     bind_res (arr_get rs i) (\<lambda>r. if mr_end r \<noteq> 0 then mr_end_loop rs (i + 1) else Inr i)"
  by pat_completeness auto
termination
  by (relation "measure (\<lambda>(rs, i). length rs - i)") (auto simp: arr_get_eq_Inr)

declare mr_end_loop.simps [simp del]

definition memregions_add :: "memregions \<Rightarrow> mem_region \<Rightarrow> (nat \<times> memregions) res" where
  "memregions_add s r =
     bind_res (mr_end_loop (mem_regions s) 0) (\<lambda>i.
     require (i < mr_nr s)
       (bind_res (arr_set (mem_regions s) i r) (\<lambda>rs. Inr (i, s\<lparr>mem_regions := rs\<rparr>))))"

function mr_find_loop :: "mem_region list \<Rightarrow> nat \<Rightarrow> u64 \<Rightarrow> nat option res" where
  "mr_find_loop rs i paddr =
     bind_res (arr_get rs i) (\<lambda>r.
       if mr_end r = 0 then Inr None
       else if paddr \<ge> mr_start r \<and> paddr < mr_end r then Inr (Some i)
       else mr_find_loop rs (i + 1) paddr)"
  by pat_completeness auto
termination
  by (relation "measure (\<lambda>(rs, i, paddr). length rs - i)") (auto simp: arr_get_eq_Inr)

declare mr_find_loop.simps [simp del]

definition memregions_find :: "memregions \<Rightarrow> u64 \<Rightarrow> nat option res" where
  "memregions_find s paddr = mr_find_loop (mem_regions s) 0 paddr"

definition memregions_get_flags :: "memregions \<Rightarrow> u64 \<Rightarrow> u32 res" where
  "memregions_get_flags s paddr =
     bind_res (memregions_find s paddr) (\<lambda>r. case r of
       None \<Rightarrow> Inr MR_F_UNKNOWN
     | Some i \<Rightarrow> bind_res (arr_get (mem_regions s) i) (\<lambda>r. Inr (mr_flags r)))"

text \<open>The two pointers it stores; a null pointer is \<open>None\<close>.\<close>

definition memregions_split :: "memregions \<Rightarrow> u64 \<Rightarrow> (nat option \<times> nat \<times> memregions) res" where
  "memregions_split s addr =
     bind_res (memregions_find s addr) (\<lambda>f. case f of
       None \<Rightarrow> Inl AssertFail
     | Some r1 \<Rightarrow>
         bind_res (arr_get (mem_regions s) r1) (\<lambda>r.
           if mr_start r = addr then Inr (None, r1, s)
           else
             bind_res (memregions_add s \<lparr>mr_start = addr, mr_end = mr_end r, mr_flags = mr_flags r\<rparr>) (\<lambda>(r2, s').
             bind_res (arr_get (mem_regions s') r1) (\<lambda>r'.
             bind_res (arr_set (mem_regions s') r1 (r'\<lparr>mr_end := addr\<rparr>)) (\<lambda>rs.
               Inr (Some r1, r2, s'\<lparr>mem_regions := rs\<rparr>))))))"

section \<open>Filling the table\<close>

fun mr_add_all :: "memregions \<Rightarrow> mem_region list \<Rightarrow> memregions res" where
  "mr_add_all s [] = Inr s"
| "mr_add_all s (r # rs) = bind_res (memregions_add s r) (\<lambda>(i, s'). mr_add_all s' rs)"

text \<open>
  \<open>regs\<close> is what \<open>dt_get_memory_params\<close> stores of the device tree, as pairs of address and size;
  \<open>nr_regs\<close> is its result.
\<close>

definition memregions_add_dt_regions :: "memregions \<Rightarrow> (u64 \<times> u64) list \<Rightarrow> int \<Rightarrow> memregions res" where
  "memregions_add_dt_regions s regs nr_regs =
     require (nr_regs > 0)
       (mr_add_all s (map (\<lambda>(addr, size). \<lparr>mr_start = addr, mr_end = addr + size, mr_flags = 0\<rparr>)
          (take (nat nr_regs) regs)))"

record efi_memory_desc =
  efi_type :: u32
  phys_addr :: u64
  num_pages :: u64

definition EFI_LOADER_CODE :: u32 where "EFI_LOADER_CODE = 1"
definition EFI_LOADER_DATA :: u32 where "EFI_LOADER_DATA = 2"
definition EFI_CONVENTIONAL_MEMORY :: u32 where "EFI_CONVENTIONAL_MEMORY = 7"
definition EFI_ACPI_RECLAIM_MEMORY :: u32 where "EFI_ACPI_RECLAIM_MEMORY = 9"
definition EFI_MEMORY_MAPPED_IO :: u32 where "EFI_MEMORY_MAPPED_IO = 11"
definition EFI_MEMORY_MAPPED_IO_PORT_SPACE :: u32 where "EFI_MEMORY_MAPPED_IO_PORT_SPACE = 12"
definition EFI_PERSISTENT_MEMORY :: u32 where "EFI_PERSISTENT_MEMORY = 14"
definition EFI_PAGE_SIZE :: u64 where "EFI_PAGE_SIZE = push_bit 12 1"

text \<open>The flags the \<open>switch\<close> on the descriptor type gives a region.\<close>

definition efi_region_flags :: "u32 \<Rightarrow> u32" where
  "efi_region_flags ty =
     (if ty = EFI_MEMORY_MAPPED_IO \<or> ty = EFI_MEMORY_MAPPED_IO_PORT_SPACE then MR_F_IO
      else if ty = EFI_LOADER_CODE then MR_F_CODE
      else if ty = EFI_LOADER_DATA \<or> ty = EFI_ACPI_RECLAIM_MEMORY then 0
      else if ty = EFI_PERSISTENT_MEMORY then MR_F_PERSISTENT
      else if ty = EFI_CONVENTIONAL_MEMORY then 0
      else MR_F_RESERVED)"

definition efi_region :: "efi_memory_desc \<Rightarrow> mem_region" where
  "efi_region d =
     \<lparr>mr_start = phys_addr d, mr_end = phys_addr d + num_pages d * EFI_PAGE_SIZE,
      mr_flags = efi_region_flags (efi_type d)\<rparr>"

text \<open>
  The loop over the descriptors of the map: \<open>freemem\<close> is the index stored through that pointer,
  \<open>freemem_pages\<close> the size of the largest conventional region so far.
\<close>

fun efi_init_loop :: "memregions \<Rightarrow> nat option \<Rightarrow> u64 \<Rightarrow> efi_memory_desc list \<Rightarrow> (nat option \<times> memregions) res" where
  "efi_init_loop s freemem freemem_pages [] = Inr (freemem, s)"
| "efi_init_loop s freemem freemem_pages (d # ds) =
     bind_res (memregions_add s (efi_region d)) (\<lambda>(i, s').
       if efi_type d = EFI_CONVENTIONAL_MEMORY \<and> freemem_pages < num_pages d
       then efi_init_loop s' (Some i) (num_pages d) ds
       else efi_init_loop s' freemem freemem_pages ds)"

definition memregions_efi_init :: "memregions \<Rightarrow> efi_memory_desc list \<Rightarrow> (nat option \<times> memregions) res" where
  "memregions_efi_init s mem_map = efi_init_loop s None 0 mem_map"

section \<open>The regions in use\<close>

definition used :: "memregions \<Rightarrow> mem_region list" where
  "used s = takeWhile (\<lambda>r. mr_end r \<noteq> 0) (mem_regions s)"

definition in_region :: "u64 \<Rightarrow> mem_region \<Rightarrow> bool" where
  "in_region p r \<longleftrightarrow> mr_start r \<le> p \<and> p < mr_end r"

definition apart :: "mem_region \<Rightarrow> mem_region \<Rightarrow> bool" where
  "apart r r' \<longleftrightarrow> (\<forall>p. \<not> (in_region p r \<and> in_region p r'))"

text \<open>
  The array holds the used regions and then only zero entries, one more than may be added; the
  regions do not overlap.
\<close>

definition mr_table :: "memregions \<Rightarrow> bool" where
  "mr_table s \<longleftrightarrow>
     (\<exists>k. mem_regions s = used s @ replicate k no_region \<and> mr_nr s < length (mem_regions s) \<and> length (used s) \<le> mr_nr s)"

definition mr_inv :: "memregions \<Rightarrow> bool" where
  "mr_inv s \<longleftrightarrow> mr_table s \<and> sorted_wrt apart (used s)"

text \<open>What a lookup in the list of used regions means.\<close>

definition region_flags :: "mem_region list \<Rightarrow> u64 \<Rightarrow> u32" where
  "region_flags us p = (case List.find (in_region p) us of None \<Rightarrow> MR_F_UNKNOWN | Some r \<Rightarrow> mr_flags r)"

primrec index_of :: "('a \<Rightarrow> bool) \<Rightarrow> 'a list \<Rightarrow> nat option" where
  "index_of P [] = None"
| "index_of P (x # xs) = (if P x then Some 0 else map_option Suc (index_of P xs))"

lemma index_of_SomeD: "index_of P xs = Some i \<Longrightarrow> i < length xs \<and> P (xs ! i) \<and> List.find P xs = Some (xs ! i)"
  by (induction xs arbitrary: i) (auto split: if_splits)

lemma index_of_None_iff: "index_of P xs = None \<longleftrightarrow> List.find P xs = None"
  by (induction xs) auto

lemma index_of_split: "index_of P xs = Some i \<Longrightarrow> xs = take i xs @ xs ! i # drop (Suc i) xs \<and> (\<forall>x \<in> set (take i xs). \<not> P x)"
  by (induction xs arbitrary: i) (auto split: if_splits)

lemma find_append: "List.find P (xs @ ys) = (case List.find P xs of None \<Rightarrow> List.find P ys | Some x \<Rightarrow> Some x)"
  by (induction xs) auto

lemma used_nonzero: "r \<in> set (used s) \<Longrightarrow> mr_end r \<noteq> 0"
  unfolding used_def by (auto dest: set_takeWhileD)

lemma used_eqI:
  assumes "mem_regions s = us @ replicate k no_region" "\<forall>r \<in> set us. mr_end r \<noteq> 0"
  shows "used s = us"
  using assms by (cases k) (auto simp: used_def no_region_def takeWhile_append2)

lemma mr_tableE:
  assumes "mr_table s"
  obtains k where "mem_regions s = used s @ no_region # replicate k no_region" "length (used s) \<le> mr_nr s"
    "mr_nr s \<le> length (used s) + k"
proof -
  obtain k where k: "mem_regions s = used s @ replicate k no_region" "mr_nr s < length (mem_regions s)"
    "length (used s) \<le> mr_nr s" using assms by (auto simp: mr_table_def)
  from k(2,3) arg_cong[OF k(1), of length] obtain j where "k = Suc j" by (cases k) auto
  then show ?thesis using that[of j] k arg_cong[OF k(1), of length] by simp
qed

lemma mr_end_loop_correct:
  assumes "\<forall>r \<in> set us. mr_end r \<noteq> 0" "mr_end r = 0"
  shows "mr_end_loop (pre @ us @ r # post) (length pre) = Inr (length pre + length us)"
  using assms(1)
proof (induction us arbitrary: pre)
  case Nil
  then show ?case using assms(2) by (simp add: mr_end_loop.simps[of "pre @ [] @ r # post"] mr_end_loop.simps)
next
  case (Cons u us)
  have "mr_end_loop (pre @ (u # us) @ r # post) (length pre) = mr_end_loop ((pre @ [u]) @ us @ r # post) (length (pre @ [u]))"
    using Cons.prems by (simp add: mr_end_loop.simps[of "pre @ u # us @ r # post" "length pre"])
  also have "\<dots> = Inr (length (pre @ [u]) + length us)" using Cons.prems by (intro Cons.IH) auto
  finally show ?case by simp
qed

lemma mr_find_loop_correct:
  assumes "\<forall>r \<in> set us. mr_end r \<noteq> 0" "mr_end r = 0"
  shows "mr_find_loop (pre @ us @ r # post) (length pre) p = Inr (map_option ((+) (length pre)) (index_of (in_region p) us))"
  using assms(1)
proof (induction us arbitrary: pre)
  case Nil
  then show ?case using assms(2) by (simp add: mr_find_loop.simps)
next
  case (Cons u us)
  show ?case
  proof (cases "in_region p u")
    case True
    then show ?thesis using Cons.prems
      by (simp add: mr_find_loop.simps[of "pre @ u # us @ r # post" "length pre"] in_region_def)
  next
    case False
    then have "mr_find_loop (pre @ (u # us) @ r # post) (length pre) p =
        mr_find_loop ((pre @ [u]) @ us @ r # post) (length (pre @ [u])) p"
      using Cons.prems by (auto simp: mr_find_loop.simps[of "pre @ u # us @ r # post" "length pre"] in_region_def)
    also have "\<dots> = Inr (map_option ((+) (length (pre @ [u]))) (index_of (in_region p) us))"
      using Cons.prems by (intro Cons.IH) auto
    finally show ?thesis using False by (cases "index_of (in_region p) us") auto
  qed
qed

lemma memregions_find_correct:
  assumes "mr_table s"
  shows "memregions_find s p = Inr (index_of (in_region p) (used s))"
proof -
  obtain k where "mem_regions s = used s @ no_region # replicate k no_region" using assms by (rule mr_tableE)
  then show ?thesis
    using mr_find_loop_correct[of "used s" no_region "[]" "replicate k no_region" p] used_nonzero[of _ s]
    by (simp add: memregions_find_def no_region_def option.map_id0[unfolded id_def] cong: option.map_cong)
qed

lemma memregions_get_flags_correct:
  assumes "mr_table s"
  shows "memregions_get_flags s p = Inr (region_flags (used s) p)"
proof (cases "index_of (in_region p) (used s)")
  case None
  then show ?thesis using memregions_find_correct[OF assms, of p] index_of_None_iff[of "in_region p" "used s"]
    by (simp add: memregions_get_flags_def region_flags_def)
next
  case (Some i)
  obtain k where k: "mem_regions s = used s @ no_region # replicate k no_region" using assms by (rule mr_tableE)
  then have "arr_get (mem_regions s) i = Inr (used s ! i)"
    using index_of_SomeD[OF Some] by (simp add: arr_get_def nth_append)
  then show ?thesis using memregions_find_correct[OF assms, of p] Some index_of_SomeD[OF Some]
    by (simp add: memregions_get_flags_def region_flags_def)
qed

text \<open>Adding a region appends it; without room the assertion fails.\<close>

lemma memregions_add_correct:
  assumes "mr_table s" "mr_end r \<noteq> 0" "length (used s) < mr_nr s"
  obtains s' where "memregions_add s r = Inr (length (used s), s')" "used s' = used s @ [r]" "mr_table s'" "mr_nr s' = mr_nr s"
proof -
  obtain k where k: "mem_regions s = used s @ no_region # replicate k no_region" "mr_nr s \<le> length (used s) + k"
    using assms(1) by (rule mr_tableE)
  let ?s = "s\<lparr>mem_regions := (used s @ [r]) @ replicate k no_region\<rparr>"
  have "mr_end_loop (mem_regions s) 0 = Inr (length (used s))"
    using mr_end_loop_correct[of "used s" no_region "[]"] used_nonzero[of _ s] k(1) by (simp add: no_region_def)
  then have "memregions_add s r = Inr (length (used s), ?s)" using assms(3) k(1) by (simp add: memregions_add_def)
  moreover have u: "used ?s = used s @ [r]" using assms(2) used_nonzero[of _ s] by (intro used_eqI) auto
  moreover have "mr_table ?s" using assms(3) k(2) u unfolding mr_table_def by (intro exI[of _ k]) auto
  ultimately show ?thesis using that by simp
qed

lemma memregions_add_full:
  assumes "mr_table s" "\<not> length (used s) < mr_nr s"
  shows "memregions_add s r = Inl AssertFail"
proof -
  obtain k where "mem_regions s = used s @ no_region # replicate k no_region" using assms(1) by (rule mr_tableE)
  then have "mr_end_loop (mem_regions s) 0 = Inr (length (used s))"
    using mr_end_loop_correct[of "used s" no_region "[]"] used_nonzero[of _ s] by (simp add: no_region_def)
  then show ?thesis using assms(2) by (simp add: memregions_add_def)
qed

section \<open>Splitting\<close>

lemma in_region_split:
  assumes "mr_start r < addr" "addr < mr_end r"
  shows "in_region p r \<longleftrightarrow> in_region p (r\<lparr>mr_end := addr\<rparr>) \<or> in_region p (r\<lparr>mr_start := addr\<rparr>)"
    "apart (r\<lparr>mr_end := addr\<rparr>) (r\<lparr>mr_start := addr\<rparr>)"
  using assms by (auto simp: in_region_def apart_def)

lemma apart_sym: "apart r r' \<Longrightarrow> apart r' r"
  by (auto simp: apart_def)

lemma split_apart:
  assumes "sorted_wrt apart (xs @ r # ys)" "mr_start r < addr" "addr < mr_end r"
  shows "sorted_wrt apart (xs @ r\<lparr>mr_end := addr\<rparr> # ys @ [r\<lparr>mr_start := addr\<rparr>])"
proof -
  have sub: "apart x (r\<lparr>mr_end := addr\<rparr>) \<and> apart x (r\<lparr>mr_start := addr\<rparr>)" if "apart x r" for x
    using that in_region_split(1)[OF assms(2,3)] by (auto simp: apart_def)
  show ?thesis using assms(1) sub in_region_split(2)[OF assms(2,3)] apart_sym
    by (auto simp: sorted_wrt_append)
qed

lemma split_flags:
  assumes "sorted_wrt apart (xs @ r # ys)" "mr_start r < addr" "addr < mr_end r"
  shows "region_flags (xs @ r\<lparr>mr_end := addr\<rparr> # ys @ [r\<lparr>mr_start := addr\<rparr>]) p = region_flags (xs @ r # ys) p"
proof (cases "List.find (in_region p) xs")
  case None
  have "List.find (in_region p) ys = None" if "in_region p r"
    using that assms(1) by (auto simp: find_None_iff sorted_wrt_append apart_def)
  then show ?thesis using None in_region_split(1)[OF assms(2,3), of p]
    by (auto simp: region_flags_def find_append split: option.splits)
next
  case (Some a)
  then show ?thesis by (simp add: region_flags_def find_append)
qed

text \<open>A state whose used regions are \<open>us\<close>.\<close>

lemma mr_table_update:
  assumes "mr_table s" "length us = length (used s)" "\<forall>r \<in> set us. mr_end r \<noteq> 0"
    "mem_regions s = used s @ replicate k no_region"
  shows "mr_table (s\<lparr>mem_regions := us @ replicate k no_region\<rparr>)" "used (s\<lparr>mem_regions := us @ replicate k no_region\<rparr>) = us"
proof -
  show u: "used (s\<lparr>mem_regions := us @ replicate k no_region\<rparr>) = us" using assms(3) by (intro used_eqI) auto
  have "mr_nr s < length (mem_regions s)" "length (used s) \<le> mr_nr s" using assms(1) unfolding mr_table_def by auto
  then show "mr_table (s\<lparr>mem_regions := us @ replicate k no_region\<rparr>)"
    using assms(2) arg_cong[OF assms(4), of length] unfolding mr_table_def u by auto
qed

lemma memregions_split_inner:
  assumes "mr_inv s" "memregions_find s addr = Inr (Some i)" "length (used s) < mr_nr s"
    "mr_start (used s ! i) \<noteq> addr"
  shows "\<exists>s'. memregions_split s addr = Inr (Some i, length (used s), s') \<and> mr_table s' \<and>
    used s' = (used s)[i := (used s ! i)\<lparr>mr_end := addr\<rparr>] @ [(used s ! i)\<lparr>mr_start := addr\<rparr>]"
proof -
  have tab: "mr_table s" using assms(1) by (simp add: mr_inv_def)
  let ?r = "used s ! i" and ?n = "(used s ! i)\<lparr>mr_start := addr\<rparr>"
  have ix: "index_of (in_region addr) (used s) = Some i" using memregions_find_correct[OF tab, of addr] assms(2) by simp
  then have i: "i < length (used s)" "in_region addr ?r" using index_of_SomeD[OF ix] by auto
  have addr: "addr \<noteq> 0" using i(2) assms(4) by (auto simp: in_region_def)
  have ne: "mr_end ?n \<noteq> 0" using i(1) used_nonzero[of ?r s] by simp
  obtain s1 where s1: "memregions_add s ?n = Inr (length (used s), s1)" "used s1 = used s @ [?n]" "mr_table s1" "mr_nr s1 = mr_nr s"
    using memregions_add_correct[OF tab ne assms(3)] .
  obtain k where k: "mem_regions s1 = used s1 @ replicate k no_region" using s1(3) by (auto simp: mr_table_def)
  have new: "?n = \<lparr>mr_start = addr, mr_end = mr_end ?r, mr_flags = mr_flags ?r\<rparr>" by simp
  have gets: "arr_get (mem_regions s) i = Inr ?r" "arr_get (mem_regions s1) i = Inr ?r"
    "arr_set (mem_regions s1) i (?r\<lparr>mr_end := addr\<rparr>) = Inr ((used s1)[i := ?r\<lparr>mr_end := addr\<rparr>] @ replicate k no_region)"
    using i(1) k s1(2) tab by (auto simp: arr_get_def arr_set_def nth_append list_update_append mr_table_def elim!: mr_tableE)
  have "memregions_split s addr = Inr (Some i, length (used s), s1\<lparr>mem_regions := (used s1)[i := ?r\<lparr>mr_end := addr\<rparr>] @ replicate k no_region\<rparr>)"
    using assms(2,4) gets s1(1) new by (simp add: memregions_split_def)
  moreover have "\<forall>r \<in> set ((used s1)[i := ?r\<lparr>mr_end := addr\<rparr>]). mr_end r \<noteq> 0"
    using addr used_nonzero[of _ s1] by (auto dest!: set_update_subset_insert[THEN subsetD])
  moreover have "(used s1)[i := ?r\<lparr>mr_end := addr\<rparr>] = (used s)[i := ?r\<lparr>mr_end := addr\<rparr>] @ [?n]"
    using i(1) by (simp add: s1(2) list_update_append)
  ultimately show ?thesis using mr_table_update[OF s1(3) length_list_update _ k, of i "?r\<lparr>mr_end := addr\<rparr>"] by metis
qed

section \<open>Properties\<close>

text \<open>
  C29: splitting the region that contains an address keeps the table well-formed and free of
  overlaps, changes the flags of no address, and returns a region that starts at the address and
  ends where the old one did.
\<close>

theorem split_preserves_flags:
  assumes "mr_inv s" "memregions_find s addr = Inr (Some i)" "length (used s) < mr_nr s"
  shows "\<exists>r1 r2 s'. memregions_split s addr = Inr (r1, r2, s') \<and> mr_inv s' \<and>
    (\<forall>p. memregions_get_flags s' p = memregions_get_flags s p) \<and> r2 < length (used s') \<and>
    mr_start (used s' ! r2) = addr \<and> mr_end (used s' ! r2) = mr_end (used s ! i)"
proof -
  have tab: "mr_table s" and so: "sorted_wrt apart (used s)" using assms(1) by (auto simp: mr_inv_def)
  have ix: "index_of (in_region addr) (used s) = Some i" using memregions_find_correct[OF tab, of addr] assms(2) by simp
  note i = index_of_SomeD[OF ix]
  show ?thesis
  proof (cases "mr_start (used s ! i) = addr")
    case True
    moreover have "arr_get (mem_regions s) i = Inr (used s ! i)"
      using i tab by (auto simp: arr_get_def nth_append elim!: mr_tableE)
    ultimately have "memregions_split s addr = Inr (None, i, s)" using assms(2) by (simp add: memregions_split_def)
    then show ?thesis using assms(1) i True by auto
  next
    case False
    let ?r = "used s ! i"
    obtain s' where s': "memregions_split s addr = Inr (Some i, length (used s), s')" "mr_table s'"
      "used s' = (used s)[i := ?r\<lparr>mr_end := addr\<rparr>] @ [?r\<lparr>mr_start := addr\<rparr>]"
      using memregions_split_inner[OF assms False] by blast
    have us: "used s = take i (used s) @ ?r # drop (Suc i) (used s)" using index_of_split[OF ix] by simp
    have us': "used s' = take i (used s) @ ?r\<lparr>mr_end := addr\<rparr> # drop (Suc i) (used s) @ [?r\<lparr>mr_start := addr\<rparr>]"
      unfolding s'(3) using i by (simp add: upd_conv_take_nth_drop)
    have lt: "mr_start ?r < addr" "addr < mr_end ?r" using i False by (auto simp: in_region_def)
    have so': "sorted_wrt apart (take i (used s) @ ?r # drop (Suc i) (used s))" using so us by simp
    have "mr_inv s'" using split_apart[OF so' lt] s'(2) us' by (simp add: mr_inv_def)
    moreover have "memregions_get_flags s' p = memregions_get_flags s p" for p
      using split_flags[OF so' lt, of p] us us' memregions_get_flags_correct[OF tab] memregions_get_flags_correct[OF s'(2)] by simp
    moreover have "length (used s) < length (used s')" "used s' ! length (used s) = ?r\<lparr>mr_start := addr\<rparr>"
      by (simp_all add: s'(3) nth_append)
    ultimately show ?thesis using s'(1) by auto
  qed
qed

definition two_regions :: memregions where
  "two_regions = \<lparr>mem_regions = [\<lparr>mr_start = 0, mr_end = 0x1000, mr_flags = 1\<rparr>,
     \<lparr>mr_start = 0x4000, mr_end = 0x8000, mr_flags = 2\<rparr>, no_region, no_region], mr_nr = 3\<rparr>"

theorem split_preserves_flags_witness:
  "\<exists>r1 r2 s'. memregions_split two_regions 0x5000 = Inr (r1, r2, s') \<and> mr_start (used s' ! r2) = 0x5000 \<and>
     memregions_get_flags s' 0x4800 = memregions_get_flags two_regions 0x4800"
proof -
  have u: "used two_regions = [\<lparr>mr_start = 0, mr_end = 0x1000, mr_flags = 1\<rparr>, \<lparr>mr_start = 0x4000, mr_end = 0x8000, mr_flags = 2\<rparr>]"
    by (simp add: used_def two_regions_def no_region_def)
  have "mr_table two_regions" unfolding mr_table_def
    by (intro exI[of _ 2]) (simp add: u, simp add: two_regions_def numeral_2_eq_2)
  moreover have "sorted_wrt apart (used two_regions)"
    by (auto simp: u apart_def in_region_def word_le_nat_alt word_less_nat_alt)
  ultimately have inv: "mr_inv two_regions" by (simp add: mr_inv_def)
  have f: "memregions_find two_regions 0x5000 = Inr (Some 1)"
    by (simp add: memregions_find_def mr_find_loop.simps two_regions_def cong: eval_cong)
  have "length (used two_regions) < mr_nr two_regions" by (simp add: u, simp add: two_regions_def)
  from split_preserves_flags[OF inv f this] show ?thesis by blast
qed

text \<open>
  The free region chosen after the descriptors \<open>ps\<close>, the first of which has the table index
  \<open>b\<close>: \<open>pg\<close> is the size of the largest conventional one.
\<close>

definition best_free :: "nat \<Rightarrow> efi_memory_desc list \<Rightarrow> nat option \<Rightarrow> u64 \<Rightarrow> bool" where
  "best_free b ps f pg \<longleftrightarrow>
     (\<forall>d \<in> set ps. efi_type d = EFI_CONVENTIONAL_MEMORY \<longrightarrow> num_pages d \<le> pg) \<and>
     (case f of None \<Rightarrow> pg = 0
      | Some i \<Rightarrow> \<exists>j < length ps. i = b + j \<and> efi_type (ps ! j) = EFI_CONVENTIONAL_MEMORY \<and> num_pages (ps ! j) = pg)"

lemma best_free_skip:
  assumes "best_free b ps f pg" "\<not> (efi_type d = EFI_CONVENTIONAL_MEMORY \<and> pg < num_pages d)"
  shows "best_free b (ps @ [d]) f pg"
proof (cases f)
  case None
  then show ?thesis using assms by (auto simp: best_free_def not_less)
next
  case (Some i)
  then obtain j where j: "j < length ps" "i = b + j" "efi_type (ps ! j) = EFI_CONVENTIONAL_MEMORY" "num_pages (ps ! j) = pg"
    using assms(1) by (auto simp: best_free_def)
  then show ?thesis using assms Some by (auto simp: best_free_def not_less nth_append intro!: exI[of _ j])
qed

lemma best_free_take:
  assumes "best_free b ps f pg" "efi_type d = EFI_CONVENTIONAL_MEMORY" "pg < num_pages d"
  shows "best_free b (ps @ [d]) (Some (b + length ps)) (num_pages d)"
proof -
  have "num_pages e \<le> num_pages d" if "e \<in> set ps" "efi_type e = EFI_CONVENTIONAL_MEMORY" for e
    using that assms(1,3) by (force simp: best_free_def)
  then show ?thesis using assms(2) by (auto simp: best_free_def intro!: exI[of _ "length ps"])
qed

lemma efi_init_loop_correct:
  assumes "mr_table s" "\<forall>d \<in> set ds. mr_end (efi_region d) \<noteq> 0" "length (used s) + length ds \<le> mr_nr s"
    "best_free b ps f pg" "length (used s) = b + length ps"
  shows "\<exists>f' pg' s'. efi_init_loop s f pg ds = Inr (f', s') \<and> mr_table s' \<and> used s' = used s @ map efi_region ds \<and>
    best_free b (ps @ ds) f' pg'"
  using assms
proof (induction ds arbitrary: s f pg ps)
  case (Cons d ds)
  have room: "length (used s) < mr_nr s" and ne: "mr_end (efi_region d) \<noteq> 0" using Cons.prems by auto
  obtain s1 where s1: "memregions_add s (efi_region d) = Inr (length (used s), s1)" "used s1 = used s @ [efi_region d]"
    "mr_table s1" "mr_nr s1 = mr_nr s"
    using memregions_add_correct[OF Cons.prems(1) ne room] .
  define c where "c \<longleftrightarrow> efi_type d = EFI_CONVENTIONAL_MEMORY \<and> pg < num_pages d"
  define f1 pg1 where "f1 = (if c then Some (length (used s)) else f)" and "pg1 = (if c then num_pages d else pg)"
  have "best_free b (ps @ [d]) f1 pg1"
    using best_free_skip[OF Cons.prems(4), of d] best_free_take[OF Cons.prems(4), of d] Cons.prems(5)
    by (auto simp: c_def f1_def pg1_def)
  then have "\<exists>f' pg' s'. efi_init_loop s1 f1 pg1 ds = Inr (f', s') \<and> mr_table s' \<and> used s' = used s1 @ map efi_region ds \<and>
      best_free b ((ps @ [d]) @ ds) f' pg'"
    using Cons.prems s1 by (intro Cons.IH) auto
  moreover have "efi_init_loop s f pg (d # ds) = efi_init_loop s1 f1 pg1 ds"
    using s1(1) by (simp add: c_def f1_def pg1_def)
  ultimately show ?case using s1(2) by simp
qed auto

text \<open>
  C30: loading an EFI memory map that fits the table adds one region per descriptor, in order,
  and reports as free memory a largest conventional region, or none exactly when there is no
  non-empty conventional region.
\<close>

theorem efi_map_loaded:
  assumes "mr_table s" "\<forall>d \<in> set ds. mr_end (efi_region d) \<noteq> 0" "length (used s) + length ds \<le> mr_nr s"
  shows "\<exists>f s'. memregions_efi_init s ds = Inr (f, s') \<and> mr_table s' \<and> used s' = used s @ map efi_region ds \<and>
    (case f of
       None \<Rightarrow> \<forall>d \<in> set ds. efi_type d = EFI_CONVENTIONAL_MEMORY \<longrightarrow> num_pages d = 0
     | Some i \<Rightarrow> \<exists>j < length ds. i = length (used s) + j \<and> efi_type (ds ! j) = EFI_CONVENTIONAL_MEMORY \<and>
         (\<forall>d \<in> set ds. efi_type d = EFI_CONVENTIONAL_MEMORY \<longrightarrow> num_pages d \<le> num_pages (ds ! j)))"
proof -
  have "best_free (length (used s)) [] None 0" by (simp add: best_free_def)
  from efi_init_loop_correct[OF assms this] obtain f pg s' where
    r: "efi_init_loop s None 0 ds = Inr (f, s')" "mr_table s'" "used s' = used s @ map efi_region ds"
    "best_free (length (used s)) ds f pg" by auto
  show ?thesis
    by (intro exI[of _ f] exI[of _ s']) (use r in \<open>auto simp: memregions_efi_init_def best_free_def split: option.splits\<close>)
qed

theorem efi_map_loaded_witness:
  "\<exists>f s'. memregions_efi_init initial_mem_regions
      [\<lparr>efi_type = 7, phys_addr = 0, num_pages = 4\<rparr>, \<lparr>efi_type = 11, phys_addr = 0x10000, num_pages = 1\<rparr>,
       \<lparr>efi_type = 7, phys_addr = 0x100000, num_pages = 16\<rparr>] = Inr (f, s') \<and> mr_table s' \<and> f \<noteq> None"
proof -
  have "used initial_mem_regions = []" by (simp add: used_def initial_mem_regions_def NR_INITIAL_MEM_REGIONS_def no_region_def)
  then have "mr_table initial_mem_regions"
    unfolding mr_table_def by (intro exI[of _ 9]) (simp add: initial_mem_regions_def NR_INITIAL_MEM_REGIONS_def)
  moreover let ?ds = "[\<lparr>efi_type = 7, phys_addr = 0, num_pages = 4\<rparr>, \<lparr>efi_type = 11, phys_addr = 0x10000, num_pages = 1\<rparr>,
       \<lparr>efi_type = 7, phys_addr = 0x100000, num_pages = 16\<rparr>]"
  have "\<forall>d \<in> set ?ds. mr_end (efi_region d) \<noteq> 0" by (simp add: efi_region_def EFI_PAGE_SIZE_def)
  moreover have "length (used initial_mem_regions) + length ?ds \<le> mr_nr initial_mem_regions"
    using \<open>used initial_mem_regions = []\<close> by (simp add: initial_mem_regions_def NR_INITIAL_MEM_REGIONS_def)
  ultimately show ?thesis using efi_map_loaded[of initial_mem_regions ?ds]
    by (fastforce simp: EFI_CONVENTIONAL_MEMORY_def split: option.splits)
qed

end
