(* ===== verification/AllocPhys.thy ===== *)
theory AllocPhys
  imports Bitops
begin

text \<open>
  \<open>lib/alloc_phys.c\<close>: the early allocator, which moves a boundary through physical memory and
  logs what it handed out. Addresses and sizes are 64-bit words, so the wrap-around of the
  arithmetic is part of the model; the messages it prints are not.
\<close>

section \<open>The allocator\<close>

definition PHYS_ALLOC_NR_REGIONS :: nat where "PHYS_ALLOC_NR_REGIONS = 256"

definition INVALID_PHYS_ADDR :: u64 where "INVALID_PHYS_ADDR = NOT 0"

record phys_alloc_region =
  region_base :: u64
  region_size :: u64

record phys_state =
  regions :: "phys_alloc_region list"
  nr_regions :: nat
  phys_base :: u64
  phys_top :: u64
  align_min :: u64
  warned :: bool

definition phys_alloc_init :: "phys_state \<Rightarrow> u64 \<Rightarrow> u64 \<Rightarrow> phys_state" where
  "phys_alloc_init s base_addr sz = s\<lparr>phys_base := base_addr, phys_top := base_addr + sz, nr_regions := 0\<rparr>"

definition phys_alloc_set_minimum_alignment :: "phys_state \<Rightarrow> u64 \<Rightarrow> phys_state res" where
  "phys_alloc_set_minimum_alignment s align =
     require (align \<noteq> 0 \<and> align AND (align - 1) = 0) (Inr (s\<lparr>align_min := align\<rparr>))"

text \<open>\<open>regions[nr_regions].base = b; regions[nr_regions].size = n; ++nr_regions;\<close>\<close>

definition log_region :: "phys_state \<Rightarrow> u64 \<Rightarrow> u64 \<Rightarrow> phys_state res" where
  "log_region s b n =
     bind_res (arr_set (regions s) (nr_regions s) \<lparr>region_base = b, region_size = n\<rparr>) (\<lambda>rs.
       Inr (s\<lparr>regions := rs, nr_regions := nr_regions s + 1\<rparr>))"

text \<open>On a 64-bit target \<open>safe\<close> makes no difference.\<close>

definition phys_alloc_aligned_safe :: "phys_state \<Rightarrow> u64 \<Rightarrow> u64 \<Rightarrow> bool \<Rightarrow> (u64 \<times> phys_state) res" where
  "phys_alloc_aligned_safe s size_orig align safe =
     (let top_safe = phys_top s in
      require (phys_base s < top_safe)
      (let align' = (if align < align_min s then align_min s else align);
           addr = ALIGN (phys_base s) align';
           sz = size_orig + (addr - phys_base s)
       in if top_safe - phys_base s < sz then Inr (INVALID_PHYS_ADDR, s)
          else let s1 = s\<lparr>phys_base := phys_base s + sz\<rparr> in
            if nr_regions s1 < PHYS_ALLOC_NR_REGIONS
            then bind_res (log_region s1 addr size_orig) (\<lambda>s2. Inr (addr, s2))
            else Inr (addr, if \<not> warned s1 then s1\<lparr>warned := True\<rparr> else s1)))"

definition phys_alloc_get_unused :: "phys_state \<Rightarrow> (u64 \<times> u64 \<times> phys_state) res" where
  "phys_alloc_get_unused s =
     (let p_base = phys_base s; p_top = phys_top s in
      if phys_base s = phys_top s then Inr (p_base, p_top, s)
      else bind_res (log_region s (phys_base s) (phys_top s - phys_base s)) (\<lambda>s1.
        Inr (p_base, p_top, s1\<lparr>phys_base := phys_top s1\<rparr>)))"

text \<open>The result is a virtual address, 0 for \<open>NULL\<close>; \<open>phys_to_virt\<close> is the identity.\<close>

definition early_memalign :: "phys_state \<Rightarrow> u64 \<Rightarrow> u64 \<Rightarrow> (nat \<times> phys_state) res" where
  "early_memalign s alignment sz =
     require (alignment \<noteq> 0 \<and> alignment AND (alignment - 1) = 0)
       (bind_res (phys_alloc_aligned_safe s sz alignment True) (\<lambda>(addr, s').
          Inr (if addr = INVALID_PHYS_ADDR then 0 else unat addr, s')))"

section \<open>Alignment at the end of the address space\<close>

lemma ALIGN_pow2_wrap:
  assumes "k < 64" "2 ^ 64 \<le> unat x + 2 ^ k - 1"
  shows "ALIGN x (2 ^ k) = 0"
proof -
  let ?y = "x + (2 ^ k - 1)"
  have m: "unat ((2::u64) ^ k - 1) = 2 ^ k - 1"
    using unat_pow2[OF assms(1)] unat_minus1[of "2 ^ k"] by (metis unat_eq_zero power_not_zero zero_neq_numeral)
  have k: "(2::nat) ^ k \<le> 2 ^ 63" using assms(1) by (intro power_increasing) auto
  have "unat ?y = (unat x + (2 ^ k - 1)) mod 2 ^ 64" using m by (simp add: unat_word_ariths)
  also have "\<dots> = unat x + (2 ^ k - 1) - 2 ^ 64"
    using assms(2) unat_lt64[of x] k by (simp add: le_mod_geq)
  finally have "unat ?y < 2 ^ k" using unat_lt64[of x] assms(2) by linarith
  then have "unat (drop_bit k ?y) = 0" using unat_drop_bit_eq[of k ?y] by (simp add: drop_bit_eq_div)
  then have d: "drop_bit k ?y = 0" by (simp only: unat_eq_zero)
  have "ALIGN x (2 ^ k) = ?y AND NOT (mask k)"
    by (simp add: ALIGN_def ALIGN_MASK_def mask_eq_exp_minus_1)
  also have "\<dots> = push_bit k (drop_bit k ?y)"
    by (rule bit_eqI) (auto simp: bit_simps)
  finally show ?thesis by (simp only: d) simp
qed

lemma align_up_bounds:
  fixes x :: nat
  assumes "0 < m"
  shows "x \<le> (x + m - 1) div m * m" "(x + m - 1) div m * m < x + m"
proof -
  let ?z = "x + m - 1"
  have "?z div m * m + ?z mod m = ?z" by (rule div_mult_mod_eq)
  moreover have "?z mod m < m" using assms by (rule mod_less_divisor)
  ultimately show "x \<le> ?z div m * m" "?z div m * m < x + m" using assms by linarith+
qed

section \<open>The invariant and the operations\<close>

definition is_pow2 :: "u64 \<Rightarrow> bool" where
  "is_pow2 a \<longleftrightarrow> a \<noteq> 0 \<and> a AND (a - 1) = 0"

lemma is_pow2_eq: "is_pow2 a = is_power_of_2 a"
  by (simp add: is_pow2_def is_power_of_2_def)

definition region_end :: "phys_alloc_region \<Rightarrow> nat" where
  "region_end r = unat (region_base r) + unat (region_size r)"

text \<open>
  The boundary has not passed the top, the minimum alignment is unset or a power of two,
  and the log is a list of ranges in ascending order below the boundary.
\<close>

definition phys_inv :: "phys_state \<Rightarrow> bool" where
  "phys_inv s \<longleftrightarrow> phys_base s \<le> phys_top s \<and> (align_min s = 0 \<or> is_power_of_2 (align_min s)) \<and>
     length (regions s) = PHYS_ALLOC_NR_REGIONS \<and> nr_regions s \<le> PHYS_ALLOC_NR_REGIONS \<and>
     (\<forall>i < nr_regions s. region_end (regions s ! i) \<le> unat (phys_base s)) \<and>
     (\<forall>i j. i < j \<and> j < nr_regions s \<longrightarrow> region_end (regions s ! i) \<le> unat (region_base (regions s ! j)))"

lemma phys_alloc_init_inv:
  assumes "length (regions s) = PHYS_ALLOC_NR_REGIONS" "align_min s = 0 \<or> is_power_of_2 (align_min s)"
    and "unat b + unat n < 2 ^ 64"
  shows "phys_inv (phys_alloc_init s b n)"
proof -
  have "unat (b + n) = unat b + unat n" using assms(3) by (simp add: unat_word_ariths)
  then have "b \<le> b + n" by (simp add: word_le_nat_alt)
  with assms show ?thesis by (simp add: phys_inv_def phys_alloc_init_def)
qed

lemma set_minimum_alignment_inv:
  "phys_inv s \<Longrightarrow> phys_alloc_set_minimum_alignment s a = Inr s' \<Longrightarrow> phys_inv s'"
  by (auto simp: phys_alloc_set_minimum_alignment_def phys_inv_def res_simps is_power_of_2_def)

lemma log_region_inv:
  assumes "phys_inv s" "nr_regions s < PHYS_ALLOC_NR_REGIONS" "phys_base s \<le> b" "unat b + unat n \<le> unat e" "e \<le> phys_top s"
  shows "\<exists>s'. log_region (s\<lparr>phys_base := e\<rparr>) b n = Inr s' \<and> phys_inv s' \<and> phys_base s' = e \<and> phys_top s' = phys_top s"
proof -
  let ?r = "\<lparr>region_base = b, region_size = n\<rparr>"
  let ?s = "s\<lparr>phys_base := e, regions := (regions s)[nr_regions s := ?r], nr_regions := nr_regions s + 1\<rparr>"
  have l: "nr_regions s < length (regions s)" using assms(1,2) by (simp add: phys_inv_def)
  have be: "unat (phys_base s) \<le> unat b" "unat b \<le> unat e" using assms(3,4) by (simp_all add: word_le_nat_alt)
  have old: "region_end (regions s ! i) \<le> unat (phys_base s)" if "i < nr_regions s" for i
    using assms(1) that by (simp add: phys_inv_def)
  have ord: "region_end (regions s ! i) \<le> unat (region_base (regions s ! j))" if "i < j" "j < nr_regions s" for i j
    using assms(1) that by (simp add: phys_inv_def)
  have 1: "region_end (regions ?s ! i) \<le> unat e" if i: "i < nr_regions ?s" for i
  proof (cases "i = nr_regions s")
    case True
    with l assms(4) show ?thesis by (simp add: region_end_def)
  next
    case False
    with i l old[of i] be show ?thesis by simp
  qed
  have 2: "region_end (regions ?s ! i) \<le> unat (region_base (regions ?s ! j))" if ij: "i < j" "j < nr_regions ?s" for i j
  proof (cases "j = nr_regions s")
    case True
    with ij l old[of i] be show ?thesis by simp
  next
    case False
    with ij l ord[of i j] show ?thesis by simp
  qed
  have "phys_inv ?s" using assms(1,2,5) 1 2 by (simp add: phys_inv_def)
  moreover have "log_region (s\<lparr>phys_base := e\<rparr>) b n = Inr ?s" using l by (simp add: log_region_def)
  ultimately show ?thesis by auto
qed

text \<open>The alignment the code uses is a power of two and a multiple of the one asked for.\<close>

lemma effective_alignment:
  assumes "is_power_of_2 a" "m = 0 \<or> is_power_of_2 m"
  obtains j where "j < 64" "(if a < m then m else a) = 2 ^ j" "\<And>x. x mod 2 ^ j = 0 \<Longrightarrow> x mod unat a = 0"
proof -
  have "is_power_of_2 (if a < m then m else a)" using assms by auto
  then obtain j where j: "j < 64" "unat (if a < m then m else a) = 2 ^ j" unfolding is_power_of_2_iff by blast
  obtain i where i: "unat a = 2 ^ i" using assms(1) unfolding is_power_of_2_iff by blast
  have "unat a \<le> unat (if a < m then m else a)" by (simp add: word_less_nat_alt)
  then have "i \<le> j" using i j by (auto dest: power_le_imp_le_exp[rotated])
  have "x mod 2 ^ j = 0 \<Longrightarrow> x mod unat a = 0" for x unfolding i by (rule mod_pow2_le[OF _ \<open>i \<le> j\<close>])
  moreover have "(if a < m then m else a) = 2 ^ j"
    using j unat_pow2[OF j(1)] by (simp only: word_unat_eq_iff)
  ultimately show ?thesis using that j(1) by blast
qed

text \<open>
  The arithmetic of one request, for a size below half the address space: if it is granted,
  the block lies between the old boundary and the new one.
\<close>

lemma unat_uminus_add:
  assumes "(b :: u64) \<noteq> 0"
  shows "unat (- b) + unat b = 2 ^ 64"
proof -
  let ?n = "unat (- b) + unat b"
  have "?n mod 2 ^ 64 = 0" using unat_word_ariths(1)[of "- b" b] by simp
  moreover have "0 < ?n" using assms by (simp add: unat_gt_0)
  moreover have "?n < 2 * 2 ^ 64" using unat_lt64[of b] unat_lt64[of "- b"] by simp
  ultimately show ?thesis by (cases "?n < 2 ^ 64") (auto simp: le_mod_geq)
qed

lemma unat_add_small:
  "unat (a :: u64) + unat b < 2 ^ 64 \<Longrightarrow> unat (a + b) = unat a + unat b"
  by (simp add: unat_word_ariths)

lemma phys_alloc_no_wrap:
  assumes j: "j < 64" and sz: "unat sz < 2 ^ 63" and bt: "b < t"
    and granted: "\<not> t - b < sz + (ALIGN b (2 ^ j) - b)"
  shows "unat b + 2 ^ j - 1 < 2 ^ 64"
proof (rule ccontr)
  assume w: "\<not> unat b + 2 ^ j - 1 < 2 ^ 64"
  have k: "(2::nat) ^ j \<le> 2 ^ 63" using j by (intro power_increasing) auto
  have A: "ALIGN b (2 ^ j) = 0" using w by (intro ALIGN_pow2_wrap[OF j]) simp
  have big: "2 ^ 63 < unat b" using w k by simp
  then have "b \<noteq> 0" by auto
  then have u: "unat (- b) = 2 ^ 64 - unat b" using unat_uminus_add[of b] by simp
  then have s: "unat (sz + - b) = unat sz + (2 ^ 64 - unat b)"
    using unat_add_small[of sz "- b"] sz big by simp
  have "unat (t - b) = unat t - unat b" using bt by (simp add: unat_sub order_less_imp_le)
  then have "unat (t - b) < unat (sz + - b)"
    using s unat_lt64[of t] bt by (simp add: word_less_nat_alt)
  then have "t - b < sz + (ALIGN b (2 ^ j) - b)" by (simp add: A word_less_nat_alt)
  with granted show False by simp
qed

lemma phys_alloc_arith:
  assumes j: "j < 64" and sz: "unat sz < 2 ^ 63" and bt: "b < t"
    and granted: "\<not> t - b < sz + (ALIGN b (2 ^ j) - b)"
  shows "b \<le> ALIGN b (2 ^ j)" "unat (ALIGN b (2 ^ j)) mod 2 ^ j = 0"
    and "unat (sz + ALIGN b (2 ^ j)) = unat (ALIGN b (2 ^ j)) + unat sz" and "sz + ALIGN b (2 ^ j) \<le> t"
proof -
  let ?A = "ALIGN b (2 ^ j)" let ?p = "?A - b"
  have k: "(2::nat) ^ j \<le> 2 ^ 63" using j by (intro power_increasing) auto
  have A: "unat ?A = (unat b + 2 ^ j - 1) div 2 ^ j * 2 ^ j"
    by (rule ALIGN_pow2[OF j phys_alloc_no_wrap[OF assms]])
  then have bA: "unat b \<le> unat ?A" "unat ?A < unat b + 2 ^ j"
    using align_up_bounds[of "2 ^ j" "unat b"] by simp_all
  then show ba: "b \<le> ?A" by (simp add: word_le_nat_alt)
  show "unat ?A mod 2 ^ j = 0" by (simp add: A)
  have p: "unat ?p = unat ?A - unat b" using ba by (simp add: unat_sub)
  have s: "unat (sz + ?p) = unat sz + (unat ?A - unat b)"
    unfolding p[symmetric] by (rule unat_add_small) (use sz bA k p in simp)
  have "unat (t - b) = unat t - unat b" using bt by (simp add: unat_sub order_less_imp_le)
  then have g: "unat sz + (unat ?A - unat b) \<le> unat t - unat b"
    using granted s by (simp add: word_less_nat_alt not_less)
  have bt': "unat b < unat t" using bt by (simp add: word_less_nat_alt)
  then have le: "unat ?A + unat sz \<le> unat t" using g bA by linarith
  with unat_lt64[of t] have lt: "unat sz + unat ?A < 2 ^ 64" by (simp add: add.commute)
  then show e: "unat (sz + ?A) = unat ?A + unat sz" using unat_add_small[of sz ?A] by simp
  show "sz + ?A \<le> t" using e le by (simp add: word_le_nat_alt)
qed

text \<open>What a request returns, and what it leaves of the boundary and the log.\<close>

lemma phys_alloc_correct:
  assumes inv: "phys_inv s" and al: "is_power_of_2 align" and sz: "unat sz < 2 ^ 63"
    and r: "phys_alloc_aligned_safe s sz align safe = Inr (addr, s')"
  shows "phys_inv s' \<and> phys_top s' = phys_top s \<and> (s' = s \<and> addr = INVALID_PHYS_ADDR \<or>
    unat addr mod unat align = 0 \<and> phys_base s \<le> addr \<and> unat (phys_base s') = unat addr + unat sz)"
proof -
  obtain j where j: "j < 64" "(if align < align_min s then align_min s else align) = 2 ^ j"
    "\<And>x. x mod 2 ^ j = 0 \<Longrightarrow> x mod unat align = 0"
    using effective_alignment[OF al, of "align_min s"] inv by (auto simp: phys_inv_def)
  let ?A = "ALIGN (phys_base s) (2 ^ j)"
  have bt: "phys_base s < phys_top s" using r by (simp add: phys_alloc_aligned_safe_def Let_def res_simps)
  show ?thesis
  proof (cases "phys_top s - phys_base s < sz + (?A - phys_base s)")
    case True
    then show ?thesis using r bt j(2) inv by (simp add: phys_alloc_aligned_safe_def Let_def)
  next
    case False
    note ar = phys_alloc_arith[OF j(1) sz bt False]
    have d: "unat ?A mod unat align = 0" by (rule j(3)[OF ar(2)])
    show ?thesis
    proof (cases "nr_regions s < PHYS_ALLOC_NR_REGIONS")
      case True
      then have "bind_res (log_region (s\<lparr>phys_base := sz + ?A\<rparr>) ?A sz) (\<lambda>s2. Inr (?A, s2)) = Inr (addr, s')"
        using r False bt j(2) by (simp add: phys_alloc_aligned_safe_def Let_def)
      with log_region_inv[OF inv True ar(1) _ ar(4), of sz] ar d show ?thesis by auto
    next
      case full: False
      have be: "unat (phys_base s) \<le> unat (sz + ?A)" using ar(1,3) by (simp add: word_le_nat_alt)
      have "phys_inv (s\<lparr>phys_base := sz + ?A\<rparr>)" "phys_inv (s\<lparr>phys_base := sz + ?A, warned := True\<rparr>)"
        using inv ar(4) order_trans[OF _ be] by (auto simp: phys_inv_def)
      moreover have "addr = ?A" "s' = s\<lparr>phys_base := sz + ?A\<rparr> \<or> s' = s\<lparr>phys_base := sz + ?A, warned := True\<rparr>"
        using r False bt j(2) full by (auto simp: phys_alloc_aligned_safe_def Let_def split: if_splits)
      ultimately show ?thesis using ar d by auto
    qed
  qed
qed

text \<open>Handing over the rest of the memory; the log needs a free entry.\<close>

lemma phys_alloc_get_unused_correct:
  assumes "phys_inv s" "nr_regions s < PHYS_ALLOC_NR_REGIONS"
  shows "\<exists>s'. phys_alloc_get_unused s = Inr (phys_base s, phys_top s, s') \<and> phys_inv s' \<and>
    phys_base s' = phys_top s \<and> phys_top s' = phys_top s"
proof (cases "phys_base s = phys_top s")
  case True
  with assms show ?thesis by (simp add: phys_alloc_get_unused_def)
next
  case False
  have le: "phys_base s \<le> phys_top s" using assms(1) by (simp add: phys_inv_def)
  then have n: "unat (phys_base s) + unat (phys_top s - phys_base s) = unat (phys_top s)"
    by (simp add: unat_sub word_le_nat_alt)
  let ?n = "phys_top s - phys_base s"
  obtain s1 where s1: "log_region (s\<lparr>phys_base := phys_top s\<rparr>) (phys_base s) ?n = Inr s1"
    "phys_inv s1" "phys_base s1 = phys_top s" "phys_top s1 = phys_top s"
    using log_region_inv[OF assms, of "phys_base s" ?n "phys_top s"] n by auto
  obtain s2 where s2: "log_region s (phys_base s) ?n = Inr s2" "s1 = s2\<lparr>phys_base := phys_top s2\<rparr>"
    using s1(1) by (auto simp: log_region_def res_simps)
  with False s1 show ?thesis by (simp add: phys_alloc_get_unused_def Let_def)
qed

end
