(* ===== verification/LinkedList.thy ===== *)
theory LinkedList
  imports Prelude
begin

text \<open>
  \<open>lib/list.h\<close>: the circular doubly-linked list whose head is itself a list item.
  The nodes live in a heap that maps a node's address to its two pointers; \<open>None\<close> is
  \<open>NULL\<close>. The abstraction \<open>forest\<close> relates a heap to the sequences held by a set of list
  heads, and the locale \<open>list_forest\<close> is the contract the page allocator relies on.
\<close>

section \<open>The operations\<close>

record 'a linked_list =
  prev :: "'a option"
  nxt :: "'a option"

type_synonym 'a lheap = "'a \<Rightarrow> 'a linked_list"

definition set_prev :: "'a \<Rightarrow> 'a option \<Rightarrow> 'a lheap \<Rightarrow> 'a lheap" where
  "set_prev x v h = h(x := (h x)\<lparr>prev := v\<rparr>)"

definition set_next :: "'a \<Rightarrow> 'a option \<Rightarrow> 'a lheap \<Rightarrow> 'a lheap" where
  "set_next x v h = h(x := (h x)\<lparr>nxt := v\<rparr>)"

text \<open>Dereferencing a pointer: \<open>NULL\<close> faults.\<close>

definition deref :: "'a option \<Rightarrow> 'a res" where
  "deref p = (case p of None \<Rightarrow> Inl Fault | Some x \<Rightarrow> Inr x)"

definition is_list_empty :: "'a lheap \<Rightarrow> 'a \<Rightarrow> bool" where
  "is_list_empty h p \<longleftrightarrow>
     nxt (h p) = None \<or> prev (h p) = None \<or> nxt (h p) = Some p \<or> prev (h p) = Some p"

definition list_remove :: "'a lheap \<Rightarrow> 'a \<Rightarrow> ('a option \<times> 'a lheap) res" where
  "list_remove h l =
     (if is_list_empty h l then Inr (None, h)
      else bind_res (deref (prev (h l))) (\<lambda>lp.
        let h1 = set_next lp (nxt (h l)) h in
        bind_res (deref (nxt (h1 l))) (\<lambda>ln.
          let h2 = set_prev ln (prev (h1 l)) h1;
              h3 = set_prev l None (set_next l None h2)
          in Inr (Some l, h3))))"

definition list_add :: "'a lheap \<Rightarrow> 'a option \<Rightarrow> 'a option \<Rightarrow> 'a lheap res" where
  "list_add h head li =
     require (li \<noteq> None) (require (head \<noteq> None)
       (bind_res (deref head) (\<lambda>hd0. bind_res (deref li) (\<lambda>l.
          let h1 = set_prev l head h;
              h2 = set_next l (nxt (h1 hd0)) h1
          in bind_res (deref (nxt (h2 hd0))) (\<lambda>n.
               let h3 = set_prev n li h2 in Inr (set_next hd0 li h3))))))"

definition list_add_tail :: "'a lheap \<Rightarrow> 'a option \<Rightarrow> 'a option \<Rightarrow> 'a lheap res" where
  "list_add_tail h head li =
     require (head \<noteq> None) (bind_res (deref head) (\<lambda>hd0. list_add h (prev (h hd0)) li))"

section \<open>Segments and circular lists\<close>

text \<open>
  \<open>lseg h a xs b\<close>: the nodes \<open>xs\<close> link \<open>a\<close> to \<open>b\<close> in both directions; a circular list with
  head \<open>a\<close> is a segment from \<open>a\<close> to \<open>a\<close> without repetitions.
\<close>

primrec lseg :: "'a lheap \<Rightarrow> 'a \<Rightarrow> 'a list \<Rightarrow> 'a \<Rightarrow> bool" where
  "lseg h a [] b \<longleftrightarrow> nxt (h a) = Some b \<and> prev (h b) = Some a"
| "lseg h a (x # xs) b \<longleftrightarrow> nxt (h a) = Some x \<and> prev (h x) = Some a \<and> lseg h x xs b"

definition dlist :: "'a lheap \<Rightarrow> 'a \<Rightarrow> 'a list \<Rightarrow> bool" where
  "dlist h a xs \<longleftrightarrow> lseg h a xs a \<and> distinct (a # xs)"

definition forest :: "'a set \<Rightarrow> ('a \<Rightarrow> 'a list) \<Rightarrow> 'a lheap \<Rightarrow> bool" where
  "forest H F h \<longleftrightarrow>
     (\<forall>x \<in> H. dlist h x (F x) \<and> set (F x) \<inter> H = {}) \<and>
     (\<forall>x \<in> H. \<forall>y \<in> H. x \<noteq> y \<longrightarrow> set (F x) \<inter> set (F y) = {})"

lemma nxt_set_prev [simp]: "nxt (set_prev x v h y) = nxt (h y)"
  by (simp add: set_prev_def)

lemma prev_set_next [simp]: "prev (set_next x v h y) = prev (h y)"
  by (simp add: set_next_def)

lemma nxt_set_next [simp]: "nxt (set_next x v h y) = (if y = x then v else nxt (h y))"
  by (simp add: set_next_def)

lemma prev_set_prev [simp]: "prev (set_prev x v h y) = (if y = x then v else prev (h y))"
  by (simp add: set_prev_def)

lemma deref_Some [simp]: "deref (Some x) = Inr x"
  by (simp add: deref_def)

lemma lseg_append:
  "lseg h a (xs @ y # ys) b \<longleftrightarrow> lseg h a xs y \<and> lseg h y ys b"
  by (induction xs arbitrary: a) auto

lemma lseg_set_next:
  "z \<notin> set (a # xs) \<Longrightarrow> lseg (set_next z v h) a xs b = lseg h a xs b"
  by (induction xs arbitrary: a) auto

lemma lseg_set_prev:
  "z \<notin> set (xs @ [b]) \<Longrightarrow> lseg (set_prev z v h) a xs b = lseg h a xs b"
  by (induction xs arbitrary: a) auto

lemma lseg_last_next:
  "lseg h a (xs @ [l]) b \<Longrightarrow> nxt (h l) = Some b"
  by (simp add: lseg_append)

lemma lseg_prev_end:
  "lseg h a xs b \<Longrightarrow> prev (h b) = Some (last (a # xs))"
  by (induction xs arbitrary: a) auto

lemma lseg_next_start:
  "lseg h a xs b \<Longrightarrow> nxt (h a) = Some (hd (xs @ [b]))"
  by (cases xs) auto

lemma dlist_next: "dlist h a xs \<Longrightarrow> nxt (h a) = Some (hd (xs @ [a]))"
  by (auto simp: dlist_def dest: lseg_next_start)

lemma dlist_prev: "dlist h a xs \<Longrightarrow> prev (h a) = Some (last (a # xs))"
  by (auto simp: dlist_def dest: lseg_prev_end)

lemma dlist_empty_iff:
  assumes d: "dlist h a xs"
  shows "is_list_empty h a \<longleftrightarrow> xs = []"
proof (cases "xs = []")
  case True
  then show ?thesis using dlist_next[OF d] by (simp add: is_list_empty_def)
next
  case False
  then have "hd (xs @ [a]) \<in> set xs" "last (a # xs) \<in> set xs" by simp_all
  moreover have "a \<notin> set xs" using d by (simp add: dlist_def)
  ultimately have "hd (xs @ [a]) \<noteq> a" "last (a # xs) \<noteq> a" by metis+
  with False dlist_next[OF d] dlist_prev[OF d] show ?thesis
    unfolding is_list_empty_def by (simp del: last.simps hd_append2)
qed

lemma dlist_frame_next:
  "z \<notin> set (a # xs) \<Longrightarrow> dlist (set_next z v h) a xs = dlist h a xs"
  by (simp add: dlist_def lseg_set_next)

lemma dlist_frame_prev:
  "z \<notin> set (a # xs) \<Longrightarrow> dlist (set_prev z v h) a xs = dlist h a xs"
  by (simp add: dlist_def lseg_set_prev)

lemmas dlist_frame = dlist_frame_next dlist_frame_prev

section \<open>The operations on one list\<close>

lemma lseg_cong:
  assumes "\<And>z. z \<in> set (a # xs) \<Longrightarrow> nxt (h' z) = nxt (h z)"
    and "\<And>z. z \<in> set (xs @ [b]) \<Longrightarrow> prev (h' z) = prev (h z)"
  shows "lseg h' a xs b = lseg h a xs b"
  using assms by (induction xs arbitrary: a) auto

lemma dlist_cong:
  assumes "\<And>z. z \<in> set (a # xs) \<Longrightarrow> nxt (h' z) = nxt (h z) \<and> prev (h' z) = prev (h z)"
  shows "dlist h' a xs = dlist h a xs"
  unfolding dlist_def using assms by (subst lseg_cong[of a xs h' h a]) auto

text \<open>Two heaps that agree on the pointers of every node outside \<open>S\<close>.\<close>

definition agree_off :: "'a set \<Rightarrow> 'a lheap \<Rightarrow> 'a lheap \<Rightarrow> bool" where
  "agree_off S h h' \<longleftrightarrow> (\<forall>z. z \<notin> S \<longrightarrow> nxt (h' z) = nxt (h z) \<and> prev (h' z) = prev (h z))"

lemma dlist_agree_off:
  "agree_off S h h' \<Longrightarrow> set (a # xs) \<inter> S = {} \<Longrightarrow> dlist h' a xs = dlist h a xs"
  by (rule dlist_cong) (auto simp: agree_off_def)

text \<open>Linking a new node after a given node of a segment.\<close>

lemma list_add_seg:
  assumes seg: "lseg h x ys b" and l: "l \<notin> set (x # ys @ [b])"
    and d: "distinct (x # ys)" "b \<notin> set ys"
  shows "\<exists>h'. list_add h (Some x) (Some l) = Inr h' \<and> lseg h' x (l # ys) b \<and>
    (\<forall>z. z \<noteq> x \<and> z \<noteq> l \<longrightarrow> nxt (h' z) = nxt (h z)) \<and>
    (\<forall>z. z \<noteq> hd (ys @ [b]) \<and> z \<noteq> l \<longrightarrow> prev (h' z) = prev (h z))"
proof -
  define n where "n = hd (ys @ [b])"
  have n: "nxt (h x) = Some n" using seg unfolding n_def by (rule lseg_next_start)
  have "n \<in> set (ys @ [b])" unfolding n_def by (rule hd_in_set) simp
  with l have ne: "x \<noteq> l" "n \<noteq> l" by auto
  let ?h = "set_next x (Some l) (set_prev n (Some l)
             (set_next l (Some n) (set_prev l (Some x) h)))"
  have add: "list_add h (Some x) (Some l) = Inr ?h"
    using n ne by (simp add: list_add_def Let_def)
  have "lseg ?h x (l # ys) b"
  proof (cases ys)
    case Nil
    then show ?thesis using ne l by (simp add: n_def)
  next
    case (Cons y zs)
    then have "lseg h y zs b" and "n = y" using seg by (simp_all add: n_def)
    moreover have "lseg ?h y zs b = lseg h y zs b"
      by (rule lseg_cong) (use Cons \<open>n = y\<close> l d in auto)
    ultimately show ?thesis using ne l d Cons by auto
  qed
  with add ne show ?thesis
    by (intro exI[of _ ?h]) (auto simp: n_def)
qed

lemma dlist_add:
  assumes "dlist h a xs" "l \<notin> set (a # xs)"
  shows "\<exists>h'. list_add h (Some a) (Some l) = Inr h' \<and> dlist h' a (l # xs) \<and>
    agree_off (set (a # l # xs)) h h'"
proof -
  obtain h' where "list_add h (Some a) (Some l) = Inr h'" "lseg h' a (l # xs) a"
    and fr: "\<And>z. z \<noteq> a \<Longrightarrow> z \<noteq> l \<Longrightarrow> nxt (h' z) = nxt (h z)"
      "\<And>z. z \<noteq> hd (xs @ [a]) \<Longrightarrow> z \<noteq> l \<Longrightarrow> prev (h' z) = prev (h z)"
    using list_add_seg[of h a xs a l] assms unfolding dlist_def by auto
  moreover have "agree_off (set (a # l # xs)) h h'"
    unfolding agree_off_def
  proof (intro allI impI conjI)
    fix z assume z: "z \<notin> set (a # l # xs)"
    moreover have "hd (xs @ [a]) \<in> set (a # xs)" by (cases xs) auto
    ultimately have "z \<noteq> hd (xs @ [a])" by auto
    with z fr[of z] show "nxt (h' z) = nxt (h z)" "prev (h' z) = prev (h z)"
      by simp_all
  qed
  ultimately show ?thesis using assms
    by (intro exI[of _ h']) (auto simp: dlist_def)
qed

lemma dlist_add_tail:
  assumes "dlist h a xs" "l \<notin> set (a # xs)"
  shows "\<exists>h'. list_add_tail h (Some a) (Some l) = Inr h' \<and> dlist h' a (xs @ [l]) \<and>
    agree_off (set (a # l # xs)) h h'"
proof (cases xs rule: rev_cases)
  case Nil
  have "list_add_tail h (Some a) (Some l) = list_add h (Some a) (Some l)"
    using dlist_prev[OF assms(1)] Nil by (simp add: list_add_tail_def)
  with Nil dlist_add[OF assms] show ?thesis by simp
next
  case (snoc us y)
  have d: "distinct (a # us @ [y])" and s: "lseg h a us y" "lseg h y [] a"
    using assms(1) snoc by (auto simp: dlist_def lseg_append)
  have t: "list_add_tail h (Some a) (Some l) = list_add h (Some y) (Some l)"
    using dlist_prev[OF assms(1)] snoc by (simp add: list_add_tail_def)
  obtain h' where h': "list_add h (Some y) (Some l) = Inr h'" "lseg h' y [l] a"
    "\<And>z. z \<noteq> y \<Longrightarrow> z \<noteq> l \<Longrightarrow> nxt (h' z) = nxt (h z)"
    "\<And>z. z \<noteq> a \<Longrightarrow> z \<noteq> l \<Longrightarrow> prev (h' z) = prev (h z)"
    using list_add_seg[OF s(2), of l] assms(2) snoc by auto
  have "lseg h' a us y = lseg h a us y"
    by (rule lseg_cong; rule h'(3,4)) (use d assms(2) snoc in auto)
  with s(1) h'(2) have "lseg h' a (us @ y # [l]) a" by (simp only: lseg_append)
  with t h' d assms(2) snoc show ?thesis
    by (intro exI[of _ h']) (auto simp: dlist_def agree_off_def)
qed

text \<open>Moving the end of a segment.\<close>

lemma last_notin_butlast: "distinct xs \<Longrightarrow> xs \<noteq> [] \<Longrightarrow> last xs \<notin> set (butlast xs)"
  by (cases xs rule: rev_cases) auto

lemma lseg_retarget:
  assumes "lseg h a us l" "distinct (a # us)" "c \<notin> set us"
    and "nxt (h' (last (a # us))) = Some c" "prev (h' c) = Some (last (a # us))"
    and "\<And>z. z \<in> set (butlast (a # us)) \<Longrightarrow> nxt (h' z) = nxt (h z)"
    and "\<And>z. z \<in> set us \<Longrightarrow> prev (h' z) = prev (h z)"
  shows "lseg h' a us c"
  using assms
proof (induction us arbitrary: a)
  case Nil
  then show ?case by simp
next
  case (Cons u us)
  have "lseg h' u us c" by (rule Cons.IH) (use Cons.prems in auto)
  with Cons.prems show ?case by auto
qed

lemma dlist_remove:
  assumes "dlist h a (us @ l # vs)"
  shows "\<exists>h'. list_remove h l = Inr (Some l, h') \<and> dlist h' a (us @ vs) \<and>
    agree_off (set (a # us @ l # vs)) h h'"
proof -
  define lp where "lp = last (a # us)"
  define ln where "ln = hd (vs @ [a])"
  have s: "lseg h a us l" "lseg h l vs a" and d: "distinct (a # us @ l # vs)"
    using assms by (auto simp: dlist_def lseg_append)
  have pl: "prev (h l) = Some lp" "nxt (h l) = Some ln"
    using lseg_prev_end[OF s(1)] lseg_next_start[OF s(2)] by (simp_all add: lp_def ln_def)
  have lp_in: "lp \<in> set (a # us)" unfolding lp_def by (rule last_in_set) simp
  have ln_in: "ln \<in> set (a # vs)" by (cases vs) (simp_all add: ln_def)
  have ne: "lp \<noteq> l" "ln \<noteq> l" using lp_in ln_in d by auto
  let ?h = "set_prev l None (set_next l None (set_prev ln (Some lp) (set_next lp (Some ln) h)))"
  have rem: "list_remove h l = Inr (Some l, ?h)"
    using pl ne by (simp add: list_remove_def is_list_empty_def Let_def)
  have lnus: "ln \<notin> set us" using ln_in d by auto
  have A: "lseg ?h a us ln"
  proof (rule lseg_retarget[OF s(1)])
    have "lp \<notin> set (butlast (a # us))"
      unfolding lp_def by (rule last_notin_butlast) (use d in auto)
    then show "nxt (?h z) = nxt (h z)" if "z \<in> set (butlast (a # us))" for z
      using that d ne in_set_butlastD[OF that] by auto
    have "last (a # us) = lp" by (simp only: lp_def)
    then show "nxt (?h (last (a # us))) = Some ln" "prev (?h ln) = Some (last (a # us))"
      using ne by (simp_all del: last.simps)
  qed (use d ne lnus in auto)
  have "lseg ?h a (us @ vs) a"
  proof (cases vs)
    case Nil
    with A show ?thesis by (simp add: ln_def)
  next
    case (Cons v ws)
    then have v: "ln = v" "lseg h v ws a" using s(2) by (simp_all add: ln_def)
    have "lseg ?h v ws a = lseg h v ws a"
      by (rule lseg_cong) (use Cons v(1) d lp_in ne in auto)
    with A v Cons show ?thesis by (simp only: lseg_append)
  qed
  with rem d lp_in ln_in show ?thesis
    by (intro exI[of _ ?h]) (auto simp: dlist_def agree_off_def)
qed

section \<open>The contract: a forest of lists\<close>

text \<open>
  What the code that uses the lists relies on. \<open>rep H F s\<close> says that the state \<open>s\<close> holds, for
  each head in \<open>H\<close>, the sequence \<open>F\<close> gives it, no node being in two lists. The laws say which
  sequence each operation leaves and that every other list is untouched.
\<close>

locale list_forest =
  fixes rep :: "'a set \<Rightarrow> ('a \<Rightarrow> 'a list) \<Rightarrow> 's \<Rightarrow> bool"
    and add :: "'s \<Rightarrow> 'a option \<Rightarrow> 'a option \<Rightarrow> 's res"
    and add_tail :: "'s \<Rightarrow> 'a option \<Rightarrow> 'a option \<Rightarrow> 's res"
    and remove :: "'s \<Rightarrow> 'a \<Rightarrow> ('a option \<times> 's) res"
    and empty :: "'s \<Rightarrow> 'a \<Rightarrow> bool"
  assumes rep_distinct: "rep H F s \<Longrightarrow> x \<in> H \<Longrightarrow> distinct (F x)"
    and rep_heads: "rep H F s \<Longrightarrow> x \<in> H \<Longrightarrow> set (F x) \<inter> H = {}"
    and rep_disjoint:
      "rep H F s \<Longrightarrow> x \<in> H \<Longrightarrow> y \<in> H \<Longrightarrow> x \<noteq> y \<Longrightarrow> set (F x) \<inter> set (F y) = {}"
    and add_law:
      "rep H F s \<Longrightarrow> x \<in> H \<Longrightarrow> l \<notin> H \<Longrightarrow> (\<And>y. y \<in> H \<Longrightarrow> l \<notin> set (F y)) \<Longrightarrow>
       \<exists>s'. add s (Some x) (Some l) = Inr s' \<and> rep H (F(x := l # F x)) s'"
    and add_tail_law:
      "rep H F s \<Longrightarrow> x \<in> H \<Longrightarrow> l \<notin> H \<Longrightarrow> (\<And>y. y \<in> H \<Longrightarrow> l \<notin> set (F y)) \<Longrightarrow>
       \<exists>s'. add_tail s (Some x) (Some l) = Inr s' \<and> rep H (F(x := F x @ [l])) s'"
    and remove_law:
      "rep H F s \<Longrightarrow> x \<in> H \<Longrightarrow> l \<in> set (F x) \<Longrightarrow>
       \<exists>s'. remove s l = Inr (Some l, s') \<and> rep H (F(x := remove1 l (F x))) s'"
    and empty_head: "rep H F s \<Longrightarrow> x \<in> H \<Longrightarrow> empty s x = (F x = [])"
    and empty_node: "rep H F s \<Longrightarrow> x \<in> H \<Longrightarrow> l \<in> set (F x) \<Longrightarrow> \<not> empty s l"
begin

text \<open>Putting a node in front and taking it out again leaves the sequences as they were.\<close>

lemma add_remove:
  assumes "rep H F s" "x \<in> H" "l \<notin> H" "\<And>y. y \<in> H \<Longrightarrow> l \<notin> set (F y)"
  shows "\<exists>s1 s2. add s (Some x) (Some l) = Inr s1 \<and> remove s1 l = Inr (Some l, s2) \<and> rep H F s2"
proof -
  obtain s1 where s1: "add s (Some x) (Some l) = Inr s1" "rep H (F(x := l # F x)) s1"
    using add_law[OF assms] by blast
  obtain s2 where "remove s1 l = Inr (Some l, s2)"
    "rep H ((F(x := l # F x))(x := remove1 l (l # F x))) s2"
    using remove_law[OF s1(2) assms(2), of l] by auto
  with s1 show ?thesis by (intro exI[of _ s1] exI[of _ s2]) simp
qed

text \<open>A node added at the tail comes out after the nodes that were there before it.\<close>

lemma add_tail_order:
  assumes "rep H F s" "x \<in> H" "l \<notin> H" "\<And>y. y \<in> H \<Longrightarrow> l \<notin> set (F y)" "F x = k # ks"
  shows "\<exists>s1 s2. add_tail s (Some x) (Some l) = Inr s1 \<and> remove s1 k = Inr (Some k, s2) \<and>
    rep H (F(x := ks @ [l])) s2"
proof -
  obtain s1 where s1: "add_tail s (Some x) (Some l) = Inr s1" "rep H (F(x := F x @ [l])) s1"
    using add_tail_law[OF assms(1-4)] by blast
  obtain s2 where "remove s1 k = Inr (Some k, s2)"
    "rep H ((F(x := F x @ [l]))(x := remove1 k (F x @ [l]))) s2"
    using remove_law[OF s1(2) assms(2), of k] assms(5) by auto
  with s1 assms(5) show ?thesis by (intro exI[of _ s1] exI[of _ s2]) simp
qed

end

lemma forest_update:
  assumes f: "forest H F h" and x: "x \<in> H"
    and d: "dlist h' x zs" and a: "agree_off S h h'"
    and S: "S \<subseteq> insert x (insert l (set (F x)))" and zs: "set zs \<subseteq> insert l (set (F x))"
    and l: "l \<notin> H" "\<And>y. y \<in> H \<Longrightarrow> y \<noteq> x \<Longrightarrow> l \<notin> set (F y)"
  shows "forest H (F(x := zs)) h'"
proof -
  have fx: "\<And>y. y \<in> H \<Longrightarrow> dlist h y (F y)" "\<And>y. y \<in> H \<Longrightarrow> set (F y) \<inter> H = {}"
    "\<And>y z. y \<in> H \<Longrightarrow> z \<in> H \<Longrightarrow> y \<noteq> z \<Longrightarrow> set (F y) \<inter> set (F z) = {}"
    using f unfolding forest_def by auto
  have other: "dlist h' y (F y)" if y: "y \<in> H" "y \<noteq> x" for y
  proof -
    have "set (y # F y) \<inter> S = {}"
      using fx(2)[OF y(1)] fx(2)[OF x] fx(3)[OF y(1) x y(2)] S l y x by auto
    from dlist_agree_off[OF a this] fx(1)[OF y(1)] show ?thesis by simp
  qed
  have dis: "set zs \<inter> set (F y) = {}" if y: "y \<in> H" "y \<noteq> x" for y
    using zs l(2)[OF y] fx(3)[OF x y(1)] y by auto
  have "set zs \<inter> H = {}" using zs l(1) fx(2)[OF x] by auto
  note zsH = this
  show ?thesis
    unfolding forest_def
  proof (intro conjI ballI impI)
    fix y assume y: "y \<in> H"
    show "dlist h' y ((F(x := zs)) y)" using d other y by simp
    show "set ((F(x := zs)) y) \<inter> H = {}" using zsH fx(2) y by simp
  next
    fix y z assume yz: "y \<in> H" "z \<in> H" "y \<noteq> z"
    show "set ((F(x := zs)) y) \<inter> set ((F(x := zs)) z) = {}"
      using dis[of y] dis[of z] fx(3)[OF yz] yz by (auto simp: Int_commute)
  qed
qed

text \<open>The lists of \<open>lib/list.h\<close> satisfy the contract.\<close>

interpretation ll: list_forest forest list_add list_add_tail list_remove is_list_empty
proof unfold_locales
  fix H :: "'a set" and F h x l
  assume f: "forest H F h" and x: "x \<in> H"
  then have dx: "dlist h x (F x)" and hx: "set (F x) \<inter> H = {}"
    by (auto simp: forest_def)
  show "distinct (F x)" using dx by (simp add: dlist_def)
  show "set (F x) \<inter> H = {}" by (rule hx)
  show "is_list_empty h x = (F x = [])" using dx by (rule dlist_empty_iff)
  { fix y assume "y \<in> H" "x \<noteq> y"
    then show "set (F x) \<inter> set (F y) = {}" using f x by (auto simp: forest_def) }
  { assume l: "l \<notin> H" "\<And>y. y \<in> H \<Longrightarrow> l \<notin> set (F y)"
    then have "l \<notin> set (x # F x)" using x by auto
    from dlist_add[OF dx this] obtain h' where h': "list_add h (Some x) (Some l) = Inr h'"
      "dlist h' x (l # F x)" "agree_off (set (x # l # F x)) h h'" by blast
    have "forest H (F(x := l # F x)) h'"
      by (rule forest_update[OF f x h'(2,3)]) (use l in auto)
    with h'(1) show "\<exists>s'. list_add h (Some x) (Some l) = Inr s' \<and> forest H (F(x := l # F x)) s'"
      by blast
    from dlist_add_tail[OF dx \<open>l \<notin> set (x # F x)\<close>]
    obtain h2 where h2: "list_add_tail h (Some x) (Some l) = Inr h2"
      "dlist h2 x (F x @ [l])" "agree_off (set (x # l # F x)) h h2" by blast
    have "forest H (F(x := F x @ [l])) h2"
      by (rule forest_update[OF f x h2(2,3)]) (use l in auto)
    with h2(1) show "\<exists>s'. list_add_tail h (Some x) (Some l) = Inr s' \<and>
        forest H (F(x := F x @ [l])) s'"
      by blast }
  { assume l: "l \<in> set (F x)"
    then obtain us vs where sp: "F x = us @ l # vs" by (auto simp: in_set_conv_decomp)
    have dd: "distinct (x # us @ l # vs)" using dx sp by (simp add: dlist_def)
    from dlist_remove[of h x us l vs] dx sp obtain h' where h':
      "list_remove h l = Inr (Some l, h')" "dlist h' x (us @ vs)"
      "agree_off (set (x # us @ l # vs)) h h'" by auto
    have ll: "l \<notin> H" "\<And>y. y \<in> H \<Longrightarrow> y \<noteq> x \<Longrightarrow> l \<notin> set (F y)"
      using f x l unfolding forest_def by blast+
    have "forest H (F(x := us @ vs)) h'"
      by (rule forest_update[OF f x h'(2,3)]) (use sp ll in auto)
    moreover have "remove1 l (F x) = us @ vs" using sp dd by (simp add: remove1_append)
    ultimately show "\<exists>s'. list_remove h l = Inr (Some l, s') \<and>
        forest H (F(x := remove1 l (F x))) s'"
      using h'(1) by auto
    have "lseg h x us l" "lseg h l vs x" using dx sp by (auto simp: dlist_def lseg_append)
    then have "prev (h l) = Some (last (x # us))" "nxt (h l) = Some (hd (vs @ [x]))"
      using lseg_prev_end lseg_next_start by metis+
    moreover have "last (x # us) \<in> set (x # us)" "hd (vs @ [x]) \<in> set (vs @ [x])"
      by (rule last_in_set, simp) (rule hd_in_set, simp)
    moreover have "l \<notin> set (x # us)" "l \<notin> set (vs @ [x])" using dd by auto
    ultimately show "\<not> is_list_empty h l"
      unfolding is_list_empty_def by (metis option.distinct(1) option.inject) }
qed

text \<open>Reading the first and the last node off the head.\<close>

lemma forest_next: "forest H F h \<Longrightarrow> x \<in> H \<Longrightarrow> nxt (h x) = Some (hd (F x @ [x]))"
  by (rule dlist_next) (simp add: forest_def)

lemma forest_prev: "forest H F h \<Longrightarrow> x \<in> H \<Longrightarrow> prev (h x) = Some (last (x # F x))"
  by (rule dlist_prev) (simp add: forest_def)

end
