(* ===== verification/AllocPage.thy ===== *)
theory AllocPage
  imports LinkedList CString Bitops
begin

text \<open>
  \<open>lib/alloc_page.c\<close> and \<open>lib/alloc_page.h\<close>: the buddy allocator for physical pages, as
  configured for x86-64 (\<open>lib/x86/asm/memory_areas.h\<close>). Page frame numbers are natural
  numbers: \<open>_page_alloc_init_area\<close> asserts that every frame of an area is below \<open>2^52\<close>, so
  none of the sums below wraps. A free block is linked into its free list through its
  first page; the links of all lists form the heap \<open>links\<close>, whose nodes are the list
  heads inside \<open>areas\<close> and the pages. The state of the lock is not modelled: the code
  holds it over each of the operations below, which makes each one atomic.
\<close>

section \<open>Constants\<close>

definition NLISTS :: nat where "NLISTS = BITS_PER_LONG - PAGE_SHIFT"
definition MAX_AREAS :: nat where "MAX_AREAS = 4"

definition ORDER_MASK :: u8 where "ORDER_MASK = 0x3f"
definition STATUS_MASK :: u8 where "STATUS_MASK = 0xc0"
definition STATUS_FRESH :: u8 where "STATUS_FRESH = 0x00"
definition STATUS_FREE :: u8 where "STATUS_FREE = 0x40"
definition STATUS_ALLOCATED :: u8 where "STATUS_ALLOCATED = 0x80"
definition STATUS_SPECIAL :: u8 where "STATUS_SPECIAL = 0xc0"

definition IS_FRESH :: "u8 \<Rightarrow> bool" where
  "IS_FRESH x \<longleftrightarrow> x AND STATUS_MASK = STATUS_FRESH"
definition IS_FREE :: "u8 \<Rightarrow> bool" where
  "IS_FREE x \<longleftrightarrow> x AND STATUS_MASK = STATUS_FREE"
definition IS_ALLOCATED :: "u8 \<Rightarrow> bool" where
  "IS_ALLOCATED x \<longleftrightarrow> x AND STATUS_MASK = STATUS_ALLOCATED"
definition IS_SPECIAL :: "u8 \<Rightarrow> bool" where
  "IS_SPECIAL x \<longleftrightarrow> x AND STATUS_MASK = STATUS_SPECIAL"
definition IS_USABLE :: "u8 \<Rightarrow> bool" where
  "IS_USABLE x \<longleftrightarrow> IS_FREE x \<or> IS_FRESH x"

text \<open>The order stored in a metadata byte.\<close>

definition order_of :: "u8 \<Rightarrow> nat" where
  "order_of x = unat (x AND ORDER_MASK)"

definition IS_ALIGNED_ORDER :: "nat \<Rightarrow> nat \<Rightarrow> bool" where
  "IS_ALIGNED_ORDER x order \<longleftrightarrow> x mod 2 ^ order = 0"

text \<open>The areas of the x86 configuration and the flags of \<open>alloc_page.h\<close>.\<close>

definition AREA_NORMAL_PFN :: nat where "AREA_NORMAL_PFN = 2 ^ (36 - 12)"
definition AREA_NORMAL_NUMBER :: nat where "AREA_NORMAL_NUMBER = 0"
definition AREA_HIGH_PFN :: nat where "AREA_HIGH_PFN = 2 ^ (32 - 12)"
definition AREA_HIGH_NUMBER :: nat where "AREA_HIGH_NUMBER = 1"
definition AREA_LOW_PFN :: nat where "AREA_LOW_PFN = 2 ^ (24 - 12)"
definition AREA_LOW_NUMBER :: nat where "AREA_LOW_NUMBER = 2"
definition AREA_LOWEST_PFN :: nat where "AREA_LOWEST_PFN = 0"
definition AREA_LOWEST_NUMBER :: nat where "AREA_LOWEST_NUMBER = 3"
definition AREA_ANY_NUMBER :: nat where "AREA_ANY_NUMBER = 0xff"

definition AREA_ANY :: u32 where "AREA_ANY = 0"
definition AREA_MASK :: u32 where "AREA_MASK = 0x0ffff"
definition FLAG_DONTZERO :: u32 where "FLAG_DONTZERO = 0x10000"
definition FLAG_FRESH :: u32 where "FLAG_FRESH = 0x20000"

section \<open>State\<close>

text \<open>A node of a free list: the head of list \<open>order\<close> of area \<open>n\<close>, or a page.\<close>

datatype lptr = LHead nat nat | LPage nat

record mem_area =
  base :: nat
  top :: nat
  page_states_pfn :: nat
  page_states :: "u8 list"
  max_order :: nat

text \<open>
  \<open>struct mem_area *a\<close> is the index of the area together with its value; the operations on
  one area pass the value and the links.
\<close>

type_synonym area_state = "mem_area \<times> lptr lheap"

text \<open>
  The allocator: the area descriptors, the mask of initialised areas, the links of the
  free lists and the bytes of physical memory outside the links and the metadata.
\<close>

record alloc_state =
  areas :: "mem_area list"
  areas_mask :: u32
  links :: "lptr lheap"
  contents :: "nat \<Rightarrow> u8"

definition page_alloc_initialized :: "alloc_state \<Rightarrow> bool" where
  "page_alloc_initialized st \<longleftrightarrow> areas_mask st \<noteq> 0"

definition area_contains_pfn :: "mem_area \<Rightarrow> nat \<Rightarrow> bool" where
  "area_contains_pfn a pfn \<longleftrightarrow> pfn \<ge> page_states_pfn a \<and> pfn < top a"

definition usable_area_contains_pfn :: "mem_area \<Rightarrow> nat \<Rightarrow> bool" where
  "usable_area_contains_pfn a pfn \<longleftrightarrow> pfn \<ge> base a \<and> pfn < top a"

text \<open>\<open>virt_to_pfn\<close> of a list node; the code never applies it to a list head.\<close>

definition virt_to_pfn :: "lptr \<Rightarrow> nat res" where
  "virt_to_pfn p = (case p of LHead _ _ \<Rightarrow> Inl Fault | LPage pfn \<Rightarrow> Inr pfn)"

text \<open>The index \<open>pfn - a->base\<close> of a page in \<open>page_states\<close>.\<close>

definition page_index :: "mem_area \<Rightarrow> nat \<Rightarrow> nat res" where
  "page_index a pfn = (if base a \<le> pfn then Inr (pfn - base a) else Inl Fault)"

section \<open>Splitting and allocating blocks\<close>

text \<open>
  The loop, in \<open>split\<close>, \<open>coalesce\<close> and \<open>_free_pages\<close>, that asserts the old value of \<open>k\<close>
  consecutive metadata entries and stores the new one.
\<close>

fun check_and_set :: "nat \<Rightarrow> nat \<Rightarrow> u8 \<Rightarrow> u8 \<Rightarrow> u8 list \<Rightarrow> u8 list res" where
  "check_and_set 0 p old new xs = Inr xs"
| "check_and_set (Suc k) p old new xs =
     bind_res (arr_get xs p) (\<lambda>v. require (v = old)
       (bind_res (arr_set xs p new) (\<lambda>xs'. check_and_set k (p + 1) old new xs')))"

definition split :: "nat \<Rightarrow> area_state \<Rightarrow> lptr \<Rightarrow> area_state res" where
  "split n s addr =
     (let (a, h) = s in
      bind_res (virt_to_pfn addr) (\<lambda>pfn.
      require (usable_area_contains_pfn a pfn)
      (let idx = pfn - base a in
       bind_res (arr_get (page_states a) idx) (\<lambda>metadata.
       let order = order_of metadata in
       require (IS_USABLE metadata \<and> order \<noteq> 0 \<and> order < NLISTS)
       (require (IS_ALIGNED_ORDER pfn order)
       (require (usable_area_contains_pfn a (pfn + 2 ^ order - 1))
       (bind_res (list_remove h addr) (\<lambda>(_, h1).
        bind_res (check_and_set (2 ^ order) idx metadata (metadata - 1) (page_states a)) (\<lambda>ps.
        let mo = (if order = max_order a \<and> is_list_empty h1 (LHead n order)
                  then max_order a - 1 else max_order a);
            a' = a\<lparr>page_states := ps, max_order := mo\<rparr>;
            order' = order - 1;
            buddy = LPage (pfn + 2 ^ order')
        in if IS_FRESH metadata
           then bind_res (list_add_tail h1 (Some (LHead n order')) (Some addr)) (\<lambda>h2.
                bind_res (list_add_tail h2 (Some (LHead n order')) (Some buddy)) (\<lambda>h3.
                Inr (a', h3)))
           else bind_res (list_add h1 (Some (LHead n order')) (Some addr)) (\<lambda>h2.
                bind_res (list_add h2 (Some (LHead n order')) (Some buddy)) (\<lambda>h3.
                Inr (a', h3))))))))))))"

text \<open>
  The search of \<open>page_memalign_order\<close> over the free lists from \<open>order\<close> up to \<open>max_order\<close>:
  the order found, the block and its index in \<open>page_states\<close>.
\<close>

function find_order :: "nat \<Rightarrow> area_state \<Rightarrow> bool \<Rightarrow> nat \<Rightarrow> (nat \<times> lptr \<times> nat) option res" where
  "find_order n s fresh order =
     (let (a, h) = s in
      if order \<le> max_order a then
        defined (order < NLISTS)
        (bind_res (deref (if fresh then prev (h (LHead n order)) else nxt (h (LHead n order)))) (\<lambda>p.
          if is_list_empty h p then find_order n s fresh (order + 1)
          else bind_res (virt_to_pfn p) (\<lambda>pfn. bind_res (page_index a pfn) (\<lambda>idx.
            if fresh then
              bind_res (arr_get (page_states a) idx) (\<lambda>v.
                if \<not> IS_FRESH v then find_order n s fresh (order + 1)
                else Inr (Some (order, p, idx)))
            else Inr (Some (order, p, idx))))))
      else Inr None)"
  by pat_completeness auto
termination
  by (relation "measure (\<lambda>(n, s, fresh, order). Suc (max_order (fst s)) - order)") auto

text \<open>\<open>for (; order > sz; order--) split(a, p)\<close>\<close>

function split_to :: "nat \<Rightarrow> nat \<Rightarrow> lptr \<Rightarrow> nat \<Rightarrow> area_state \<Rightarrow> area_state res" where
  "split_to n sz p order s =
     (if order > sz then bind_res (split n s p) (\<lambda>s'. split_to n sz p (order - 1) s') else Inr s)"
  by pat_completeness auto
termination
  by (relation "measure (\<lambda>(n, sz, p, order, s). order)") auto

declare find_order.simps [simp del] split_to.simps [simp del]

text \<open>
  The last step of \<open>page_memalign_order\<close>, from \<open>list_remove(p)\<close> on. \<open>order\<close> is a \<open>u8\<close>:
  \<open>order--\<close> wraps at 0 to 255, where neither \<open>BIT(order)\<close> nor \<open>freelists[order]\<close> is defined.
\<close>

definition take_block ::
  "nat \<Rightarrow> area_state \<Rightarrow> nat \<Rightarrow> lptr \<Rightarrow> nat \<Rightarrow> bool \<Rightarrow> (lptr option \<times> area_state) res" where
  "take_block n s order p idx fresh =
     (let (a, h) = s in
      bind_res (list_remove h p) (\<lambda>(_, h1).
      bind_res
        (if fresh then
           let order' = (order + 255) mod 256 in
           defined (order' < NLISTS)
             (bind_res (memset (page_states a) idx (STATUS_FRESH OR of_nat order') (2 ^ order')) (\<lambda>ps.
              bind_res (list_add_tail h1 (Some (LHead n order')) (Some p)) (\<lambda>h2.
              let idx' = idx + 2 ^ order' in
              Inr (order', idx', LPage (base a + idx'), a\<lparr>page_states := ps\<rparr>, h2))))
         else Inr (order, idx, p, a, h1)) (\<lambda>(ord, idx', p', a', h').
      bind_res (memset (page_states a') idx' (STATUS_ALLOCATED OR of_nat ord) (2 ^ ord)) (\<lambda>ps.
      Inr (Some p', a'\<lparr>page_states := ps\<rparr>, h')))))"

definition page_memalign_order ::
  "nat \<Rightarrow> area_state \<Rightarrow> nat \<Rightarrow> nat \<Rightarrow> bool \<Rightarrow> (lptr option \<times> area_state) res" where
  "page_memalign_order n s al sz fresh =
     require (al < NLISTS \<and> sz < NLISTS)
       (let order = (if sz > al then sz else al) + (if fresh then 1 else 0) in
        bind_res (find_order n s fresh order) (\<lambda>r. case r of
          None \<Rightarrow> Inr (None, s)
        | Some (order', p, idx) \<Rightarrow>
            bind_res (split_to n sz p order' s) (\<lambda>s'.
              take_block n s' (if order' > sz then sz else order') p idx fresh)))"

section \<open>Freeing blocks\<close>

definition get_area :: "alloc_state \<Rightarrow> nat \<Rightarrow> nat option" where
  "get_area st pfn =
     find (\<lambda>i. bit (areas_mask st) i \<and> usable_area_contains_pfn (areas st ! i) pfn) [0..<MAX_AREAS]"

definition coalesce ::
  "nat \<Rightarrow> area_state \<Rightarrow> nat \<Rightarrow> nat \<Rightarrow> nat \<Rightarrow> (bool \<times> area_state) res" where
  "coalesce n s order pfn pfn2 =
     (let (a, h) = s in
      require (IS_ALIGNED_ORDER pfn order \<and> IS_ALIGNED_ORDER pfn2 order)
      (require (pfn2 = pfn + 2 ^ order)
      (if \<not> usable_area_contains_pfn a pfn \<or> \<not> usable_area_contains_pfn a (pfn2 + 2 ^ order - 1)
       then Inr (False, s)
       else
       let first = pfn - base a; second = pfn2 - base a in
       bind_res (arr_get (page_states a) first) (\<lambda>v1.
       bind_res (arr_get (page_states a) second) (\<lambda>v2.
       if v1 \<noteq> of_nat order \<or> v2 \<noteq> of_nat order then Inr (False, s)
       else
       bind_res (list_remove h (LPage pfn2)) (\<lambda>(_, h1).
       bind_res (list_remove h1 (LPage pfn)) (\<lambda>(_, h2).
       bind_res (check_and_set (2 * 2 ^ order) first (of_nat order) (of_nat (order + 1)) (page_states a)) (\<lambda>ps.
       defined (order + 1 < NLISTS)
       (bind_res (list_add h2 (Some (LHead n (order + 1))) (Some (LPage pfn))) (\<lambda>h3.
        Inr (True, a\<lparr>page_states := ps,
                     max_order := (if order + 1 > max_order a then order + 1 else max_order a)\<rparr>, h3)))))))))))"

text \<open>
  The \<open>do ... while\<close> loop of \<open>_free_pages\<close>; \<open>p\<close> keeps pointing at the page that was freed.
  A successful \<open>coalesce\<close> increments the order stored there, so the loop runs at most
  \<open>NLISTS\<close> times.
\<close>

fun coalesce_loop :: "nat \<Rightarrow> nat \<Rightarrow> nat \<Rightarrow> nat \<Rightarrow> area_state \<Rightarrow> area_state res" where
  "coalesce_loop 0 n p pfn s = Inl NoFuel"
| "coalesce_loop (Suc fuel) n p pfn s =
     bind_res (arr_get (page_states (fst s)) p) (\<lambda>v.
       let order = order_of v;
           pfn' = (if \<not> IS_ALIGNED_ORDER pfn (order + 1) then pfn - 2 ^ order else pfn);
           pfn2 = pfn' + 2 ^ order
       in bind_res (coalesce n s order pfn' pfn2) (\<lambda>(again, s').
            if again then coalesce_loop fuel n p pfn' s' else Inr s'))"

text \<open>The part of \<open>_free_pages\<close> that works on the area the pointer belongs to.\<close>

definition free_block :: "nat \<Rightarrow> area_state \<Rightarrow> nat \<Rightarrow> area_state res" where
  "free_block n s pfn =
     (let (a, h) = s; p = pfn - base a in
      bind_res (arr_get (page_states a) p) (\<lambda>v.
      let order = order_of v in
      require (IS_ALLOCATED v)
      (require (order < NLISTS)
      (require (IS_ALIGNED_ORDER pfn order)
      (require (usable_area_contains_pfn a (pfn + 2 ^ order - 1))
      (bind_res (check_and_set (2 ^ order) p (STATUS_ALLOCATED OR of_nat order)
                   (STATUS_FREE OR of_nat order) (page_states a)) (\<lambda>ps.
       bind_res (list_add h (Some (LHead n order)) (Some (LPage pfn))) (\<lambda>h'.
       coalesce_loop NLISTS n p pfn (a\<lparr>page_states := ps\<rparr>, h')))))))))"

definition put_area :: "alloc_state \<Rightarrow> nat \<Rightarrow> area_state \<Rightarrow> alloc_state" where
  "put_area st n s = st\<lparr>areas := (areas st)[n := fst s], links := snd s\<rparr>"

definition on_area :: "alloc_state \<Rightarrow> nat \<Rightarrow> area_state" where
  "on_area st n = (areas st ! n, links st)"

text \<open>\<open>mem\<close> is a virtual address, 0 the null pointer.\<close>

definition free_pages :: "alloc_state \<Rightarrow> nat \<Rightarrow> alloc_state res" where
  "free_pages st mem =
     (if mem = 0 then Inr st
      else require (mem mod PAGE_SIZE = 0)
        (let pfn = mem div PAGE_SIZE in
         case get_area st pfn of
           None \<Rightarrow> Inl AssertFail
         | Some n \<Rightarrow> bind_res (free_block n (on_area st n) pfn) (\<lambda>s. Inr (put_area st n s))))"

definition free_page :: "alloc_state \<Rightarrow> nat \<Rightarrow> alloc_state res" where
  "free_page st page = free_pages st page"

definition free_pages_by_order :: "alloc_state \<Rightarrow> nat \<Rightarrow> nat \<Rightarrow> alloc_state res" where
  "free_pages_by_order st mem order = free_pages st mem"

section \<open>Reserving pages\<close>

text \<open>
  \<open>while (a->page_states[i]) split(a, pfn_to_virt(pfn & mask))\<close>; each split decrements the
  byte, which is below 256.
\<close>

fun reserve_split :: "nat \<Rightarrow> nat \<Rightarrow> nat \<Rightarrow> nat \<Rightarrow> area_state \<Rightarrow> area_state res" where
  "reserve_split 0 n i pfn s = Inl NoFuel"
| "reserve_split (Suc fuel) n i pfn s =
     bind_res (arr_get (page_states (fst s)) i) (\<lambda>v.
       if v = 0 then Inr s
       else defined (unat v < 64)
         (let msk = GENMASK_ULL 63 (unat v) in
          bind_res (split n s (LPage (unat ((of_nat pfn :: u64) AND msk)))) (\<lambda>s'.
            reserve_split fuel n i pfn s')))"

text \<open>The result is 0 or \<open>-1\<close>.\<close>

definition reserve_one_page :: "alloc_state \<Rightarrow> nat \<Rightarrow> (int \<times> alloc_state) res" where
  "reserve_one_page st pfn =
     (case get_area st pfn of
        None \<Rightarrow> Inr (-1, st)
      | Some n \<Rightarrow>
          (let a = areas st ! n; i = pfn - base a in
           bind_res (arr_get (page_states a) i) (\<lambda>v.
             if \<not> IS_USABLE v then Inr (-1, st)
             else bind_res (reserve_split 256 n i pfn (on_area st n)) (\<lambda>(a', h').
               bind_res (arr_set (page_states a') i STATUS_SPECIAL) (\<lambda>ps.
                 Inr (0, put_area st n (a'\<lparr>page_states := ps\<rparr>, h')))))))"

definition unreserve_one_page :: "alloc_state \<Rightarrow> nat \<Rightarrow> alloc_state res" where
  "unreserve_one_page st pfn =
     (case get_area st pfn of
        None \<Rightarrow> Inl AssertFail
      | Some n \<Rightarrow>
          (let a = areas st ! n; i = pfn - base a in
           bind_res (arr_get (page_states a) i) (\<lambda>v.
             require (v = STATUS_SPECIAL)
               (bind_res (arr_set (page_states a) i STATUS_ALLOCATED) (\<lambda>ps.
                 free_pages (put_area st n (a\<lparr>page_states := ps\<rparr>, links st)) (pfn * PAGE_SIZE))))))"

text \<open>The two loops of \<open>reserve_pages\<close>: the first returns how many pages it reserved.\<close>

fun reserve_loop :: "nat \<Rightarrow> nat \<Rightarrow> alloc_state \<Rightarrow> (nat \<times> alloc_state) res" where
  "reserve_loop 0 pfn st = Inr (0, st)"
| "reserve_loop (Suc k) pfn st =
     bind_res (reserve_one_page st pfn) (\<lambda>(r, st').
       if r \<noteq> 0 then Inr (0, st')
       else bind_res (reserve_loop k (pfn + 1) st') (\<lambda>(i, st''). Inr (i + 1, st'')))"

fun unreserve_loop :: "nat \<Rightarrow> nat \<Rightarrow> alloc_state \<Rightarrow> alloc_state res" where
  "unreserve_loop 0 pfn st = Inr st"
| "unreserve_loop (Suc k) pfn st =
     bind_res (unreserve_one_page st pfn) (\<lambda>st'. unreserve_loop k (pfn + 1) st')"

definition reserve_pages :: "alloc_state \<Rightarrow> nat \<Rightarrow> nat \<Rightarrow> (int \<times> alloc_state) res" where
  "reserve_pages st addr n =
     require (addr mod PAGE_SIZE = 0)
       (let pfn = addr div PAGE_SIZE in
        bind_res (reserve_loop n pfn st) (\<lambda>(i, st1).
        bind_res (if i < n then bind_res (unreserve_loop i pfn st1) (\<lambda>st2. Inr (0, st2))
                  else Inr (n, st1)) (\<lambda>(n', st2).
        Inr (if n' = 0 then -1 else 0, st2))))"

definition unreserve_pages :: "alloc_state \<Rightarrow> nat \<Rightarrow> nat \<Rightarrow> alloc_state res" where
  "unreserve_pages st addr n =
     require (addr mod PAGE_SIZE = 0) (unreserve_loop n (addr div PAGE_SIZE) st)"

section \<open>The allocation interface\<close>

text \<open>\<open>memset(res, 0, BIT(ord) * PAGE_SIZE)\<close>: clears the pages and the links they hold.\<close>

definition zero_pages :: "alloc_state \<Rightarrow> nat \<Rightarrow> nat \<Rightarrow> alloc_state" where
  "zero_pages st pfn k =
     st\<lparr>links := (\<lambda>p. case p of
                    LPage q \<Rightarrow> if pfn \<le> q \<and> q < pfn + k then \<lparr>prev = None, nxt = None\<rparr> else links st p
                  | LHead _ _ \<Rightarrow> links st p),
        contents := (\<lambda>x. if pfn * PAGE_SIZE \<le> x \<and> x < (pfn + k) * PAGE_SIZE then 0 else contents st x)\<rparr>"

text \<open>\<open>for (i = 0; !res && (i < MAX_AREAS); i++)\<close> over the areas selected by the flags.\<close>

fun alloc_from ::
  "nat list \<Rightarrow> u32 \<Rightarrow> nat \<Rightarrow> nat \<Rightarrow> bool \<Rightarrow> alloc_state \<Rightarrow> (lptr option \<times> alloc_state) res" where
  "alloc_from [] area al ord fresh st = Inr (None, st)"
| "alloc_from (i # is) area al ord fresh st =
     (if bit area i then
        bind_res (page_memalign_order i (on_area st i) al ord fresh) (\<lambda>(r, s).
          case r of
            Some p \<Rightarrow> Inr (Some p, put_area st i s)
          | None \<Rightarrow> alloc_from is area al ord fresh (put_area st i s))
      else alloc_from is area al ord fresh st)"

text \<open>The result is the virtual address of the block, 0 for the null pointer.\<close>

definition page_memalign_order_flags ::
  "alloc_state \<Rightarrow> nat \<Rightarrow> nat \<Rightarrow> u32 \<Rightarrow> (nat \<times> alloc_state) res" where
  "page_memalign_order_flags st al ord flags =
     (let fresh = (flags AND FLAG_FRESH \<noteq> 0);
          area = (if flags AND AREA_MASK \<noteq> 0 then flags AND areas_mask st else areas_mask st)
      in bind_res (alloc_from [0..<MAX_AREAS] area al ord fresh st) (\<lambda>(r, st').
         case r of
           None \<Rightarrow> Inr (0, st')
         | Some p \<Rightarrow> bind_res (virt_to_pfn p) (\<lambda>pfn.
             Inr (pfn * PAGE_SIZE,
                  if flags AND FLAG_DONTZERO = 0 then zero_pages st' pfn (2 ^ ord) else st'))))"

text \<open>\<open>order\<close> is truncated to the \<open>u8\<close> parameters of \<open>page_memalign_order_flags\<close>.\<close>

definition alloc_pages_flags :: "alloc_state \<Rightarrow> nat \<Rightarrow> u32 \<Rightarrow> (nat \<times> alloc_state) res" where
  "alloc_pages_flags st order flags =
     page_memalign_order_flags st (order mod 256) (order mod 256) flags"

definition alloc_pages :: "alloc_state \<Rightarrow> nat \<Rightarrow> (nat \<times> alloc_state) res" where
  "alloc_pages st order = alloc_pages_flags st order AREA_ANY"

definition alloc_page :: "alloc_state \<Rightarrow> (nat \<times> alloc_state) res" where
  "alloc_page st = alloc_pages st 0"

definition memalign_pages_flags :: "alloc_state \<Rightarrow> u64 \<Rightarrow> u64 \<Rightarrow> u32 \<Rightarrow> (nat \<times> alloc_state) res" where
  "memalign_pages_flags st alignment sz flags =
     require (is_power_of_2 alignment)
       (let al = get_order (drop_bit PAGE_SHIFT (PAGE_ALIGN alignment));
            so = get_order (drop_bit PAGE_SHIFT (PAGE_ALIGN sz)) in
        require (al < NLISTS) (require (so < NLISTS)
          (page_memalign_order_flags st al so flags)))"

definition memalign_pages :: "alloc_state \<Rightarrow> u64 \<Rightarrow> u64 \<Rightarrow> (nat \<times> alloc_state) res" where
  "memalign_pages st alignment sz = memalign_pages_flags st alignment sz AREA_ANY"

section \<open>Adding memory areas\<close>

text \<open>\<open>while (i + BIT(order) > a->top) { assert(order); order--; }\<close>\<close>

fun init_shrink :: "nat \<Rightarrow> nat \<Rightarrow> nat \<Rightarrow> nat res" where
  "init_shrink i t 0 = (if i + 2 ^ 0 > t then Inl AssertFail else Inr 0)"
| "init_shrink i t (Suc k) = (if i + 2 ^ Suc k > t then init_shrink i t k else Inr (Suc k))"

text \<open>\<open>while (IS_ALIGNED_ORDER(i, order + 1) && (i + BIT(order + 1) <= a->top)) order++;\<close>\<close>

lemma init_grow_decreases: "i + 2 ^ (order + 1) \<le> t \<Longrightarrow> t - (order + 1) < t - (order::nat)"
  using less_le_trans[OF less_exp[of "order + 1"], of t] by linarith

function init_grow :: "nat \<Rightarrow> nat \<Rightarrow> nat \<Rightarrow> nat" where
  "init_grow i t order =
     (if IS_ALIGNED_ORDER i (order + 1) \<and> i + 2 ^ (order + 1) \<le> t then init_grow i t (order + 1) else order)"
  by pat_completeness auto
termination
  by (relation "measure (\<lambda>(i, t, order). t - order)") (blast, simp only: in_measure prod.case, elim conjE, rule init_grow_decreases)

declare init_shrink.simps [simp del] init_grow.simps [simp del]

text \<open>The loop that carves the area into the largest aligned blocks, from \<open>i\<close> up to \<open>top\<close>.\<close>

function init_blocks :: "nat \<Rightarrow> nat \<Rightarrow> nat \<Rightarrow> area_state \<Rightarrow> area_state res" where
  "init_blocks n i order s =
     (let (a, h) = s in
      if i < top a then
        bind_res (init_shrink i (top a) order) (\<lambda>order1.
        let order2 = init_grow i (top a) order1 in
        require (order2 < NLISTS)
        (bind_res (memset (page_states a) (i - base a) (STATUS_FRESH OR of_nat order2) (2 ^ order2)) (\<lambda>ps.
         bind_res (list_add h (Some (LHead n order2)) (Some (LPage i))) (\<lambda>h'.
         init_blocks n (i + 2 ^ order2) order2
           (a\<lparr>page_states := ps,
              max_order := (if order2 > max_order a then order2 else max_order a)\<rparr>, h')))))
      else Inr s)"
  by pat_completeness auto
termination
  by (relation "measure (\<lambda>(n, i, order, s). top (fst s) - i)") (auto intro!: diff_less_mono2)

declare init_blocks.simps [simp del]

text \<open>The empty free lists of area \<open>n\<close>.\<close>

definition init_freelists :: "nat \<Rightarrow> lptr lheap \<Rightarrow> lptr lheap" where
  "init_freelists n h = (\<lambda>p. case p of
     LHead m k \<Rightarrow> if m = n \<and> k < NLISTS then \<lparr>prev = Some p, nxt = Some p\<rparr> else h p
   | LPage _ \<Rightarrow> h p)"

text \<open>
  The overlap checks, against the areas in use; the area being added is already written.
\<close>

definition no_overlap :: "alloc_state \<Rightarrow> mem_area \<Rightarrow> nat \<Rightarrow> nat \<Rightarrow> bool" where
  "no_overlap st a start_pfn top_pfn \<longleftrightarrow>
     (\<forall>i \<in> set [0..<MAX_AREAS]. bit (areas_mask st) i \<longrightarrow>
        \<not> area_contains_pfn (areas st ! i) start_pfn \<and>
        \<not> area_contains_pfn (areas st ! i) (top_pfn - 1) \<and>
        \<not> area_contains_pfn a (page_states_pfn (areas st ! i)) \<and>
        \<not> area_contains_pfn a (top (areas st ! i) - 1))"

definition init_table_size :: "nat \<Rightarrow> nat \<Rightarrow> nat" where
  "init_table_size start_pfn top_pfn = (top_pfn - start_pfn + PAGE_SIZE) div (PAGE_SIZE + 1)"

text \<open>The descriptor of a new area; the metadata bytes are those that memory held before.\<close>

definition new_area :: "alloc_state \<Rightarrow> nat \<Rightarrow> nat \<Rightarrow> mem_area" where
  "new_area st start_pfn top_pfn =
     (let b = start_pfn + init_table_size start_pfn top_pfn in
      \<lparr>base = b, top = top_pfn, page_states_pfn = start_pfn,
       page_states = map (\<lambda>k. contents st (start_pfn * PAGE_SIZE + k)) [0..<top_pfn - b],
       max_order = 0\<rparr>)"

definition page_alloc_init_area_locked ::
  "alloc_state \<Rightarrow> nat \<Rightarrow> nat \<Rightarrow> nat \<Rightarrow> alloc_state res" where
  "page_alloc_init_area_locked st n start_pfn top_pfn =
     require (n < MAX_AREAS)
     (require (\<not> bit (areas_mask st) n)
     (require (top_pfn > start_pfn)
     (require (top_pfn - start_pfn > 4)
     (require (top_pfn < 2 ^ (BITS_PER_LONG - PAGE_SHIFT))
     (let a = new_area st start_pfn top_pfn; npages = top_pfn - base a in
      require ((base a - start_pfn) * PAGE_SIZE \<ge> npages)
      (require (no_overlap st a start_pfn top_pfn)
      (bind_res (init_blocks n (base a) 0 (a, init_freelists n (links st))) (\<lambda>s.
       let st' = put_area st n s in
       Inr (st'\<lparr>areas_mask := areas_mask st OR push_bit n 1\<rparr>)))))))))"

text \<open>The result includes the new value of \<open>*top_pfn\<close>.\<close>

definition page_alloc_init_area_cutoff ::
  "alloc_state \<Rightarrow> nat \<Rightarrow> nat \<Rightarrow> nat \<Rightarrow> nat \<Rightarrow> (nat \<times> alloc_state) res" where
  "page_alloc_init_area_cutoff st n cutoff base_pfn top_pfn =
     (if top_pfn > cutoff then
        if base_pfn \<ge> cutoff then
          bind_res (page_alloc_init_area_locked st n base_pfn top_pfn) (\<lambda>st'. Inr (0, st'))
        else
          bind_res (page_alloc_init_area_locked st n cutoff top_pfn) (\<lambda>st'. Inr (cutoff, st'))
      else Inr (top_pfn, st))"

definition page_alloc_init_area :: "alloc_state \<Rightarrow> nat \<Rightarrow> nat \<Rightarrow> nat \<Rightarrow> alloc_state res" where
  "page_alloc_init_area st n base_pfn top_pfn =
     (if n \<noteq> AREA_ANY_NUMBER then
        bind_res (page_alloc_init_area_cutoff st n 0 base_pfn top_pfn) (\<lambda>(_, st'). Inr st')
      else
        bind_res (page_alloc_init_area_cutoff st AREA_HIGH_NUMBER AREA_HIGH_PFN base_pfn top_pfn) (\<lambda>(t1, st1).
        bind_res (page_alloc_init_area_cutoff st1 AREA_NORMAL_NUMBER AREA_NORMAL_PFN base_pfn t1) (\<lambda>(t2, st2).
        bind_res (page_alloc_init_area_cutoff st2 AREA_LOW_NUMBER AREA_LOW_PFN base_pfn t2) (\<lambda>(t3, st3).
        bind_res (page_alloc_init_area_cutoff st3 AREA_LOWEST_NUMBER AREA_LOWEST_PFN base_pfn t3) (\<lambda>(_, st4).
        Inr st4)))))"

end
