(* ===== verification/AllocPageInv.thy ===== *)
theory AllocPageInv
  imports AllocPage
begin

text \<open>
  The invariant of one memory area of the page allocator and its preservation by the
  operations of \<open>lib/alloc_page.c\<close> that split, allocate, coalesce and free blocks. The
  metadata part (\<open>area_ok\<close>) speaks of sets of page frames; the links part (\<open>area_inv\<close>) uses
  the list contract of LinkedList.
\<close>

section \<open>Metadata bytes\<close>

text \<open>The status of a page that may be handed out.\<close>

definition usable_status :: "u8 \<Rightarrow> bool" where
  "usable_status s \<longleftrightarrow> s = STATUS_FRESH \<or> s = STATUS_FREE"

lemmas status_defs = STATUS_FRESH_def STATUS_FREE_def STATUS_ALLOCATED_def STATUS_SPECIAL_def
  STATUS_MASK_def ORDER_MASK_def

lemma NLISTS_eq: "NLISTS = 52"
  by (simp add: NLISTS_def BITS_PER_LONG_def PAGE_SHIFT_def)

lemma order_bits:
  assumes "k < 64"
  shows "(of_nat k :: u8) AND 0x3f = of_nat k" and "(of_nat k :: u8) AND 0xc0 = 0"
    and "unat (of_nat k :: u8) = k"
proof -
  have "take_bit 6 (of_nat k :: u8) = of_nat (take_bit 6 k)" by (simp add: take_bit_of_nat)
  also have "take_bit 6 k = k" using assms by (simp add: take_bit_eq_mod)
  finally show *: "(of_nat k :: u8) AND 0x3f = of_nat k"
    by (simp add: take_bit_eq_mask mask_eq_exp_minus_1)
  have "(of_nat k :: u8) AND 0xc0 = (of_nat k AND 0x3f) AND 0xc0" by (simp only: *)
  also have "\<dots> = of_nat k AND (0x3f AND 0xc0)" by (simp only: and.assoc)
  also have "\<dots> = 0" by simp
  finally show "(of_nat k :: u8) AND 0xc0 = 0" .
  show "unat (of_nat k :: u8) = k" using assms by (simp add: unat_of_nat take_bit_eq_mod)
qed

text \<open>A byte made of a status \<open>s\<close> and an order gives back both.\<close>

lemma meta_parts:
  assumes "k < 64" "s AND 0xc0 = s"
  shows "order_of (s OR of_nat k) = k" "(s OR of_nat k) AND STATUS_MASK = s"
    and "s AND of_nat k = 0"
proof -
  note w = order_bits[OF assms(1)]
  have "s AND 0x3f = (s AND 0xc0) AND 0x3f" by (simp only: assms(2))
  also have "\<dots> = s AND (0xc0 AND 0x3f)" by (simp only: and.assoc)
  finally have s: "s AND 0x3f = 0" by simp
  have "(s OR of_nat k) AND 0x3f = of_nat k"
    by (simp only: bit.conj_disj_distrib2 s w) simp
  then show "order_of (s OR of_nat k) = k" by (simp add: order_of_def ORDER_MASK_def w(3))
  show "(s OR of_nat k) AND STATUS_MASK = s"
    by (simp only: STATUS_MASK_def bit.conj_disj_distrib2 assms(2) w(2)) simp
  have "s AND of_nat k = s AND (of_nat k AND 0x3f)" by (simp only: w(1))
  also have "\<dots> = (s AND 0x3f) AND of_nat k" by (simp only: ac_simps)
  finally show "s AND of_nat k = 0" by (simp only: s) simp
qed

lemma usable_status_simps [simp]: "usable_status STATUS_FRESH" "usable_status STATUS_FREE"
  by (simp_all add: usable_status_def)

lemma usable_status_bits: "usable_status s \<Longrightarrow> s AND 0xc0 = s"
  by (auto simp: usable_status_def status_defs)

lemma status_neq [simp]:
  "STATUS_FRESH \<noteq> STATUS_FREE" "STATUS_ALLOCATED \<noteq> STATUS_FREE" "STATUS_ALLOCATED \<noteq> STATUS_FRESH"
  "STATUS_FREE \<noteq> STATUS_FRESH"
  by (simp_all add: status_defs)

lemma meta_order [simp]: "usable_status s \<Longrightarrow> k < 64 \<Longrightarrow> order_of (s OR of_nat k) = k"
  by (simp add: meta_parts usable_status_bits)

lemma meta_usable [simp]: "usable_status s \<Longrightarrow> k < 64 \<Longrightarrow> IS_USABLE (s OR of_nat k)"
  by (simp add: IS_USABLE_def IS_FREE_def IS_FRESH_def meta_parts usable_status_bits)
     (auto simp: usable_status_def)

lemma meta_fresh [simp]:
  "usable_status s \<Longrightarrow> k < 64 \<Longrightarrow> IS_FRESH (s OR of_nat k) \<longleftrightarrow> s = STATUS_FRESH"
  by (simp add: IS_FRESH_def meta_parts usable_status_bits)

lemma meta_pred:
  assumes "usable_status s" "k < 64" "k \<noteq> 0"
  shows "(s OR of_nat k) - 1 = s OR of_nat (k - 1)"
proof -
  have s: "s AND 0xc0 = s" using assms(1) by (rule usable_status_bits)
  have "s OR of_nat k = s + of_nat k" "s OR of_nat (k - 1) = s + of_nat (k - 1)"
    using meta_parts(3)[OF assms(2) s] meta_parts(3)[OF _ s, of "k - 1"] assms(2)
    by (simp_all add: disjunctive_add_eq_or)
  with assms(3) show ?thesis by simp
qed

lemma allocated_bits: "STATUS_ALLOCATED AND 0xc0 = STATUS_ALLOCATED"
  by (simp add: status_defs)

lemma allocated_order [simp]: "k < 64 \<Longrightarrow> order_of (STATUS_ALLOCATED OR of_nat k) = k"
  by (simp add: meta_parts allocated_bits)

lemma allocated_allocated [simp]: "k < 64 \<Longrightarrow> IS_ALLOCATED (STATUS_ALLOCATED OR of_nat k)"
  by (simp add: IS_ALLOCATED_def meta_parts allocated_bits)

lemma allocated_not_usable [simp]: "k < 64 \<Longrightarrow> \<not> IS_USABLE (STATUS_ALLOCATED OR of_nat k)"
  by (simp add: IS_USABLE_def IS_FREE_def IS_FRESH_def meta_parts allocated_bits)

lemma fresh_meta_eq: "STATUS_FRESH OR of_nat k = (of_nat k :: u8)"
  by (simp add: STATUS_FRESH_def)

lemma order_of_nat: "k < 64 \<Longrightarrow> order_of (of_nat k) = k"
  using meta_parts(1)[of k 0] by simp

lemma free_meta_neq:
  assumes "k < 64"
  shows "STATUS_FREE OR of_nat k \<noteq> (of_nat k :: u8)"
proof
  assume "STATUS_FREE OR of_nat k = (of_nat k :: u8)"
  then have "IS_FRESH (STATUS_FREE OR of_nat k) = IS_FRESH (STATUS_FRESH OR of_nat k)"
    by (simp only: fresh_meta_eq)
  with assms show False by simp
qed

section \<open>Blocks of an area\<close>

definition pstate :: "mem_area \<Rightarrow> nat \<Rightarrow> u8" where
  "pstate a q = page_states a ! (q - base a)"

text \<open>The \<open>2^k\<close> pages from \<open>pfn\<close> form an aligned block of the area, all with metadata \<open>v\<close>.\<close>

definition block_state :: "mem_area \<Rightarrow> nat \<Rightarrow> nat \<Rightarrow> u8 \<Rightarrow> bool" where
  "block_state a pfn k v \<longleftrightarrow> base a \<le> pfn \<and> pfn + 2 ^ k \<le> top a \<and> pfn mod 2 ^ k = 0 \<and>
     (\<forall>q. pfn \<le> q \<and> q < pfn + 2 ^ k \<longrightarrow> pstate a q = v)"

definition is_free_block :: "mem_area \<Rightarrow> nat \<Rightarrow> nat \<Rightarrow> bool" where
  "is_free_block a pfn k \<longleftrightarrow> k < NLISTS \<and> (\<exists>s. usable_status s \<and> block_state a pfn k (s OR of_nat k))"

text \<open>The page frames the allocator may hand out.\<close>

definition usable_pfns :: "mem_area \<Rightarrow> nat set" where
  "usable_pfns a = {q. base a \<le> q \<and> q < top a \<and> IS_USABLE (pstate a q)}"

text \<open>
  The metadata of an area and the sets \<open>L k\<close> of first pages of the blocks on free list \<open>k\<close>:
  a listed block is aligned, inside the area, and every one of its pages carries a usable
  status and the order of the block; every usable page is in a listed block.
\<close>

definition area_shape :: "mem_area \<Rightarrow> bool" where
  "area_shape a \<longleftrightarrow> base a \<le> top a \<and> top a < 2 ^ NLISTS \<and> length (page_states a) = top a - base a \<and>
     max_order a < NLISTS"

definition area_ok :: "mem_area \<Rightarrow> (nat \<Rightarrow> nat set) \<Rightarrow> bool" where
  "area_ok a L \<longleftrightarrow> area_shape a \<and>
     (\<forall>k < NLISTS. \<forall>pfn \<in> L k. is_free_block a pfn k) \<and>
     (\<forall>q \<in> usable_pfns a. \<exists>k < NLISTS. \<exists>pfn \<in> L k. pfn \<le> q \<and> q < pfn + 2 ^ k)"

text \<open>Only the metadata of the pages of \<open>S\<close> may differ.\<close>

definition same_off :: "nat set \<Rightarrow> mem_area \<Rightarrow> mem_area \<Rightarrow> bool" where
  "same_off S a a' \<longleftrightarrow> base a' = base a \<and> top a' = top a \<and> page_states_pfn a' = page_states_pfn a \<and>
     length (page_states a') = length (page_states a) \<and>
     (\<forall>q. base a \<le> q \<and> q < top a \<and> q \<notin> S \<longrightarrow> pstate a' q = pstate a q)"

lemma same_off_refl [simp]: "same_off S a a"
  by (simp add: same_off_def)

lemma same_off_trans: "same_off S a b \<Longrightarrow> same_off S b c \<Longrightarrow> same_off S a c"
  by (simp add: same_off_def)

lemma same_off_mono: "same_off S a b \<Longrightarrow> S \<subseteq> T \<Longrightarrow> same_off T a b"
  by (auto simp: same_off_def)

lemma same_off_max_order [simp]: "same_off S a (b\<lparr>max_order := m\<rparr>) = same_off S a b"
  by (simp add: same_off_def pstate_def)

lemma pstate_max_order [simp]: "pstate (a\<lparr>max_order := m\<rparr>) q = pstate a q"
  by (simp add: pstate_def)

lemma block_state_max_order [simp]: "block_state (a\<lparr>max_order := m\<rparr>) p k v = block_state a p k v"
  by (simp add: block_state_def)

lemma is_free_block_max_order [simp]: "is_free_block (a\<lparr>max_order := m\<rparr>) p k = is_free_block a p k"
  by (simp add: is_free_block_def)

lemma usable_pfns_max_order [simp]: "usable_pfns (a\<lparr>max_order := m\<rparr>) = usable_pfns a"
  by (simp add: usable_pfns_def)

lemma area_ok_max_order:
  "area_ok a L \<Longrightarrow> m < NLISTS \<Longrightarrow> area_ok (a\<lparr>max_order := m\<rparr>) L"
  by (simp add: area_ok_def area_shape_def)

text \<open>Writing the same byte over a range of pages.\<close>

definition set_pages :: "nat \<Rightarrow> nat \<Rightarrow> u8 \<Rightarrow> mem_area \<Rightarrow> mem_area" where
  "set_pages pfn n v a = a\<lparr>page_states := fill (pfn - base a) n v (page_states a)\<rparr>"

lemma set_pages_simps [simp]:
  "base (set_pages p n v a) = base a" "top (set_pages p n v a) = top a"
  "max_order (set_pages p n v a) = max_order a"
  "page_states_pfn (set_pages p n v a) = page_states_pfn a"
  "page_states (set_pages p n v a) = fill (p - base a) n v (page_states a)"
  by (simp_all add: set_pages_def)

lemma pstate_set_pages:
  assumes "area_shape a" "base a \<le> p" "p + n \<le> top a" "base a \<le> q" "q < top a"
  shows "pstate (set_pages p n v a) q = (if p \<le> q \<and> q < p + n then v else pstate a q)"
  using assms unfolding pstate_def area_shape_def
  by (simp add: nth_fill less_diff_conv) auto

lemma area_shape_set_pages [simp]:
  "area_shape a \<Longrightarrow> base a \<le> p \<Longrightarrow> p + n \<le> top a \<Longrightarrow> area_shape (set_pages p n v a)"
  by (simp add: area_shape_def)

lemma same_off_set_pages:
  "area_shape a \<Longrightarrow> base a \<le> p \<Longrightarrow> p + n \<le> top a \<Longrightarrow> same_off {p..<p + n} a (set_pages p n v a)"
  by (auto simp: same_off_def pstate_set_pages) (simp add: area_shape_def)

lemma check_and_set_eq:
  "p + n \<le> length xs \<Longrightarrow> (\<And>i. p \<le> i \<Longrightarrow> i < p + n \<Longrightarrow> xs ! i = old) \<Longrightarrow>
   check_and_set n p old new xs = Inr (fill p n new xs)"
proof (induction n arbitrary: p xs)
  case (Suc n)
  have "check_and_set n (Suc p) old new (xs[p := new]) = Inr (fill (Suc p) n new (xs[p := new]))"
    by (rule Suc.IH) (use Suc.prems in \<open>auto simp: nth_list_update\<close>)
  with Suc.prems show ?case by (simp add: fill_Suc)
qed simp

lemma first_in_block: "(pfn::nat) \<in> {pfn..<pfn + 2 ^ k}"
  by simp

lemma block_states_nth:
  assumes "area_shape a" "block_state a pfn k v"
  shows "pfn - base a + 2 ^ k \<le> length (page_states a)"
    and "pfn - base a \<le> i \<Longrightarrow> i < pfn - base a + 2 ^ k \<Longrightarrow> page_states a ! i = v"
proof -
  show "pfn - base a + 2 ^ k \<le> length (page_states a)"
    using assms by (auto simp: area_shape_def block_state_def)
  assume i: "pfn - base a \<le> i" "i < pfn - base a + 2 ^ k"
  have "pstate a (base a + i) = v"
    using assms(2) i unfolding block_state_def by (elim conjE allE[of _ "base a + i"]) auto
  then show "page_states a ! i = v" by (simp add: pstate_def)
qed

lemma check_and_set_block:
  assumes "area_shape a" "block_state a pfn k v"
  shows "check_and_set (2 ^ k) (pfn - base a) v w (page_states a) =
    Inr (page_states (set_pages pfn (2 ^ k) w a))"
  using block_states_nth[OF assms] by (simp add: check_and_set_eq)

lemma block_state_first: "block_state a pfn k v \<Longrightarrow> pstate a pfn = v"
  by (auto simp: block_state_def)

lemma block_state_page:
  "block_state a pfn k v \<Longrightarrow> pfn \<le> q \<Longrightarrow> q < pfn + 2 ^ k \<Longrightarrow> pstate a q = v"
  by (auto simp: block_state_def)

text \<open>Two free blocks that share a page are the same block.\<close>

lemma free_blocks_disjoint:
  assumes p: "is_free_block a p k" "p \<le> r" "r < p + 2 ^ k"
    and q: "is_free_block a q j" "q \<le> r" "r < q + 2 ^ j"
  shows "p = q \<and> k = j"
proof -
  obtain s t where s: "usable_status s" "block_state a p k (s OR of_nat k)" "k < 64"
    and t: "usable_status t" "block_state a q j (t OR of_nat j)" "j < 64"
    using p(1) q(1) by (auto simp: is_free_block_def NLISTS_eq)
  have "s OR of_nat k = t OR of_nat j"
    using block_state_page[OF s(2) p(2,3)] block_state_page[OF t(2) q(2,3)] by simp
  then have "order_of (s OR of_nat k) = order_of (t OR of_nat j)" by simp
  then have kj: "k = j" using s t by simp
  have "p = q"
  proof (rule ccontr)
    assume "p \<noteq> q"
    with aligned_blocks_disjoint[of p k q] s(2) t(2) kj
    have "p + 2 ^ k \<le> q \<or> q + 2 ^ k \<le> p" by (simp add: block_state_def)
    with p q kj show False by auto
  qed
  with kj show ?thesis by simp
qed

section \<open>Taking and giving back blocks\<close>

text \<open>
  The two moves all the operations are made of: a listed block leaves its list and its
  pages become unusable; a block of unusable pages becomes free and is listed.
\<close>

lemma same_off_block_state:
  assumes "same_off S a a'" "{pfn..<pfn + 2 ^ k} \<inter> S = {}"
  shows "block_state a' pfn k v = block_state a pfn k v"
proof -
  have "pstate a' q = pstate a q" if "base a \<le> pfn" "pfn + 2 ^ k \<le> top a" "pfn \<le> q" "q < pfn + 2 ^ k" for q
  proof -
    have "q \<in> {pfn..<pfn + 2 ^ k}" using that by simp
    with assms(2) have "q \<notin> S" by blast
    with assms(1) that show ?thesis by (auto simp: same_off_def)
  qed
  with assms(1) show ?thesis unfolding block_state_def same_off_def by metis
qed

lemma same_off_free_block:
  assumes "same_off S a a'" "{pfn..<pfn + 2 ^ k} \<inter> S = {}"
  shows "is_free_block a' pfn k = is_free_block a pfn k"
  unfolding is_free_block_def by (simp add: same_off_block_state[OF assms])

lemma free_blocks_apart:
  assumes "is_free_block a p k" "is_free_block a q j" "\<not> (p = q \<and> k = j)"
  shows "{p..<p + 2 ^ k} \<inter> {q..<q + 2 ^ j} = {}"
  using free_blocks_disjoint[OF assms(1) _ _ assms(2)] assms(3) by fastforce

lemma is_free_block_range:
  "is_free_block a p k \<Longrightarrow> base a \<le> p \<and> p + 2 ^ k \<le> top a \<and> p mod 2 ^ k = 0"
  by (auto simp: is_free_block_def block_state_def)

lemma is_free_block_first: "is_free_block a p k \<Longrightarrow> p < top a"
  using is_free_block_range[of a p k] first_in_block[of p k]
  by (metis atLeastLessThan_iff order_less_le_trans)

lemma free_block_usable: "is_free_block a p k \<Longrightarrow> {p..<p + 2 ^ k} \<subseteq> usable_pfns a"
  by (auto simp: is_free_block_def block_state_def usable_pfns_def NLISTS_eq)

lemma area_ok_shape: "area_ok a L \<Longrightarrow> area_shape a"
  by (simp add: area_ok_def)

lemma area_ok_block: "area_ok a L \<Longrightarrow> k < NLISTS \<Longrightarrow> p \<in> L k \<Longrightarrow> is_free_block a p k"
  by (simp add: area_ok_def)

lemma area_ok_cover:
  assumes "area_ok a L" "q \<in> usable_pfns a"
  obtains k p where "k < NLISTS" "p \<in> L k" "p \<le> q" "q < p + 2 ^ k"
  using assms unfolding area_ok_def by blast

lemma usable_pfns_take:
  assumes s: "same_off B a a'" and n: "\<And>q. q \<in> B \<Longrightarrow> \<not> IS_USABLE (pstate a' q)"
  shows "usable_pfns a' = usable_pfns a - B"
proof (rule set_eqI)
  fix q
  show "q \<in> usable_pfns a' \<longleftrightarrow> q \<in> usable_pfns a - B"
    using s n[of q] by (cases "q \<in> B") (auto simp: usable_pfns_def same_off_def)
qed

lemma take_area_ok:
  assumes ok: "area_ok a L" and k: "k < NLISTS" and p: "pfn \<in> L k"
    and s: "same_off {pfn..<pfn + 2 ^ k} a a'" and m: "max_order a' < NLISTS"
    and n: "\<And>q. pfn \<le> q \<Longrightarrow> q < pfn + 2 ^ k \<Longrightarrow> \<not> IS_USABLE (pstate a' q)"
  shows "area_ok a' (L(k := L k - {pfn}))"
proof -
  let ?B = "{pfn..<pfn + 2 ^ k}"
  have fb: "is_free_block a pfn k" using ok k p by (rule area_ok_block)
  have us: "usable_pfns a' = usable_pfns a - ?B" by (rule usable_pfns_take[OF s]) (use n in auto)
  have "area_shape a'" using area_ok_shape[OF ok] s m by (simp add: area_shape_def same_off_def)
  moreover have "is_free_block a' q j" if "j < NLISTS" "q \<in> (L(k := L k - {pfn})) j" for j q
  proof -
    have q: "q \<in> L j" "\<not> (q = pfn \<and> j = k)" using that(2) by (auto split: if_splits)
    have qb: "is_free_block a q j" using ok that(1) q(1) by (rule area_ok_block)
    show ?thesis using same_off_free_block[OF s free_blocks_apart[OF qb fb q(2)]] qb by simp
  qed
  moreover have "\<exists>j < NLISTS. \<exists>p \<in> (L(k := L k - {pfn})) j. p \<le> q \<and> q < p + 2 ^ j"
    if q: "q \<in> usable_pfns a'" for q
  proof -
    have q': "q \<in> usable_pfns a" "q \<notin> ?B" using q us by auto
    obtain j p where j: "j < NLISTS" "p \<in> L j" "p \<le> q" "q < p + 2 ^ j"
      using ok q'(1) by (rule area_ok_cover)
    have "p \<in> (L(k := L k - {pfn})) j" using j q'(2) by auto
    with j show ?thesis by blast
  qed
  ultimately show ?thesis by (simp add: area_ok_def)
qed

lemma usable_pfns_give:
  assumes s: "same_off B a a'" and n: "\<And>q. q \<in> B \<Longrightarrow> IS_USABLE (pstate a' q)"
    and B: "B \<subseteq> {base a..<top a}"
  shows "usable_pfns a' = usable_pfns a \<union> B"
proof (rule set_eqI)
  fix q
  show "q \<in> usable_pfns a' \<longleftrightarrow> q \<in> usable_pfns a \<union> B"
    using s n[of q] B by (cases "q \<in> B") (auto simp: usable_pfns_def same_off_def)
qed

lemma give_area_ok:
  assumes ok: "area_ok a L" and k: "k < NLISTS" and m: "max_order a' < NLISTS"
    and s: "same_off {pfn..<pfn + 2 ^ k} a a'"
    and n: "{pfn..<pfn + 2 ^ k} \<inter> usable_pfns a = {}"
    and fb: "is_free_block a' pfn k"
  shows "area_ok a' (L(k := insert pfn (L k)))"
proof -
  let ?B = "{pfn..<pfn + 2 ^ k}"
  have r: "?B \<subseteq> {base a..<top a}" using is_free_block_range[OF fb] s by (auto simp: same_off_def)
  have us: "usable_pfns a' = usable_pfns a \<union> ?B"
    by (rule usable_pfns_give[OF s _ r]) (use free_block_usable[OF fb] in \<open>auto simp: usable_pfns_def\<close>)
  have "area_shape a'" using area_ok_shape[OF ok] s m by (simp add: area_shape_def same_off_def)
  moreover have "is_free_block a' q j" if "j < NLISTS" "q \<in> (L(k := insert pfn (L k))) j" for j q
  proof (cases "q = pfn \<and> j = k")
    case True
    with fb show ?thesis by simp
  next
    case False
    then have "q \<in> L j" using that(2) by (auto split: if_splits)
    then have qb: "is_free_block a q j" by (rule area_ok_block[OF ok that(1)])
    have "{q..<q + 2 ^ j} \<inter> ?B = {}" using free_block_usable[OF qb] n by blast
    from same_off_free_block[OF s this] qb show ?thesis by simp
  qed
  moreover have "\<exists>j < NLISTS. \<exists>p \<in> (L(k := insert pfn (L k))) j. p \<le> q \<and> q < p + 2 ^ j"
    if q: "q \<in> usable_pfns a'" for q
  proof (cases "q \<in> ?B")
    case True
    with k show ?thesis by (intro exI[of _ k]) auto
  next
    case False
    then have "q \<in> usable_pfns a" using q us by auto
    with ok obtain j p where j: "j < NLISTS" "p \<in> L j" "p \<le> q" "q < p + 2 ^ j"
      by (rule area_ok_cover)
    then have "p \<in> (L(k := insert pfn (L k))) j" by auto
    with j show ?thesis by blast
  qed
  ultimately show ?thesis by (simp add: area_ok_def)
qed

text \<open>The same two moves when the new metadata is one byte for the whole block.\<close>

lemma usable_set_pages:
  assumes "area_shape a" "base a \<le> p" "p + n \<le> top a"
  shows "usable_pfns (set_pages p n v a) =
    (if IS_USABLE v then usable_pfns a \<union> {p..<p + n} else usable_pfns a - {p..<p + n})"
  using assms(2,3) pstate_set_pages[OF assms] by (auto simp: usable_pfns_def split: if_splits)

lemma block_state_set_pages:
  assumes "area_shape a" "base a \<le> p" "p + 2 ^ k \<le> top a" "p mod 2 ^ k = 0"
  shows "block_state (set_pages p (2 ^ k) v a) p k v"
  using assms(2-4) pstate_set_pages[OF assms(1-3)] by (auto simp: block_state_def)

lemma take_set_pages:
  assumes ok: "area_ok a L" and k: "k < NLISTS" and p: "pfn \<in> L k" and v: "\<not> IS_USABLE v"
  shows "area_ok (set_pages pfn (2 ^ k) v a) (L(k := L k - {pfn}))"
proof -
  have r: "base a \<le> pfn" "pfn + 2 ^ k \<le> top a"
    using is_free_block_range[OF area_ok_block[OF ok k p]] by auto
  note sh = area_ok_shape[OF ok]
  show ?thesis
    by (rule take_area_ok[OF ok k p same_off_set_pages[OF sh r]])
       (use sh r v in \<open>auto simp: area_shape_def[of a] pstate_set_pages[OF sh r]\<close>)
qed

lemma give_set_pages:
  assumes ok: "area_ok a L" and k: "k < NLISTS" and s: "usable_status s"
    and r: "base a \<le> pfn" "pfn + 2 ^ k \<le> top a" "pfn mod 2 ^ k = 0"
    and n: "{pfn..<pfn + 2 ^ k} \<inter> usable_pfns a = {}"
  shows "area_ok (set_pages pfn (2 ^ k) (s OR of_nat k) a) (L(k := insert pfn (L k)))"
proof (rule give_area_ok[OF ok k _ same_off_set_pages n])
  show sh: "area_shape a" using ok by (rule area_ok_shape)
  then show "max_order (set_pages pfn (2 ^ k) (s OR of_nat k) a) < NLISTS"
    by (simp add: area_shape_def)
  show "is_free_block (set_pages pfn (2 ^ k) (s OR of_nat k) a) pfn k"
    unfolding is_free_block_def using k s block_state_set_pages[OF sh r] by blast
qed (use r in auto)

section \<open>The free lists of an area\<close>

definition listed :: "(lptr \<Rightarrow> lptr list) \<Rightarrow> nat \<Rightarrow> nat \<Rightarrow> nat set" where
  "listed F n k = {pfn. LPage pfn \<in> set (F (LHead n k))}"

definition heads_ok :: "lptr set \<Rightarrow> (lptr \<Rightarrow> lptr list) \<Rightarrow> bool" where
  "heads_ok H F \<longleftrightarrow> (\<forall>x \<in> H. (\<exists>m j. x = LHead m j \<and> j < NLISTS) \<and> set (F x) \<subseteq> range LPage)"

text \<open>
  The invariant of area \<open>n\<close>: the links form a forest of lists with the heads \<open>H\<close>, among them
  all the free lists of the area; the sequences are given by \<open>F\<close>; the metadata agrees with
  them; and no other list holds a page of the area.
\<close>

definition area_inv :: "lptr set \<Rightarrow> (lptr \<Rightarrow> lptr list) \<Rightarrow> nat \<Rightarrow> area_state \<Rightarrow> bool" where
  "area_inv H F n s \<longleftrightarrow> forest H F (snd s) \<and> heads_ok H F \<and> (\<forall>k < NLISTS. LHead n k \<in> H) \<and>
     area_ok (fst s) (listed F n) \<and>
     (\<forall>m k. LHead m k \<in> H \<and> m \<noteq> n \<longrightarrow> listed F m k \<inter> {base (fst s)..<top (fst s)} = {})"

text \<open>The lists of the other areas are as they were.\<close>

definition same_other :: "nat \<Rightarrow> (lptr \<Rightarrow> lptr list) \<Rightarrow> (lptr \<Rightarrow> lptr list) \<Rightarrow> bool" where
  "same_other n F F' \<longleftrightarrow> (\<forall>m k. m \<noteq> n \<longrightarrow> F' (LHead m k) = F (LHead m k))"

lemma same_other_refl [simp]: "same_other n F F"
  and same_other_upd [simp]: "same_other n F F' \<Longrightarrow> same_other n F (F'(LHead n k := xs))"
  by (simp_all add: same_other_def)

lemma same_other_trans: "same_other n F F' \<Longrightarrow> same_other n F' F'' \<Longrightarrow> same_other n F F''"
  by (simp add: same_other_def)

lemma listed_upd:
  "listed (F(LHead n k := xs)) n = (listed F n)(k := {pfn. LPage pfn \<in> set xs})"
  by (auto simp: listed_def fun_eq_iff)

lemma listed_upd_other: "m \<noteq> n \<Longrightarrow> listed (F(LHead n k := xs)) m = listed F m"
  by (auto simp: listed_def fun_eq_iff)

lemma area_invD:
  assumes "area_inv H F n (a, h)"
  shows "forest H F h" "heads_ok H F" "\<And>k. k < NLISTS \<Longrightarrow> LHead n k \<in> H" "area_ok a (listed F n)"
    and "\<And>m k. LHead m k \<in> H \<Longrightarrow> m \<noteq> n \<Longrightarrow> listed F m k \<inter> {base a..<top a} = {}"
  using assms by (auto simp: area_inv_def)

lemma area_inv_shape: "area_inv H F n (a, h) \<Longrightarrow> area_shape a"
  by (auto dest: area_invD(4) area_ok_shape)

lemma area_inv_block:
  "area_inv H F n (a, h) \<Longrightarrow> k < NLISTS \<Longrightarrow> pfn \<in> listed F n k \<Longrightarrow> is_free_block a pfn k"
  by (auto dest: area_invD(4) intro: area_ok_block)

lemma area_inv_max_order:
  "area_inv H F n (a, h) \<Longrightarrow> m < NLISTS \<Longrightarrow> area_inv H F n (a\<lparr>max_order := m\<rparr>, h)"
  by (simp add: area_inv_def area_ok_max_order)

text \<open>A page of the area that is not usable, or starts no listed block, is on no list.\<close>

lemma not_on_any_list:
  assumes inv: "area_inv H F n (a, h)" and r: "base a \<le> pfn" "pfn < top a"
    and nl: "\<And>k. k < NLISTS \<Longrightarrow> pfn \<notin> listed F n k" and y: "y \<in> H"
  shows "LPage pfn \<notin> set (F y)"
proof -
  obtain m j where mj: "y = LHead m j" "j < NLISTS"
    using area_invD(2)[OF inv] y by (auto simp: heads_ok_def)
  show ?thesis
  proof (cases "m = n")
    case True
    with mj nl[of j] show ?thesis by (simp add: listed_def)
  next
    case False
    with area_invD(5)[OF inv, of m j] mj y r show ?thesis by (auto simp: listed_def)
  qed
qed

lemma unusable_not_listed:
  assumes inv: "area_inv H F n (a, h)" and u: "pfn \<notin> usable_pfns a" and k: "k < NLISTS"
  shows "pfn \<notin> listed F n k"
proof
  assume "pfn \<in> listed F n k"
  from free_block_usable[OF area_inv_block[OF inv k this]] first_in_block u show False by blast
qed

lemma page_not_head: "area_inv H F n s \<Longrightarrow> LPage pfn \<notin> H"
  by (auto simp: area_inv_def heads_ok_def)

lemma area_inv_update:
  assumes inv: "area_inv H F n (a, h)" and f: "forest H (F(LHead n k := xs)) h'"
    and ok: "area_ok a' ((listed F n)(k := {pfn. LPage pfn \<in> set xs}))"
    and xs: "set xs \<subseteq> range LPage" and g: "base a' = base a" "top a' = top a"
  shows "area_inv H (F(LHead n k := xs)) n (a', h')"
  unfolding area_inv_def fst_conv snd_conv
proof (intro conjI allI impI)
  show "forest H (F(LHead n k := xs)) h'" by (rule f)
  show "heads_ok H (F(LHead n k := xs))"
    using area_invD(2)[OF inv] xs by (auto simp: heads_ok_def)
  show "\<And>k. k < NLISTS \<Longrightarrow> LHead n k \<in> H" by (rule area_invD(3)[OF inv])
  show "area_ok a' (listed (F(LHead n k := xs)) n)" using ok by (simp only: listed_upd)
  fix m j assume "LHead m j \<in> H \<and> m \<noteq> n"
  then show "listed (F(LHead n k := xs)) m j \<inter> {base a'..<top a'} = {}"
    using area_invD(5)[OF inv, of m j] g by (simp add: listed_upd_other)
qed

lemma area_inv_list_pages:
  "area_inv H F n (a, h) \<Longrightarrow> k < NLISTS \<Longrightarrow> set (F (LHead n k)) \<subseteq> range LPage"
  using area_invD(2,3) by (auto simp: heads_ok_def)

text \<open>The moves on the lists and the metadata together.\<close>

lemma inv_take:
  assumes inv: "area_inv H F n (a, h)" and k: "k < NLISTS" and p: "pfn \<in> listed F n k"
    and v: "\<not> IS_USABLE v"
  shows "\<exists>h1. list_remove h (LPage pfn) = Inr (Some (LPage pfn), h1) \<and>
    area_inv H (F(LHead n k := remove1 (LPage pfn) (F (LHead n k)))) n (set_pages pfn (2 ^ k) v a, h1)"
proof -
  let ?x = "LHead n k"
  have x: "?x \<in> H" using area_invD(3)[OF inv k] .
  have pm: "LPage pfn \<in> set (F ?x)" using p by (simp add: listed_def)
  obtain h1 where h1: "list_remove h (LPage pfn) = Inr (Some (LPage pfn), h1)"
    "forest H (F(?x := remove1 (LPage pfn) (F ?x))) h1"
    using ll.remove_law[OF area_invD(1)[OF inv] x pm] by blast
  have d: "distinct (F ?x)" using ll.rep_distinct[OF area_invD(1)[OF inv] x] .
  have "{q. LPage q \<in> set (remove1 (LPage pfn) (F ?x))} = listed F n k - {pfn}"
    using d by (auto simp: listed_def)
  then have "area_inv H (F(?x := remove1 (LPage pfn) (F ?x))) n (set_pages pfn (2 ^ k) v a, h1)"
    using take_set_pages[OF area_invD(4)[OF inv] k p v] area_inv_list_pages[OF inv k]
    by (intro area_inv_update[OF inv h1(2)]) (auto dest: notin_set_remove1 set_remove1_subset[THEN subsetD])
  with h1(1) show ?thesis by blast
qed

lemma inv_give:
  assumes inv: "area_inv H F n (a, h)" and k: "k < NLISTS" and s: "usable_status s"
    and r: "base a \<le> pfn" "pfn + 2 ^ k \<le> top a" "pfn mod 2 ^ k = 0"
    and u: "{pfn..<pfn + 2 ^ k} \<inter> usable_pfns a = {}"
  shows "\<exists>h1. list_add h (Some (LHead n k)) (Some (LPage pfn)) = Inr h1 \<and>
      area_inv H (F(LHead n k := LPage pfn # F (LHead n k))) n (set_pages pfn (2 ^ k) (s OR of_nat k) a, h1)"
    (is ?front)
    and "\<exists>h1. list_add_tail h (Some (LHead n k)) (Some (LPage pfn)) = Inr h1 \<and>
      area_inv H (F(LHead n k := F (LHead n k) @ [LPage pfn])) n (set_pages pfn (2 ^ k) (s OR of_nat k) a, h1)"
    (is ?tail)
proof -
  let ?x = "LHead n k"
  note f = area_invD(1)[OF inv]
  have x: "?x \<in> H" using area_invD(3)[OF inv k] .
  have "pfn < pfn + 2 ^ k" by simp
  with r have rp: "pfn < top a" by linarith
  have pu: "pfn \<notin> usable_pfns a" using u first_in_block by blast
  have nl: "\<And>y. y \<in> H \<Longrightarrow> LPage pfn \<notin> set (F y)"
    by (rule not_on_any_list[OF inv r(1) rp unusable_not_listed[OF inv pu]])
  note hd = page_not_head[OF inv, of pfn]
  have ok: "area_ok (set_pages pfn (2 ^ k) (s OR of_nat k) a) ((listed F n)(k := insert pfn (listed F n k)))"
    by (rule give_set_pages[OF area_invD(4)[OF inv] k s r u])
  have eq: "{q. LPage q \<in> set (LPage pfn # F ?x)} = insert pfn (listed F n k)"
    "{q. LPage q \<in> set (F ?x @ [LPage pfn])} = insert pfn (listed F n k)"
    by (auto simp: listed_def)
  note lp = area_inv_list_pages[OF inv k]
  obtain h1 where h1: "list_add h (Some ?x) (Some (LPage pfn)) = Inr h1"
    "forest H (F(?x := LPage pfn # F ?x)) h1"
    using ll.add_law[OF f x hd nl] by blast
  have "area_inv H (F(?x := LPage pfn # F ?x)) n (set_pages pfn (2 ^ k) (s OR of_nat k) a, h1)"
    by (rule area_inv_update[OF inv h1(2)]) (use ok lp eq in auto)
  with h1(1) show ?front by blast
  obtain h2 where h2: "list_add_tail h (Some ?x) (Some (LPage pfn)) = Inr h2"
    "forest H (F(?x := F ?x @ [LPage pfn])) h2"
    using ll.add_tail_law[OF f x hd nl] by blast
  have "area_inv H (F(?x := F ?x @ [LPage pfn])) n (set_pages pfn (2 ^ k) (s OR of_nat k) a, h2)"
    by (rule area_inv_update[OF inv h2(2)]) (use ok lp eq in auto)
  with h2(1) show ?tail by blast
qed

section \<open>Splitting\<close>

lemma set_pages_halves:
  assumes "area_shape a" "base a \<le> p" "p + (m + m) \<le> top a"
  shows "set_pages (p + m) m v (set_pages p m v (set_pages p (m + m) w a)) = set_pages p (m + m) v a"
proof -
  have l: "p - base a + (m + m) \<le> length (page_states a)" and b: "p + m - base a = p - base a + m"
    using assms by (auto simp: area_shape_def)
  have "fill (p - base a + m) m v (fill (p - base a) m v (fill (p - base a) (m + m) w (page_states a)))
      = fill (p - base a) (m + m) v (page_states a)"
    by (rule nth_equalityI) (use l in \<open>auto simp: nth_fill\<close>)
  then show ?thesis by (simp add: set_pages_def b)
qed

lemma is_free_blockE:
  assumes "is_free_block a pfn k"
  obtains s where "usable_status s" "block_state a pfn k (s OR of_nat k)" "k < NLISTS" "k < 64"
  using assms by (auto simp: is_free_block_def NLISTS_eq)

lemma half_blocks:
  fixes pfn :: nat
  assumes "pfn mod 2 ^ k = 0" "k \<noteq> 0"
  shows "2 ^ k = 2 ^ (k - 1) + (2::nat) ^ (k - 1)" "pfn mod 2 ^ (k - 1) = 0" "(pfn + 2 ^ (k - 1)) mod 2 ^ (k - 1) = 0"
proof -
  show "2 ^ k = 2 ^ (k - 1) + (2::nat) ^ (k - 1)" using assms(2) by (cases k) auto
  show "pfn mod 2 ^ (k - 1) = 0" using assms(1) by (rule mod_pow2_le) simp
  then show "(pfn + 2 ^ (k - 1)) mod 2 ^ (k - 1) = 0" by simp
qed

text \<open>The list the code adds the halves to, at the tail for fresh blocks.\<close>

definition put_in :: "bool \<Rightarrow> 'a \<Rightarrow> 'a list \<Rightarrow> 'a list" where
  "put_in tail x xs = (if tail then xs @ [x] else x # xs)"

definition list_put :: "bool \<Rightarrow> 'a lheap \<Rightarrow> 'a option \<Rightarrow> 'a option \<Rightarrow> 'a lheap res" where
  "list_put tail = (if tail then list_add_tail else list_add)"

lemma set_put_in [simp]: "set (put_in t x xs) = insert x (set xs)"
  by (simp add: put_in_def)

lemma inv_put:
  assumes "area_inv H F n (a, h)" "k < NLISTS" "usable_status s"
    "base a \<le> pfn" "pfn + 2 ^ k \<le> top a" "pfn mod 2 ^ k = 0"
    "{pfn..<pfn + 2 ^ k} \<inter> usable_pfns a = {}"
  shows "\<exists>h1. list_put t h (Some (LHead n k)) (Some (LPage pfn)) = Inr h1 \<and>
      area_inv H (F(LHead n k := put_in t (LPage pfn) (F (LHead n k)))) n
        (set_pages pfn (2 ^ k) (s OR of_nat k) a, h1)"
  using inv_give[OF assms] by (simp add: list_put_def put_in_def)

text \<open>Replacing a listed block by its two halves.\<close>

lemma inv_split:
  assumes inv: "area_inv H F n (a, h)" and k: "k < NLISTS" "k \<noteq> 0" and p: "pfn \<in> listed F n k"
    and s: "usable_status s"
  shows "\<exists>h1 h2 h3. list_remove h (LPage pfn) = Inr (Some (LPage pfn), h1) \<and>
      forest H (F(LHead n k := remove1 (LPage pfn) (F (LHead n k)))) h1 \<and>
      list_put t h1 (Some (LHead n (k - 1))) (Some (LPage pfn)) = Inr h2 \<and>
      list_put t h2 (Some (LHead n (k - 1))) (Some (LPage (pfn + 2 ^ (k - 1)))) = Inr h3 \<and>
      area_inv H (F(LHead n k := remove1 (LPage pfn) (F (LHead n k)),
                    LHead n (k - 1) := put_in t (LPage (pfn + 2 ^ (k - 1)))
                                         (put_in t (LPage pfn) (F (LHead n (k - 1)))))) n
        (set_pages pfn (2 ^ k) (s OR of_nat (k - 1)) a, h3)"
proof -
  let ?m = "2 ^ (k - 1) :: nat" and ?v = "STATUS_ALLOCATED OR of_nat k" and ?w = "s OR of_nat (k - 1)"
  let ?F1 = "F(LHead n k := remove1 (LPage pfn) (F (LHead n k)))"
  let ?a1 = "set_pages pfn (2 ^ k) ?v a" and ?k = "k - 1"
  have sh: "area_shape a" using inv by (rule area_inv_shape)
  have r: "base a \<le> pfn" "pfn + 2 ^ k \<le> top a" "pfn mod 2 ^ k = 0"
    using is_free_block_range[OF area_inv_block[OF inv k(1) p]] by auto
  note hb = half_blocks[OF r(3) k(2)]
  have nu: "\<not> IS_USABLE ?v" using k by (simp add: NLISTS_eq)
  obtain h1 where h1: "list_remove h (LPage pfn) = Inr (Some (LPage pfn), h1)" "area_inv H ?F1 n (?a1, h1)"
    using inv_take[OF inv k(1) p nu] by blast
  have k': "?k < NLISTS" using k by simp
  have r1: "base ?a1 \<le> pfn" "pfn + 2 ^ ?k \<le> top ?a1" using r hb(1) by auto
  have u1: "usable_pfns ?a1 = usable_pfns a - {pfn..<pfn + 2 ^ k}"
    using usable_set_pages[OF sh r(1,2)] nu by simp
  obtain h2 where h2: "list_put t h1 (Some (LHead n ?k)) (Some (LPage pfn)) = Inr h2"
    "area_inv H (?F1(LHead n ?k := put_in t (LPage pfn) (?F1 (LHead n ?k)))) n (set_pages pfn ?m ?w ?a1, h2)"
    using inv_put[OF h1(2) k' s r1 hb(2)] u1 hb(1) by fastforce
  let ?a2 = "set_pages pfn ?m ?w ?a1"
  have r2: "base ?a2 \<le> pfn + ?m" "pfn + ?m + 2 ^ ?k \<le> top ?a2" using r hb(1) by auto
  have "usable_pfns ?a2 \<subseteq> usable_pfns ?a1 \<union> {pfn..<pfn + ?m}"
    using usable_set_pages[of ?a1 pfn ?m ?w] area_shape_set_pages[OF sh r(1,2)] r1 by auto
  then have u2: "{pfn + ?m..<pfn + ?m + 2 ^ ?k} \<inter> usable_pfns ?a2 = {}" using u1 hb(1) by fastforce
  obtain h3 where h3: "list_put t h2 (Some (LHead n ?k)) (Some (LPage (pfn + ?m))) = Inr h3"
    "area_inv H ((?F1(LHead n ?k := put_in t (LPage pfn) (?F1 (LHead n ?k))))
        (LHead n ?k := put_in t (LPage (pfn + ?m)) (put_in t (LPage pfn) (?F1 (LHead n ?k))))) n
      (set_pages (pfn + ?m) ?m ?w ?a2, h3)"
    using inv_put[OF h2(2) k' s r2 hb(3) u2, of t] by auto
  have "set_pages (pfn + ?m) ?m ?w ?a2 = set_pages pfn (2 ^ k) ?w a"
    using set_pages_halves[OF sh r(1), of ?m] r(2) unfolding hb(1) by simp
  moreover have "?k \<noteq> k" using k by simp
  ultimately show ?thesis using h1(1) area_invD(1)[OF h1(2)] h2(1) h3 by auto
qed

text \<open>No free list above \<open>max_order\<close> holds a block.\<close>

definition lists_below :: "nat \<Rightarrow> (lptr \<Rightarrow> lptr list) \<Rightarrow> mem_area \<Rightarrow> bool" where
  "lists_below n F a \<longleftrightarrow> (\<forall>k < NLISTS. max_order a < k \<longrightarrow> F (LHead n k) = [])"

text \<open>
  What an operation on area \<open>n\<close> leaves alone: the lists of the other areas, the geometry of
  the area and the metadata of the pages outside \<open>S\<close>.
\<close>

definition area_step ::
  "lptr set \<Rightarrow> nat \<Rightarrow> nat set \<Rightarrow> (lptr \<Rightarrow> lptr list) \<times> area_state \<Rightarrow> (lptr \<Rightarrow> lptr list) \<times> area_state \<Rightarrow> bool" where
  "area_step H n S s s' \<longleftrightarrow> area_inv H (fst s') n (snd s') \<and> same_other n (fst s) (fst s') \<and>
     same_off S (fst (snd s)) (fst (snd s')) \<and>
     (lists_below n (fst s) (fst (snd s)) \<longrightarrow> lists_below n (fst s') (fst (snd s')))"

lemma area_step_trans:
  "area_step H n S s s' \<Longrightarrow> area_step H n S s' s'' \<Longrightarrow> area_step H n S s s''"
  unfolding area_step_def using same_off_trans same_other_trans by blast

lemma area_step_mono: "area_step H n S s s' \<Longrightarrow> S \<subseteq> T \<Longrightarrow> area_step H n T s s'"
  unfolding area_step_def using same_off_mono by blast

lemma split_correct:
  assumes inv: "area_inv H F n (a, h)" and k: "k < NLISTS" "k \<noteq> 0" and p: "pfn \<in> listed F n k"
  shows "\<exists>F' a' h'. split n (a, h) (LPage pfn) = Inr (a', h') \<and>
    area_step H n {pfn..<pfn + 2 ^ k} (F, a, h) (F', a', h') \<and>
    pfn \<in> listed F' n (k - 1) \<and> usable_pfns a' = usable_pfns a \<and>
    (\<forall>q. base a \<le> q \<and> q < top a \<longrightarrow> IS_FRESH (pstate a' q) = IS_FRESH (pstate a q))"
proof -
  have sh: "area_shape a" using inv by (rule area_inv_shape)
  obtain s where s: "usable_status s" "block_state a pfn k (s OR of_nat k)" and k64: "k < 64"
    using area_inv_block[OF inv k(1) p] by (rule is_free_blockE)
  have r: "base a \<le> pfn" "pfn + 2 ^ k \<le> top a" "pfn mod 2 ^ k = 0"
    using s(2) by (auto simp: block_state_def)
  have "(1::nat) \<le> 2 ^ k" by simp
  with r have pt: "pfn < top a" "pfn + 2 ^ k - 1 < top a" "base a \<le> pfn + 2 ^ k - 1" by linarith+
  let ?m = "s OR of_nat k" and ?w = "s OR of_nat (k - 1)" and ?t = "s = STATUS_FRESH"
  have md: "page_states a ! (pfn - base a) = ?m" using block_state_first[OF s(2)] by (simp add: pstate_def)
  have len: "pfn - base a < length (page_states a)" using sh r pt by (simp add: area_shape_def)
  obtain h1 h2 h3 where h1: "list_remove h (LPage pfn) = Inr (Some (LPage pfn), h1)"
      "forest H (F(LHead n k := remove1 (LPage pfn) (F (LHead n k)))) h1"
    and h2: "list_put ?t h1 (Some (LHead n (k - 1))) (Some (LPage pfn)) = Inr h2"
      "list_put ?t h2 (Some (LHead n (k - 1))) (Some (LPage (pfn + 2 ^ (k - 1)))) = Inr h3"
    and inv': "area_inv H (F(LHead n k := remove1 (LPage pfn) (F (LHead n k)),
                    LHead n (k - 1) := put_in ?t (LPage (pfn + 2 ^ (k - 1)))
                                         (put_in ?t (LPage pfn) (F (LHead n (k - 1)))))) n
        (set_pages pfn (2 ^ k) ?w a, h3)" (is "area_inv H ?F' n (?a', h3)")
    using inv_split[OF inv k p s(1), of ?t] by blast
  let ?mo = "if k = max_order a \<and> is_list_empty h1 (LHead n k) then max_order a - 1 else max_order a"
  have mo: "?mo < NLISTS" using sh by (auto simp: area_shape_def)
  have sp: "split n (a, h) (LPage pfn) = Inr (?a'\<lparr>max_order := ?mo\<rparr>, h3)"
    using md len r pt k k64 s(1) h1(1) h2 check_and_set_block[OF sh s(2), of ?w]
    by (cases ?t) (simp_all add: split_def virt_to_pfn_def usable_area_contains_pfn_def
        IS_ALIGNED_ORDER_def meta_pred list_put_def Let_def set_pages_def)
  have em: "is_list_empty h1 (LHead n k) \<longleftrightarrow> remove1 (LPage pfn) (F (LHead n k)) = []"
    using ll.empty_head[OF h1(2) area_invD(3)[OF inv k(1)]] by simp
  have below: "lists_below n ?F' (?a'\<lparr>max_order := ?mo\<rparr>)" if "lists_below n F a"
    unfolding lists_below_def
  proof (intro allI impI)
    fix j assume j: "j < NLISTS" "max_order (?a'\<lparr>max_order := ?mo\<rparr>) < j"
    have "F (LHead n k) \<noteq> []" using p by (auto simp: listed_def)
    with that k have km: "k \<le> max_order a" unfolding lists_below_def by (meson not_le)
    show "?F' (LHead n j) = []"
    proof (cases "j = k")
      case True
      with j km em k show ?thesis by (auto split: if_splits)
    next
      case False
      with j km have "max_order a < j" "j \<noteq> k - 1" by (auto split: if_splits)
      with that j False show ?thesis by (simp add: lists_below_def)
    qed
  qed
  have "k - 1 < 64" "k - 1 < NLISTS" using k k64 by auto
  then have us: "usable_pfns ?a' = usable_pfns a"
    using usable_set_pages[OF sh r(1,2)] s(1) free_block_usable[OF area_inv_block[OF inv k(1) p]] by auto
  have fr: "IS_FRESH (pstate ?a' q) = IS_FRESH (pstate a q)" if "base a \<le> q" "q < top a" for q
    using pstate_set_pages[OF sh r(1,2) that] block_state_page[OF s(2)] s(1) k64 \<open>k - 1 < 64\<close> by auto
  have "area_step H n {pfn..<pfn + 2 ^ k} (F, a, h) (?F', ?a'\<lparr>max_order := ?mo\<rparr>, h3)"
    using area_inv_max_order[OF inv' mo] same_off_set_pages[OF sh r(1,2)] below
    by (simp add: area_step_def)
  with sp us fr show ?thesis
    by (intro exI[of _ ?F'] exI[of _ "?a'\<lparr>max_order := ?mo\<rparr>"] exI[of _ h3]) (simp add: listed_def)
qed

lemma area_step_refl: "area_inv H F n (a, h) \<Longrightarrow> area_step H n S (F, a, h) (F, a, h)"
  by (simp add: area_step_def)

lemma area_step_inv: "area_step H n S s (F', s') \<Longrightarrow> area_inv H F' n s'"
  by (simp add: area_step_def)

lemma area_step_geometry:
  "area_step H n S (F, a, h) (F', a', h') \<Longrightarrow> base a' = base a \<and> top a' = top a"
  by (simp add: area_step_def same_off_def)

text \<open>Splitting down to the order that is wanted keeps the first page in front.\<close>

lemma split_to_correct:
  assumes "area_inv H F n (a, h)" "k < NLISTS" "pfn \<in> listed F n k"
  shows "\<exists>F' a' h'. split_to n sz (LPage pfn) k (a, h) = Inr (a', h') \<and>
    area_step H n {pfn..<pfn + 2 ^ k} (F, a, h) (F', a', h') \<and>
    pfn \<in> listed F' n (min k sz) \<and> usable_pfns a' = usable_pfns a \<and>
    (\<forall>q. base a \<le> q \<and> q < top a \<longrightarrow> IS_FRESH (pstate a' q) = IS_FRESH (pstate a q))"
  using assms
proof (induction k arbitrary: F a h)
  case 0
  then show ?case
    by (intro exI[of _ F] exI[of _ a] exI[of _ h]) (simp add: split_to.simps[of _ _ _ 0] area_step_refl)
next
  case (Suc k)
  show ?case
  proof (cases "Suc k > sz")
    case False
    then show ?thesis using Suc.prems
      by (intro exI[of _ F] exI[of _ a] exI[of _ h])
         (simp add: split_to.simps[of _ _ _ "Suc k"] area_step_refl min_def)
  next
    case True
    obtain F1 a1 h1 where 1: "split n (a, h) (LPage pfn) = Inr (a1, h1)"
      "area_step H n {pfn..<pfn + 2 ^ Suc k} (F, a, h) (F1, a1, h1)" "pfn \<in> listed F1 n k"
      "usable_pfns a1 = usable_pfns a"
      "\<forall>q. base a \<le> q \<and> q < top a \<longrightarrow> IS_FRESH (pstate a1 q) = IS_FRESH (pstate a q)"
      using split_correct[OF Suc.prems(1,2) _ Suc.prems(3)] by auto
    have k: "k < NLISTS" using Suc.prems(2) by simp
    obtain F2 a2 h2 where 2: "split_to n sz (LPage pfn) k (a1, h1) = Inr (a2, h2)"
      "area_step H n {pfn..<pfn + 2 ^ k} (F1, a1, h1) (F2, a2, h2)" "pfn \<in> listed F2 n (min k sz)"
      "usable_pfns a2 = usable_pfns a1"
      "\<forall>q. base a1 \<le> q \<and> q < top a1 \<longrightarrow> IS_FRESH (pstate a2 q) = IS_FRESH (pstate a1 q)"
      using Suc.IH[OF area_step_inv[OF 1(2)] k 1(3)] by blast
    have "area_step H n {pfn..<pfn + 2 ^ Suc k} (F1, a1, h1) (F2, a2, h2)"
      by (rule area_step_mono[OF 2(2)]) auto
    note st = area_step_trans[OF 1(2) this]
    have "split_to n sz (LPage pfn) (Suc k) (a, h) = Inr (a2, h2)"
      using True 1(1) 2(1) by (simp add: split_to.simps[of _ _ _ "Suc k"])
    moreover have "min (Suc k) sz = min k sz" using True by simp
    ultimately show ?thesis using st 1(4,5) 2(3-5) area_step_geometry[OF 1(2)] by auto
  qed
qed

section \<open>Taking a block off the lists\<close>

lemma inv_take_below:
  "lists_below n F a \<Longrightarrow> lists_below n (F(LHead n k := remove1 x (F (LHead n k)))) a"
  by (auto simp: lists_below_def)

lemma lists_below_set_pages [simp]: "lists_below n F (set_pages p m v a) = lists_below n F a"
  by (simp add: lists_below_def)

text \<open>The metadata \<open>memset\<close> of a range of pages of the area.\<close>

lemma memset_pages:
  assumes "area_shape a" "base a \<le> p" "p + n \<le> top a"
  shows "memset (page_states a) (p - base a) v n = Inr (page_states (set_pages p n v a))"
  using assms by (simp add: memset_eq area_shape_def)

lemma take_block_correct:
  assumes inv: "area_inv H F n (a, h)" and k: "k < NLISTS" and p: "pfn \<in> listed F n k"
  shows "\<exists>F' a' h'. take_block n (a, h) k (LPage pfn) (pfn - base a) False = Inr (Some (LPage pfn), a', h') \<and>
    area_step H n {pfn..<pfn + 2 ^ k} (F, a, h) (F', a', h') \<and>
    block_state a' pfn k (STATUS_ALLOCATED OR of_nat k) \<and>
    usable_pfns a' = usable_pfns a - {pfn..<pfn + 2 ^ k}"
proof -
  let ?v = "STATUS_ALLOCATED OR of_nat k" let ?a = "set_pages pfn (2 ^ k) ?v a"
  let ?F = "F(LHead n k := remove1 (LPage pfn) (F (LHead n k)))"
  have sh: "area_shape a" using inv by (rule area_inv_shape)
  have r: "base a \<le> pfn" "pfn + 2 ^ k \<le> top a" "pfn mod 2 ^ k = 0"
    using is_free_block_range[OF area_inv_block[OF inv k p]] by auto
  have nu: "\<not> IS_USABLE ?v" using k by (simp add: NLISTS_eq)
  obtain h1 where h1: "list_remove h (LPage pfn) = Inr (Some (LPage pfn), h1)" "area_inv H ?F n (?a, h1)"
    using inv_take[OF inv k p nu] by blast
  have "take_block n (a, h) k (LPage pfn) (pfn - base a) False = Inr (Some (LPage pfn), ?a, h1)"
    using h1(1) memset_pages[OF sh r(1,2), of ?v] by (simp add: take_block_def set_pages_def)
  moreover have "area_step H n {pfn..<pfn + 2 ^ k} (F, a, h) (?F, ?a, h1)"
    using h1(2) same_off_set_pages[OF sh r(1,2)] inv_take_below by (simp add: area_step_def)
  ultimately show ?thesis
    using block_state_set_pages[OF sh r, of ?v] usable_set_pages[OF sh r(1,2)] nu by auto
qed

section \<open>The search for a block\<close>

definition pfn_of :: "lptr \<Rightarrow> nat" where
  "pfn_of p = (case p of LPage pfn \<Rightarrow> pfn | LHead _ _ \<Rightarrow> 0)"

lemma pfn_of_LPage [simp]: "pfn_of (LPage pfn) = pfn"
  by (simp add: pfn_of_def)

text \<open>The block that the search would take from free list \<open>k\<close>.\<close>

definition candidate :: "nat \<Rightarrow> (lptr \<Rightarrow> lptr list) \<Rightarrow> mem_area \<Rightarrow> bool \<Rightarrow> nat \<Rightarrow> nat option" where
  "candidate n F a fresh k =
     (let xs = F (LHead n k) in
      if xs = [] then None
      else let pfn = pfn_of (if fresh then last xs else hd xs) in
        if fresh \<and> \<not> IS_FRESH (pstate a pfn) then None else Some pfn)"

lemma candidate_listed:
  assumes "area_inv H F n (a, h)" "k < NLISTS" "candidate n F a fresh k = Some pfn"
  shows "pfn \<in> listed F n k" "fresh \<Longrightarrow> IS_FRESH (pstate a pfn)"
proof -
  let ?xs = "F (LHead n k)" let ?p = "if fresh then last ?xs else hd ?xs"
  have ne: "?xs \<noteq> []" and pf: "pfn = pfn_of ?p" and fr: "fresh \<Longrightarrow> IS_FRESH (pstate a pfn)"
    using assms(3) by (auto simp: candidate_def Let_def split: if_splits)
  have "?p \<in> set ?xs" using ne by simp
  moreover from this have "?p \<in> range LPage" using area_inv_list_pages[OF assms(1,2)] by blast
  ultimately show "pfn \<in> listed F n k" using pf by (auto simp: listed_def simp del: if_split)
  show "fresh \<Longrightarrow> IS_FRESH (pstate a pfn)" by (rule fr)
qed

lemma find_order_step:
  assumes inv: "area_inv H F n (a, h)" and le: "k \<le> max_order a"
  shows "find_order n (a, h) fresh k =
    (case candidate n F a fresh k of None \<Rightarrow> find_order n (a, h) fresh (k + 1)
     | Some pfn \<Rightarrow> Inr (Some (k, LPage pfn, pfn - base a)))"
proof -
  let ?xs = "F (LHead n k)" and ?x = "LHead n k"
  have k: "k < NLISTS" using area_inv_shape[OF inv] le by (simp add: area_shape_def)
  note f = area_invD(1)[OF inv] and x = area_invD(3)[OF inv k]
  show ?thesis
  proof (cases "?xs = []")
    case True
    then have "is_list_empty h ?x" using ll.empty_head[OF f x] by simp
    moreover have "nxt (h ?x) = Some ?x" "prev (h ?x) = Some ?x"
      using forest_next[OF f x] forest_prev[OF f x] True by simp_all
    ultimately show ?thesis
      using le k True by (subst find_order.simps) (simp add: candidate_def)
  next
    case False
    let ?p = "if fresh then last ?xs else hd ?xs"
    have pm: "?p \<in> set ?xs" using False by simp
    then obtain pfn where pfn: "?p = LPage pfn" using area_inv_list_pages[OF inv k] by blast
    have ne: "\<not> is_list_empty h (LPage pfn)" using ll.empty_node[OF f x pm] pfn by simp
    have r: "is_free_block a pfn k" using area_inv_block[OF inv k] pm pfn by (simp add: listed_def)
    have i: "base a \<le> pfn" "pfn - base a < length (page_states a)"
      using is_free_block_range[OF r] area_inv_shape[OF inv] is_free_block_first[OF r]
      by (auto simp: area_shape_def)
    have q: "(if fresh then prev (h ?x) else nxt (h ?x)) = Some (LPage pfn)"
      using forest_next[OF f x] forest_prev[OF f x] False pfn by (auto split: if_splits)
    have c: "candidate n F a fresh k = (if fresh \<and> \<not> IS_FRESH (pstate a pfn) then None else Some pfn)"
      using False pfn by (simp add: candidate_def)
    show ?thesis
      using le k ne i by (subst find_order.simps) (simp add: q c virt_to_pfn_def page_index_def pstate_def)
  qed
qed

text \<open>The search returns the first order that has a candidate.\<close>

lemma find_order_correct:
  assumes inv: "area_inv H F n (a, h)"
  shows "\<exists>r. find_order n (a, h) fresh order = Inr r \<and>
    (case r of None \<Rightarrow> \<forall>k. order \<le> k \<and> k \<le> max_order a \<longrightarrow> candidate n F a fresh k = None
     | Some (k, p, idx) \<Rightarrow> order \<le> k \<and> k \<le> max_order a \<and>
         (\<exists>pfn. candidate n F a fresh k = Some pfn \<and> p = LPage pfn \<and> idx = pfn - base a))"
proof (induction "Suc (max_order a) - order" arbitrary: order)
  case 0
  then show ?case by (subst find_order.simps) auto
next
  case (Suc m)
  then have le: "order \<le> max_order a" by simp
  show ?case
  proof (cases "candidate n F a fresh order")
    case None
    have "m = Suc (max_order a) - (order + 1)" using Suc.hyps(2) by simp
    from Suc.hyps(1)[OF this] obtain r where
      r: "find_order n (a, h) fresh (order + 1) = Inr r"
      and c: "case r of None \<Rightarrow> \<forall>k. order + 1 \<le> k \<and> k \<le> max_order a \<longrightarrow> candidate n F a fresh k = None
       | Some (k, p, idx) \<Rightarrow> order + 1 \<le> k \<and> k \<le> max_order a \<and>
         (\<exists>pfn. candidate n F a fresh k = Some pfn \<and> p = LPage pfn \<and> idx = pfn - base a)" by blast
    have "k = order \<or> order + 1 \<le> k" if "order \<le> k" for k using that by linarith
    with find_order_step[OF inv le] None r c show ?thesis by (auto split: option.splits)
  qed (use find_order_step[OF inv le] le in auto)
qed

end
