(* ===== verification/AllocPageOps.thy ===== *)
theory AllocPageOps
  imports AllocPageInv
begin

text \<open>
  The allocation, freeing and reservation of blocks in one area of the page allocator,
  proved over the invariant of AllocPageInv: what \<open>page_memalign_order\<close>, \<open>coalesce\<close> and
  \<open>_free_pages\<close> return and what they leave of the area.
\<close>

section \<open>Allocation\<close>

text \<open>What a successful allocation of a block of order \<open>k\<close> at \<open>pfn\<close> does to the area.\<close>

definition allocates :: "mem_area \<Rightarrow> mem_area \<Rightarrow> nat \<Rightarrow> nat \<Rightarrow> bool" where
  "allocates a a' pfn k \<longleftrightarrow> {pfn..<pfn + 2 ^ k} \<subseteq> usable_pfns a \<and>
     block_state a' pfn k (STATUS_ALLOCATED OR of_nat k) \<and>
     usable_pfns a' = usable_pfns a - {pfn..<pfn + 2 ^ k}"

lemma area_step_usable:
  "area_step H n B s s' \<Longrightarrow> B \<subseteq> usable_pfns a \<Longrightarrow> area_step H n (usable_pfns a) s s'"
  by (rule area_step_mono)

lemma page_memalign_order_none:
  assumes inv: "area_inv H F n (a, h)" and le: "al < NLISTS" "sz < NLISTS"
    and none: "\<And>k. max al sz + (if fresh then 1 else 0) \<le> k \<Longrightarrow> k \<le> max_order a \<Longrightarrow>
      candidate n F a fresh k = None"
  shows "page_memalign_order n (a, h) al sz fresh = Inr (None, a, h)"
proof -
  let ?o = "(if sz > al then sz else al) + (if fresh then 1 else 0)"
  obtain r where r: "find_order n (a, h) fresh ?o = Inr r"
    "case r of None \<Rightarrow> True | Some (k, p, idx) \<Rightarrow> ?o \<le> k \<and> k \<le> max_order a \<and> candidate n F a fresh k \<noteq> None"
    using find_order_correct[OF inv, of fresh ?o] by (force split: option.splits prod.splits)
  have "?o = max al sz + (if fresh then 1 else 0)" by auto
  then have "r = None" using r(2) none by (auto split: option.splits prod.splits)
  with r(1) le show ?thesis by (simp add: page_memalign_order_def)
qed

text \<open>The part common to both kinds of request: a candidate is found and split.\<close>

lemma page_memalign_order_split:
  assumes inv: "area_inv H F n (a, h)" and le: "al < NLISTS" "sz < NLISTS"
    and c: "max al sz + (if fresh then 1 else 0) \<le> k0" "k0 \<le> max_order a" "candidate n F a fresh k0 \<noteq> None"
  obtains k pfn F1 a1 h1 where "max al sz \<le> k" "candidate n F a fresh k = Some pfn" "k < NLISTS"
    "pfn mod 2 ^ k = 0" "{pfn..<pfn + 2 ^ k} \<subseteq> usable_pfns a"
    "area_step H n {pfn..<pfn + 2 ^ k} (F, a, h) (F1, a1, h1)" "pfn \<in> listed F1 n sz"
    "usable_pfns a1 = usable_pfns a" "fresh \<Longrightarrow> IS_FRESH (pstate a1 pfn)"
    "page_memalign_order n (a, h) al sz fresh = take_block n (a1, h1) sz (LPage pfn) (pfn - base a) fresh"
proof -
  define ord where "ord = max al sz + (if fresh then 1 else 0)"
  have o: "(if sz > al then sz else al) + (if fresh then 1 else 0) = ord" by (auto simp: ord_def)
  obtain r where r: "find_order n (a, h) fresh ord = Inr r"
    "case r of None \<Rightarrow> \<forall>k. ord \<le> k \<and> k \<le> max_order a \<longrightarrow> candidate n F a fresh k = None
     | Some (k, p, idx) \<Rightarrow> ord \<le> k \<and> k \<le> max_order a \<and>
         (\<exists>pfn. candidate n F a fresh k = Some pfn \<and> p = LPage pfn \<and> idx = pfn - base a)"
    using find_order_correct[OF inv, of fresh ord] by blast
  have "r \<noteq> None" using r(2) c unfolding ord_def by (cases r) auto
  with r(2) obtain k pfn where k: "r = Some (k, LPage pfn, pfn - base a)" "ord \<le> k" "k \<le> max_order a"
    "candidate n F a fresh k = Some pfn" by (cases r) auto
  have kN: "k < NLISTS" using k(3) area_inv_shape[OF inv] by (simp add: area_shape_def)
  note cl = candidate_listed[OF inv kN k(4)]
  note fb = area_inv_block[OF inv kN cl(1)]
  have ms: "min k sz = sz" "max al sz \<le> k" using k(2) by (auto simp: ord_def)
  have os: "(if sz < k then sz else k) = sz" using ms(2) by auto
  obtain F1 a1 h1 where 1: "split_to n sz (LPage pfn) k (a, h) = Inr (a1, h1)"
    "area_step H n {pfn..<pfn + 2 ^ k} (F, a, h) (F1, a1, h1)" "pfn \<in> listed F1 n sz"
    "usable_pfns a1 = usable_pfns a"
    "\<forall>q. base a \<le> q \<and> q < top a \<longrightarrow> IS_FRESH (pstate a1 q) = IS_FRESH (pstate a q)"
    using split_to_correct[OF inv kN cl(1), of sz] unfolding ms(1) by blast
  have "page_memalign_order n (a, h) al sz fresh = take_block n (a1, h1) sz (LPage pfn) (pfn - base a) fresh"
    unfolding page_memalign_order_def Let_def o using r(1) le 1(1) os k(1) by simp
  moreover have "fresh \<Longrightarrow> IS_FRESH (pstate a1 pfn)"
    using 1(5) cl(2) is_free_block_range[OF fb] is_free_block_first[OF fb] by simp
  ultimately show ?thesis
    using that[OF ms(2) k(4) kN] is_free_block_range[OF fb] free_block_usable[OF fb] 1 by auto
qed

text \<open>An ordinary request: a block of the order asked for, aligned as asked for.\<close>

lemma page_memalign_order_some:
  assumes inv: "area_inv H F n (a, h)" and le: "al < NLISTS" "sz < NLISTS"
    and c: "max al sz \<le> k0" "k0 \<le> max_order a" "F (LHead n k0) \<noteq> []"
  shows "\<exists>pfn F' a' h'. page_memalign_order n (a, h) al sz False = Inr (Some (LPage pfn), a', h') \<and>
    area_step H n (usable_pfns a) (F, a, h) (F', a', h') \<and> allocates a a' pfn sz \<and> pfn mod 2 ^ al = 0"
proof -
  have cd: "candidate n F a False k0 \<noteq> None" using c(3) by (simp add: candidate_def)
  obtain k pfn F1 a1 h1 where k: "max al sz \<le> k" "pfn mod 2 ^ k = 0" "{pfn..<pfn + 2 ^ k} \<subseteq> usable_pfns a"
    and 1: "area_step H n {pfn..<pfn + 2 ^ k} (F, a, h) (F1, a1, h1)" "pfn \<in> listed F1 n sz"
    "usable_pfns a1 = usable_pfns a"
    and eq: "page_memalign_order n (a, h) al sz False = take_block n (a1, h1) sz (LPage pfn) (pfn - base a) False"
    by (rule page_memalign_order_split[OF inv le _ c(2) cd]) (use c(1) in auto)
  obtain F2 a2 h2 where 2: "take_block n (a1, h1) sz (LPage pfn) (pfn - base a1) False = Inr (Some (LPage pfn), a2, h2)"
    "area_step H n {pfn..<pfn + 2 ^ sz} (F1, a1, h1) (F2, a2, h2)"
    "block_state a2 pfn sz (STATUS_ALLOCATED OR of_nat sz)" "usable_pfns a2 = usable_pfns a1 - {pfn..<pfn + 2 ^ sz}"
    using take_block_correct[OF area_step_inv[OF 1(1)] le(2) 1(2)] by blast
  have "(2::nat) ^ sz \<le> 2 ^ k" using k(1) by (intro power_increasing) auto
  then have sub: "{pfn..<pfn + 2 ^ sz} \<subseteq> usable_pfns a"
    by (intro order_trans[OF _ k(3)]) auto
  have "area_step H n (usable_pfns a) (F, a, h) (F2, a2, h2)"
    using area_step_trans[OF area_step_usable[OF 1(1) k(3)] area_step_usable[OF 2(2) sub]] .
  moreover have "pfn mod 2 ^ al = 0" using mod_pow2_le[OF k(2)] k(1) by simp
  ultimately show ?thesis
    using eq 2 sub 1(3) area_step_geometry[OF 1(1)] unfolding allocates_def by auto
qed

section \<open>Requests for fresh memory\<close>

text \<open>
  With \<open>fresh\<close> the last step halves the block of the order asked for and hands out its
  second half only.
\<close>

lemma set_pages_second_half:
  assumes "area_shape a" "base a \<le> p" "p + (m + m) \<le> top a"
  shows "set_pages p m v (set_pages p (m + m) w a) = set_pages (p + m) m w (set_pages p m v a)"
proof -
  have l: "p - base a + (m + m) \<le> length (page_states a)" and b: "p + m - base a = p - base a + m"
    using assms by (auto simp: area_shape_def)
  have "fill (p - base a) m v (fill (p - base a) (m + m) w (page_states a))
      = fill (p - base a + m) m w (fill (p - base a) m v (page_states a))"
    by (rule nth_equalityI) (use l in \<open>auto simp: nth_fill\<close>)
  then show ?thesis by (simp add: set_pages_def b)
qed

lemma take_block_fresh:
  assumes inv: "area_inv H F n (a, h)" and k: "k < NLISTS" "k \<noteq> 0" and p: "pfn \<in> listed F n k"
    and fr: "IS_FRESH (pstate a pfn)"
  shows "\<exists>F' a' h'. take_block n (a, h) k (LPage pfn) (pfn - base a) True =
      Inr (Some (LPage (pfn + 2 ^ (k - 1))), a', h') \<and>
    area_step H n {pfn..<pfn + 2 ^ k} (F, a, h) (F', a', h') \<and>
    allocates a a' (pfn + 2 ^ (k - 1)) (k - 1)"
proof -
  let ?m = "2 ^ (k - 1) :: nat" and ?v = "STATUS_ALLOCATED OR of_nat (k - 1)" and ?w = "STATUS_FRESH OR of_nat (k - 1)"
  let ?F1 = "F(LHead n k := remove1 (LPage pfn) (F (LHead n k)))" and ?a1 = "set_pages pfn (2 ^ k) ?v a"
  have sh: "area_shape a" using inv by (rule area_inv_shape)
  note fb = area_inv_block[OF inv k(1) p]
  have r: "base a \<le> pfn" "pfn + 2 ^ k \<le> top a" "pfn mod 2 ^ k = 0" using is_free_block_range[OF fb] by auto
  note hb = half_blocks[OF r(3) k(2)]
  have k': "k - 1 < NLISTS" "k - 1 < 64" using k by (auto simp: NLISTS_eq)
  have nu: "\<not> IS_USABLE ?v" using k' by simp
  obtain h1 where h1: "list_remove h (LPage pfn) = Inr (Some (LPage pfn), h1)" "area_inv H ?F1 n (?a1, h1)"
    using inv_take[OF inv k(1) p nu] by blast
  have u1: "usable_pfns ?a1 = usable_pfns a - {pfn..<pfn + 2 ^ k}"
    using usable_set_pages[OF sh r(1,2)] nu by simp
  have r1: "base ?a1 \<le> pfn" "pfn + 2 ^ (k - 1) \<le> top ?a1" using r hb(1) by auto
  obtain h2 where h2: "list_add_tail h1 (Some (LHead n (k - 1))) (Some (LPage pfn)) = Inr h2"
    "area_inv H (?F1(LHead n (k - 1) := ?F1 (LHead n (k - 1)) @ [LPage pfn])) n (set_pages pfn ?m ?w ?a1, h2)"
    using inv_give(2)[OF h1(2) k'(1) usable_status_simps(1) r1 hb(2)] u1 hb(1) by fastforce
  let ?F2 = "?F1(LHead n (k - 1) := ?F1 (LHead n (k - 1)) @ [LPage pfn])" and ?a0 = "set_pages pfn ?m ?w a"
  let ?a2 = "set_pages (pfn + ?m) ?m ?v ?a0"
  have r2: "pfn + (?m + ?m) \<le> top a" "pfn + ?m \<le> top a" using r(2) hb(1) by auto
  have a2: "set_pages pfn ?m ?w ?a1 = ?a2"
    unfolding hb(1) by (rule set_pages_second_half[OF sh r(1) r2(1)])
  have sh0: "area_shape ?a0" using sh r(1) r2(2) by simp
  have b0: "base ?a0 \<le> pfn + ?m" "pfn + ?m + ?m \<le> top ?a0" using r(1) r2(1) by auto
  have o: "(k + 255) mod 256 = k - 1" using k k' by (cases k) auto
  have "pfn + ?m - base a = pfn - base a + ?m" "base a + (pfn - base a + ?m) = pfn + ?m" using r(1) by auto
  then have tb: "take_block n (a, h) k (LPage pfn) (pfn - base a) True = Inr (Some (LPage (pfn + ?m)), ?a2, h2)"
    using h1(1) h2(1) o k' memset_pages[OF sh r(1) r2(2), of ?w] memset_pages[OF sh0 b0, of ?v]
    by (simp add: take_block_def Let_def set_pages_def)
  have below: "lists_below n ?F2 ?a2" if lb: "lists_below n F a"
    unfolding lists_below_def
  proof (intro allI impI)
    fix j assume j: "j < NLISTS" "max_order ?a2 < j"
    have "F (LHead n k) \<noteq> []" using p by (auto simp: listed_def)
    then have "k \<le> max_order a" using lb k(1) unfolding lists_below_def by (meson not_le)
    then have "j \<noteq> k - 1" "j \<noteq> k" "F (LHead n j) = []" using j lb by (auto simp: lists_below_def)
    then show "?F2 (LHead n j) = []" by simp
  qed
  have so: "same_off {pfn..<pfn + 2 ^ k} a ?a2"
    using same_off_trans[OF same_off_mono[OF same_off_set_pages[OF sh r(1) r2(2)]]
        same_off_mono[OF same_off_set_pages[OF sh0 b0]]] unfolding hb(1) by fastforce
  have st: "area_step H n {pfn..<pfn + 2 ^ k} (F, a, h) (?F2, ?a2, h2)"
    using h2(2) so below unfolding area_step_def a2 by simp
  have "usable_pfns ?a2 = usable_pfns a - {pfn + ?m..<pfn + ?m + ?m}"
    using usable_set_pages[OF sh0 b0] usable_set_pages[OF sh r(1) r2(2), of ?w] nu k'
      free_block_usable[OF fb] unfolding hb(1) by auto
  moreover have "{pfn + ?m..<pfn + ?m + ?m} \<subseteq> usable_pfns a" using free_block_usable[OF fb] unfolding hb(1) by fastforce
  ultimately have "allocates a ?a2 (pfn + ?m) (k - 1)"
    using block_state_set_pages[OF sh0 b0 hb(3), of ?v] by (simp add: allocates_def)
  with tb st show ?thesis by blast
qed

section \<open>Coalescing\<close>

lemma order_usable: "k < 64 \<Longrightarrow> IS_USABLE (of_nat k)"
  using meta_usable[of STATUS_FRESH k] by (simp add: fresh_meta_eq)

text \<open>A page whose metadata is just an order, and aligned to it, starts a listed fresh block.\<close>

lemma fresh_page_listed:
  assumes inv: "area_inv H F n (a, h)" and k: "k < NLISTS" and r: "base a \<le> q" "q < top a" "q mod 2 ^ k = 0"
    and v: "pstate a q = of_nat k"
  shows "q \<in> listed F n k \<and> block_state a q k (of_nat k)"
proof -
  have k64: "k < 64" using k by (simp add: NLISTS_eq)
  have "IS_USABLE (of_nat k)" using k64 by (rule order_usable)
  then have "q \<in> usable_pfns a" using r v by (simp add: usable_pfns_def)
  with area_invD(4)[OF inv] obtain j p where j: "j < NLISTS" "p \<in> listed F n j" "p \<le> q" "q < p + 2 ^ j"
    by (rule area_ok_cover)
  obtain s where s: "usable_status s" "block_state a p j (s OR of_nat j)" "j < 64"
    using area_inv_block[OF inv j(1,2)] by (rule is_free_blockE)
  have e: "s OR of_nat j = of_nat k" using block_state_page[OF s(2) j(3,4)] v by simp
  then have "order_of (s OR of_nat j) = order_of (of_nat k)" by simp
  then have jk: "j = k" using s k64 by (simp add: order_of_nat)
  have "p = q"
  proof (rule ccontr)
    assume "p \<noteq> q"
    with aligned_blocks_disjoint[of p k q] r(3) s(2) jk
    have "p + 2 ^ k \<le> q \<or> q + 2 ^ k \<le> p" by (simp add: block_state_def)
    moreover have "0 < (2::nat) ^ k" by simp
    ultimately show False using j(3,4) unfolding jk by linarith
  qed
  with jk j(2) s(2) e show ?thesis by simp
qed

lemma coalesce_order_bound:
  assumes "area_shape a" "pfn + 2 ^ (k + 1) \<le> top a"
  shows "k + 1 < NLISTS"
proof -
  have "(2::nat) ^ (k + 1) \<le> pfn + 2 ^ (k + 1)" by simp
  also have "\<dots> < 2 ^ NLISTS" using assms by (auto simp: area_shape_def)
  finally show ?thesis by (rule power_less_imp_less_exp[rotated]) simp
qed

text \<open>Merging two listed fresh buddies on the lists and in the metadata.\<close>

lemma inv_coalesce:
  assumes inv: "area_inv H F n (a, h)" and k: "k + 1 < NLISTS"
    and p: "pfn \<in> listed F n k" "pfn + 2 ^ k \<in> listed F n k" and al: "pfn mod 2 ^ (k + 1) = 0"
  shows "\<exists>h1 h2 h3 F'. list_remove h (LPage (pfn + 2 ^ k)) = Inr (Some (LPage (pfn + 2 ^ k)), h1) \<and>
    list_remove h1 (LPage pfn) = Inr (Some (LPage pfn), h2) \<and>
    list_add h2 (Some (LHead n (k + 1))) (Some (LPage pfn)) = Inr h3 \<and>
    area_inv H F' n (set_pages pfn (2 * 2 ^ k) (of_nat (k + 1)) a, h3) \<and> same_other n F F' \<and>
    pfn \<in> listed F' n (k + 1) \<and> (\<forall>j > k + 1. F' (LHead n j) = F (LHead n j))"
proof -
  let ?v = "STATUS_ALLOCATED OR of_nat k" and ?q = "pfn + 2 ^ k" and ?x = "LHead n k" and ?y = "LHead n (k + 1)"
  have kN: "k < NLISTS" "\<not> IS_USABLE ?v" using k by (auto simp: NLISTS_eq)
  have sh: "area_shape a" using inv by (rule area_inv_shape)
  have r: "base a \<le> pfn" "pfn + 2 * 2 ^ k \<le> top a"
    using is_free_block_range[OF area_inv_block[OF inv kN(1) p(1)]]
      is_free_block_range[OF area_inv_block[OF inv kN(1) p(2)]] by auto
  let ?F1 = "F(?x := remove1 (LPage ?q) (F ?x))" and ?a1 = "set_pages ?q (2 ^ k) ?v a"
  obtain h1 where h1: "list_remove h (LPage ?q) = Inr (Some (LPage ?q), h1)" "area_inv H ?F1 n (?a1, h1)"
    using inv_take[OF inv kN(1) p(2) kN(2)] by blast
  have p1: "pfn \<in> listed ?F1 n k" using p(1) by (simp add: listed_def in_set_remove1)
  let ?F2 = "?F1(?x := remove1 (LPage pfn) (?F1 ?x))" and ?a2 = "set_pages pfn (2 ^ k) ?v ?a1"
  obtain h2 where h2: "list_remove h1 (LPage pfn) = Inr (Some (LPage pfn), h2)" "area_inv H ?F2 n (?a2, h2)"
    using inv_take[OF h1(2) kN(1) p1 kN(2)] by blast
  have sh1: "area_shape ?a1" and b: "base ?a1 \<le> pfn" "pfn + 2 ^ k \<le> top ?a1" "base a \<le> ?q" "?q + 2 ^ k \<le> top a"
    using sh r by auto
  have u: "{pfn..<pfn + 2 ^ (k + 1)} \<inter> usable_pfns ?a2 = {}"
    using usable_set_pages[OF sh1 b(1,2), of ?v] usable_set_pages[OF sh b(3,4), of ?v] kN(2) by auto
  obtain h3 where h3: "list_add h2 (Some ?y) (Some (LPage pfn)) = Inr h3"
    "area_inv H (?F2(?y := LPage pfn # ?F2 ?y)) n (set_pages pfn (2 ^ (k + 1)) (STATUS_FRESH OR of_nat (k + 1)) ?a2, h3)"
    using inv_give(1)[OF h2(2) k usable_status_simps(1) _ _ al u] r by auto
  have e: "set_pages pfn (2 ^ (k + 1)) w ?a2 = set_pages pfn (2 * 2 ^ k) w a" for w
  proof -
    have "pfn - base a + 2 * 2 ^ k \<le> length (page_states a)" "?q - base a = pfn - base a + 2 ^ k"
      using sh r by (auto simp: area_shape_def)
    then have "fill (pfn - base a) (2 * 2 ^ k) w (fill (pfn - base a) (2 ^ k) ?v (fill (?q - base a) (2 ^ k) ?v (page_states a)))
       = fill (pfn - base a) (2 * 2 ^ k) w (page_states a)"
      by (intro nth_equalityI) (auto simp: nth_fill)
    then show ?thesis by (simp add: set_pages_def)
  qed
  show ?thesis
    using h1(1) h2(1) h3 unfolding e fresh_meta_eq
    by (intro exI[of _ h1] exI[of _ h2] exI[of _ h3] exI[of _ "?F2(?y := LPage pfn # ?F2 ?y)"] conjI)
       (auto simp: listed_def)
qed

text \<open>
  The condition under which \<open>coalesce\<close> merges: both blocks inside the area, both first pages
  carrying the bare order, which is the metadata of a fresh block.
\<close>

definition mergeable :: "mem_area \<Rightarrow> nat \<Rightarrow> nat \<Rightarrow> bool" where
  "mergeable a k pfn \<longleftrightarrow> base a \<le> pfn \<and> pfn + 2 ^ (k + 1) \<le> top a \<and>
     pstate a pfn = of_nat k \<and> pstate a (pfn + 2 ^ k) = of_nat k"

lemma pow2_pos: "0 < (2::nat) ^ k"
  by simp

lemma coalesce_no_merge:
  assumes sh: "area_shape a" and al: "pfn mod 2 ^ k = 0" and nm: "\<not> mergeable a k pfn"
  shows "coalesce n (a, h) k pfn (pfn + 2 ^ k) = Inr (False, a, h)"
proof (cases "base a \<le> pfn \<and> pfn + 2 ^ k + 2 ^ k \<le> top a")
  case True
  then have "pfn - base a < length (page_states a)" "pfn + 2 ^ k - base a < length (page_states a)"
    using sh pow2_pos[of k] unfolding area_shape_def by linarith+
  with True nm al sh show ?thesis
    by (auto simp: coalesce_def IS_ALIGNED_ORDER_def usable_area_contains_pfn_def mergeable_def pstate_def Let_def)
next
  case False
  then have "\<not> usable_area_contains_pfn a pfn \<or> \<not> usable_area_contains_pfn a (pfn + 2 ^ k + 2 ^ k - 1)"
    using pow2_pos[of k] unfolding usable_area_contains_pfn_def by linarith
  with al show ?thesis by (auto simp: coalesce_def IS_ALIGNED_ORDER_def)
qed

lemma coalesce_merge:
  assumes inv: "area_inv H F n (a, h)" and k: "k < NLISTS" and al: "pfn mod 2 ^ (k + 1) = 0"
    and m: "mergeable a k pfn"
  shows "\<exists>F' a' h'. coalesce n (a, h) k pfn (pfn + 2 ^ k) = Inr (True, a', h') \<and>
    area_step H n {pfn..<pfn + 2 ^ (k + 1)} (F, a, h) (F', a', h') \<and>
    pfn \<in> listed F' n (k + 1) \<and> usable_pfns a' = usable_pfns a"
proof -
  let ?q = "pfn + 2 ^ k"
  have sh: "area_shape a" using inv by (rule area_inv_shape)
  have r: "base a \<le> pfn" "pfn + 2 * 2 ^ k \<le> top a" using m by (auto simp: mergeable_def)
  then have rq: "pfn < top a" "?q < top a" "?q + 2 ^ k - 1 < top a" "base a \<le> ?q + 2 ^ k - 1"
    using pow2_pos[of k] by linarith+
  have alk: "pfn mod 2 ^ k = 0" "?q mod 2 ^ k = 0" using mod_pow2_le[OF al, of k] by auto
  have k1: "k + 1 < NLISTS" by (rule coalesce_order_bound[OF sh]) (use r in auto)
  have f: "pfn \<in> listed F n k \<and> block_state a pfn k (of_nat k)" "?q \<in> listed F n k \<and> block_state a ?q k (of_nat k)"
    using fresh_page_listed[OF inv k] r rq alk m by (auto simp: mergeable_def)
  obtain h1 h2 h3 F' where h: "list_remove h (LPage ?q) = Inr (Some (LPage ?q), h1)"
    "list_remove h1 (LPage pfn) = Inr (Some (LPage pfn), h2)"
    "list_add h2 (Some (LHead n (k + 1))) (Some (LPage pfn)) = Inr h3"
    and inv': "area_inv H F' n (set_pages pfn (2 * 2 ^ k) (of_nat (k + 1)) a, h3)" "same_other n F F'"
    "pfn \<in> listed F' n (k + 1)" "\<forall>j > k + 1. F' (LHead n j) = F (LHead n j)"
    using inv_coalesce[OF inv k1 _ _ al] f by blast
  let ?a = "set_pages pfn (2 * 2 ^ k) (of_nat (k + 1)) a"
  let ?mo = "if k + 1 > max_order a then k + 1 else max_order a"
  have st: "page_states a ! i = of_nat k" if "pfn - base a \<le> i" "i < pfn - base a + 2 * 2 ^ k" for i
  proof -
    have "pstate a (base a + i) = of_nat k"
      using block_state_page[of a pfn k _ "base a + i"] block_state_page[of a ?q k _ "base a + i"] f that r
      by (cases "base a + i < ?q") auto
    then show ?thesis by (simp add: pstate_def)
  qed
  have cs: "check_and_set (2 * 2 ^ k) (pfn - base a) (of_nat k) (of_nat (k + 1)) (page_states a) = Inr (page_states ?a)"
    using check_and_set_eq[of "pfn - base a" "2 * 2 ^ k" "page_states a"] st sh r by (simp add: area_shape_def)
  have idx: "pfn - base a < length (page_states a)" "?q - base a < length (page_states a)"
    using sh r rq by (auto simp: area_shape_def)
  have "coalesce n (a, h) k pfn ?q = Inr (True, ?a\<lparr>max_order := ?mo\<rparr>, h3)"
    using h cs idx alk r rq m k1 by (simp add: coalesce_def IS_ALIGNED_ORDER_def usable_area_contains_pfn_def
        mergeable_def pstate_def Let_def set_pages_def)
  moreover have "lists_below n F' (?a\<lparr>max_order := ?mo\<rparr>)" if "lists_below n F a"
    using that inv'(4) by (simp add: lists_below_def)
  then have "area_step H n {pfn..<pfn + 2 ^ (k + 1)} (F, a, h) (F', ?a\<lparr>max_order := ?mo\<rparr>, h3)"
    using area_inv_max_order[OF inv'(1), of ?mo] k1 sh inv'(2) same_off_set_pages[OF sh r(1,2)]
    by (auto simp: area_step_def area_shape_def)
  moreover have "usable_pfns ?a = usable_pfns a"
  proof -
    have "IS_USABLE (of_nat (k + 1))" using order_usable[of "k + 1"] k1 by (simp add: NLISTS_eq)
    moreover have "{pfn..<pfn + 2 * 2 ^ k} \<subseteq> {pfn..<?q} \<union> {?q..<?q + 2 ^ k}" by auto
    moreover have "{pfn..<?q} \<subseteq> usable_pfns a" "{?q..<?q + 2 ^ k} \<subseteq> usable_pfns a"
      using free_block_usable[OF area_inv_block[OF inv k]] f by blast+
    ultimately show ?thesis using usable_set_pages[OF sh r(1,2)] by auto
  qed
  ultimately show ?thesis using inv'(3) by auto
qed

section \<open>Freeing\<close>

text \<open>
  A block that has just been freed carries \<open>STATUS_FREE\<close>, so the comparison with the bare order
  in \<open>coalesce\<close> fails and the loop stops after its first round.
\<close>

lemma coalesce_loop_free:
  assumes sh: "area_shape a" and k: "k < NLISTS" and b: "block_state a pfn k (STATUS_FREE OR of_nat k)"
  shows "coalesce_loop (Suc fuel) n (pfn - base a) pfn (a, h) = Inr (a, h)"
proof -
  let ?p = "if pfn mod 2 ^ (k + 1) = 0 then pfn else pfn - 2 ^ k"
  have k64: "k < 64" using k by (simp add: NLISTS_eq)
  have v: "pstate a pfn = STATUS_FREE OR of_nat k" and al: "pfn mod 2 ^ k = 0"
    using b by (auto simp: block_state_def)
  have "base a \<le> pfn" "pfn < top a" using b pow2_pos[of k] unfolding block_state_def by linarith+
  then have g: "arr_get (page_states a) (pfn - base a) = Inr (STATUS_FREE OR of_nat k)"
    using v sh by (simp add: pstate_def area_shape_def)
  have p: "?p = pfn \<or> ?p + 2 ^ k = pfn" "?p mod 2 ^ k = 0"
    using not_aligned_Suc[OF al] al by (auto simp: le_mod_geq)
  have "\<not> mergeable a k ?p" using p(1) v free_meta_neq[OF k64] by (auto simp: mergeable_def)
  from coalesce_no_merge[OF sh p(2) this] g k64 show ?thesis
    by (auto simp: IS_ALIGNED_ORDER_def Let_def split: if_splits)
qed

lemma free_block_correct:
  assumes inv: "area_inv H F n (a, h)" and k: "k < NLISTS"
    and b: "block_state a pfn k (STATUS_ALLOCATED OR of_nat k)"
  shows "\<exists>h'. free_block n (a, h) pfn = Inr (set_pages pfn (2 ^ k) (STATUS_FREE OR of_nat k) a, h') \<and>
    area_inv H (F(LHead n k := LPage pfn # F (LHead n k))) n
      (set_pages pfn (2 ^ k) (STATUS_FREE OR of_nat k) a, h')"
proof -
  let ?v = "STATUS_FREE OR of_nat k" let ?a = "set_pages pfn (2 ^ k) ?v a"
  have sh: "area_shape a" using inv by (rule area_inv_shape)
  have k64: "k < 64" using k by (simp add: NLISTS_eq)
  have r: "base a \<le> pfn" "pfn + 2 ^ k \<le> top a" "pfn mod 2 ^ k = 0" using b by (auto simp: block_state_def)
  have pt: "pfn < top a" "pfn + 2 ^ k - 1 < top a" "base a \<le> pfn + 2 ^ k - 1"
    using r pow2_pos[of k] by linarith+
  have u: "{pfn..<pfn + 2 ^ k} \<inter> usable_pfns a = {}"
    using block_state_page[OF b] k64 by (auto simp: usable_pfns_def)
  obtain h' where h': "list_add h (Some (LHead n k)) (Some (LPage pfn)) = Inr h'"
    "area_inv H (F(LHead n k := LPage pfn # F (LHead n k))) n (?a, h')"
    using inv_give(1)[OF inv k usable_status_simps(2) r u] by blast
  have "coalesce_loop (Suc (NLISTS - 1)) n (pfn - base ?a) pfn (?a, h') = Inr (?a, h')"
    by (rule coalesce_loop_free[OF area_shape_set_pages[OF sh r(1,2)] k block_state_set_pages[OF sh r]])
  then have cl: "coalesce_loop NLISTS n (pfn - base a) pfn (?a, h') = Inr (?a, h')" by (simp add: NLISTS_eq)
  have g: "arr_get (page_states a) (pfn - base a) = Inr (STATUS_ALLOCATED OR of_nat k)"
    using block_state_first[OF b] sh r pt by (simp add: pstate_def area_shape_def)
  have "free_block n (a, h) pfn = Inr (?a, h')"
    using g cl k k64 r pt check_and_set_block[OF sh b, of ?v] h'(1)
    by (simp add: free_block_def IS_ALIGNED_ORDER_def usable_area_contains_pfn_def Let_def set_pages_def)
  with h'(2) show ?thesis by blast
qed

end
