(* ===== verification/AllocPageInit.thy ===== *)
theory AllocPageInit
  imports AllocPageOps
begin

text \<open>
  Adding a memory area to the page allocator (\<open>_page_alloc_init_area\<close>): the loop carves the
  area into aligned blocks, never fails once the entry checks have passed, and leaves
  every page usable and listed.
\<close>

section \<open>The choice of the order\<close>

lemma init_shrink_correct:
  "i < t \<Longrightarrow> \<exists>o1. init_shrink i t order = Inr o1 \<and> o1 \<le> order \<and> i + 2 ^ o1 \<le> t"
proof (induction order)
  case 0
  then show ?case by (simp add: init_shrink.simps)
next
  case (Suc k)
  then show ?case
    by (cases "i + 2 ^ Suc k > t") (auto simp: init_shrink.simps intro: le_SucI)
qed

lemma init_grow_correct:
  assumes "i + 2 ^ order \<le> t" "i mod 2 ^ order = 0"
  shows "i + 2 ^ init_grow i t order \<le> t \<and> i mod 2 ^ init_grow i t order = 0 \<and> order \<le> init_grow i t order"
  using assms
proof (induction i t order rule: init_grow.induct)
  case (1 i t order)
  show ?case
  proof (cases "IS_ALIGNED_ORDER i (order + 1) \<and> i + 2 ^ (order + 1) \<le> t")
    case True
    then have "i + 2 ^ (order + 1) \<le> t" "i mod 2 ^ (order + 1) = 0"
      by (simp_all only: IS_ALIGNED_ORDER_def)
    from "1.IH"[OF True this]
    have "i + 2 ^ init_grow i t (order + 1) \<le> t \<and> i mod 2 ^ init_grow i t (order + 1) = 0 \<and>
        order + 1 \<le> init_grow i t (order + 1)" .
    moreover have "init_grow i t order = init_grow i t (order + 1)"
      by (subst init_grow.simps) (rule if_P[OF True])
    ultimately show ?thesis by simp
  next
    case False
    have "init_grow i t order = order" by (subst init_grow.simps) (rule if_not_P[OF False])
    with 1(2,3) show ?thesis by simp
  qed
qed

text \<open>The block chosen at \<open>i\<close> is the largest aligned one that fits.\<close>

lemma init_grow_maximal:
  "\<not> (i mod 2 ^ (init_grow i t order + 1) = 0 \<and> i + 2 ^ (init_grow i t order + 1) \<le> t)"
proof (induction i t order rule: init_grow.induct)
  case (1 i t order)
  show ?case
  proof (cases "IS_ALIGNED_ORDER i (order + 1) \<and> i + 2 ^ (order + 1) \<le> t")
    case True
    moreover have "init_grow i t order = init_grow i t (order + 1)"
      by (subst init_grow.simps) (rule if_P[OF True])
    ultimately show ?thesis using 1 by simp
  next
    case False
    have "init_grow i t order = order" by (subst init_grow.simps) (rule if_not_P[OF False])
    with False show ?thesis unfolding IS_ALIGNED_ORDER_def by simp
  qed
qed

section \<open>The initialised part of an area\<close>

text \<open>The area up to page \<open>i\<close>, where the loop has got to.\<close>

definition upto :: "nat \<Rightarrow> mem_area \<Rightarrow> mem_area" where
  "upto i a = a\<lparr>top := i, page_states := take (i - base a) (page_states a)\<rparr>"

lemma upto_simps [simp]:
  "base (upto i a) = base a" "top (upto i a) = i" "max_order (upto i a) = max_order a"
  by (simp_all add: upto_def)

lemma pstate_upto: "base a \<le> q \<Longrightarrow> q < i \<Longrightarrow> pstate (upto i a) q = pstate a q"
  by (simp add: pstate_def upto_def)

lemma area_shape_upto: "area_shape a \<Longrightarrow> base a \<le> i \<Longrightarrow> i \<le> top a \<Longrightarrow> area_shape (upto i a)"
  by (auto simp: area_shape_def upto_def min_def)

lemma upto_top: "area_shape a \<Longrightarrow> upto (top a) a = a"
  by (simp add: upto_def area_shape_def)

lemma is_free_block_upto:
  assumes "is_free_block (upto i a) p k" "i \<le> j" "\<And>q. base a \<le> q \<Longrightarrow> q < i \<Longrightarrow> pstate b q = pstate a q"
    "base b = base a"
  shows "is_free_block (upto j b) p k"
proof -
  obtain s where s: "usable_status s" "block_state (upto i a) p k (s OR of_nat k)" "k < NLISTS"
    using assms(1) by (rule is_free_blockE)
  have "block_state (upto j b) p k (s OR of_nat k)"
    using s(2) assms(2-4) by (auto simp: block_state_def pstate_upto)
  with s show ?thesis by (auto simp: is_free_block_def)
qed

lemma usable_pfns_upto: "usable_pfns (upto i a) = {q. base a \<le> q \<and> q < i \<and> IS_USABLE (pstate a q)}"
  by (auto simp: usable_pfns_def pstate_upto)

lemma set_pages_upto_same:
  assumes "area_shape a" "base a \<le> i" "i + n \<le> top a"
  shows "base a \<le> q \<Longrightarrow> q < i \<Longrightarrow> pstate (set_pages i n v a) q = pstate a q"
  using assms by (simp add: pstate_set_pages)

text \<open>One round: the pages of the new block go from unwritten to fresh.\<close>

lemma init_area_ok:
  assumes ok: "area_ok (upto i a) L" and sh: "area_shape a" and r: "base a \<le> i" "i + 2 ^ k \<le> top a" "i mod 2 ^ k = 0"
    and k: "k < NLISTS"
  shows "area_ok (upto (i + 2 ^ k) (set_pages i (2 ^ k) (STATUS_FRESH OR of_nat k) a)) (L(k := insert i (L k)))"
    (is "area_ok ?b (L(k := insert i (L k)))")
proof -
  let ?a = "set_pages i (2 ^ k) (STATUS_FRESH OR of_nat k) a"
  have k64: "k < 64" using k by (simp add: NLISTS_eq)
  note same = set_pages_upto_same[OF sh r(1,2)]
  have us: "usable_pfns ?b = usable_pfns (upto i a) \<union> {i..<i + 2 ^ k}"
    using r k64 by (auto simp: usable_pfns_upto pstate_set_pages[OF sh r(1,2)])
  have new: "is_free_block ?b i k"
  proof -
    have "block_state ?b i k (STATUS_FRESH OR of_nat k)"
      using r by (auto simp: block_state_def pstate_upto pstate_set_pages[OF sh r(1,2)])
    with k show ?thesis unfolding is_free_block_def by (intro conjI exI[of _ STATUS_FRESH]) auto
  qed
  have "area_shape ?b" using area_shape_set_pages[OF sh r(1,2)] r by (intro area_shape_upto) auto
  moreover have "is_free_block ?b p j" if "j < NLISTS" "p \<in> (L(k := insert i (L k))) j" for j p
  proof (cases "p = i \<and> j = k")
    case False
    then have "p \<in> L j" using that(2) by (auto split: if_splits)
    then have "is_free_block (upto i a) p j" by (rule area_ok_block[OF ok that(1)])
    then show ?thesis by (rule is_free_block_upto) (use same in auto)
  qed (use new in auto)
  moreover have "\<exists>j < NLISTS. \<exists>p \<in> (L(k := insert i (L k))) j. p \<le> q \<and> q < p + 2 ^ j" if "q \<in> usable_pfns ?b" for q
  proof (cases "q \<in> {i..<i + 2 ^ k}")
    case True
    with k show ?thesis by (intro exI[of _ k]) auto
  next
    case False
    then have "q \<in> usable_pfns (upto i a)" using that us by auto
    with ok obtain j p where j: "j < NLISTS" "p \<in> L j" "p \<le> q" "q < p + 2 ^ j" by (rule area_ok_cover)
    then have "p \<in> (L(k := insert i (L k))) j" by auto
    with j show ?thesis by blast
  qed
  ultimately show ?thesis by (simp add: area_ok_def)
qed

text \<open>
  The loop invariant: the part below \<open>i\<close> satisfies the area invariant with every page usable,
  and no list of another area holds a page of the whole area.
\<close>

definition init_inv :: "lptr set \<Rightarrow> (lptr \<Rightarrow> lptr list) \<Rightarrow> nat \<Rightarrow> nat \<Rightarrow> mem_area \<Rightarrow> lptr lheap \<Rightarrow> bool" where
  "init_inv H F n i a h \<longleftrightarrow> area_shape a \<and> base a \<le> i \<and> i \<le> top a \<and> area_inv H F n (upto i a, h) \<and>
     lists_below n F a \<and> (\<forall>q. base a \<le> q \<and> q < i \<longrightarrow> IS_FRESH (pstate a q)) \<and>
     (\<forall>m k. LHead m k \<in> H \<and> m \<noteq> n \<longrightarrow> listed F m k \<inter> {base a..<top a} = {})"

lemma init_inv_step:
  assumes I: "init_inv H F n i a h" and k: "k < NLISTS" and r: "i + 2 ^ k \<le> top a" "i mod 2 ^ k = 0"
  shows "\<exists>h'. list_add h (Some (LHead n k)) (Some (LPage i)) = Inr h' \<and>
    init_inv H (F(LHead n k := LPage i # F (LHead n k))) n (i + 2 ^ k)
      ((set_pages i (2 ^ k) (STATUS_FRESH OR of_nat k) a)\<lparr>max_order := max k (max_order a)\<rparr>) h'"
proof -
  let ?x = "LHead n k" let ?F = "F(?x := LPage i # F ?x)"
  let ?a = "set_pages i (2 ^ k) (STATUS_FRESH OR of_nat k) a" let ?b = "?a\<lparr>max_order := max k (max_order a)\<rparr>"
  have sh: "area_shape a" and b: "base a \<le> i" and inv: "area_inv H F n (upto i a, h)"
    and lb: "lists_below n F a" and oth: "\<And>m j. LHead m j \<in> H \<Longrightarrow> m \<noteq> n \<Longrightarrow> listed F m j \<inter> {base a..<top a} = {}"
    and frs: "\<And>q. base a \<le> q \<Longrightarrow> q < i \<Longrightarrow> IS_FRESH (pstate a q)"
    using I by (auto simp: init_inv_def)
  have k64: "k < 64" using k by (simp add: NLISTS_eq)
  have it: "i < top a" using r(1) pow2_pos[of k] by linarith
  have nl: "LPage i \<notin> set (F y)" if y: "y \<in> H" for y
  proof -
    obtain m j where mj: "y = LHead m j" "j < NLISTS" using area_invD(2)[OF inv] y by (auto simp: heads_ok_def)
    show ?thesis
    proof (cases "m = n")
      case True
      have "i \<notin> usable_pfns (upto i a)" by (simp add: usable_pfns_def)
      from unusable_not_listed[OF inv this mj(2)] True mj show ?thesis by (simp add: listed_def)
    next
      case False
      with oth[of m j] y mj b it show ?thesis by (auto simp: listed_def)
    qed
  qed
  obtain h' where h': "list_add h (Some ?x) (Some (LPage i)) = Inr h'" "forest H ?F h'"
    using ll.add_law[OF area_invD(1)[OF inv] area_invD(3)[OF inv k] page_not_head[OF inv] nl] by blast
  have shb: "area_shape ?b" using area_shape_set_pages[OF sh b r(1)] k by (auto simp: area_shape_def)
  have upb: "upto (i + 2 ^ k) ?b = (upto (i + 2 ^ k) ?a)\<lparr>max_order := max k (max_order a)\<rparr>" by (simp add: upto_def)
  have mo: "max k (max_order a) < NLISTS" using k sh by (auto simp: area_shape_def)
  have "area_ok (upto (i + 2 ^ k) ?b) ((listed F n)(k := insert i (listed F n k)))"
    unfolding upb by (rule area_ok_max_order[OF init_area_ok[OF area_invD(4)[OF inv] sh b r k] mo])
  moreover have "listed ?F n = (listed F n)(k := insert i (listed F n k))"
    by (auto simp: listed_def fun_eq_iff)
  ultimately have "area_inv H ?F n (upto (i + 2 ^ k) ?b, h')"
    using h'(2) area_invD(2,3)[OF inv] oth r(1)
    by (fastforce simp: area_inv_def heads_ok_def listed_upd_other)
  moreover have "lists_below n ?F ?b" using lb by (simp add: lists_below_def)
  moreover have "\<forall>q. base a \<le> q \<and> q < i + 2 ^ k \<longrightarrow> IS_FRESH (pstate ?a q)"
    using frs r(1) k64 by (auto simp: pstate_set_pages[OF sh b r(1)])
  ultimately show ?thesis
    using h'(1) shb b r(1) oth by (auto simp: init_inv_def listed_upd_other)
qed

lemma init_blocks_correct:
  assumes "init_inv H F n i a h" "i mod 2 ^ order = 0"
  shows "\<exists>F' a' h'. init_blocks n i order (a, h) = Inr (a', h') \<and> init_inv H F' n (top a) a' h' \<and>
    same_other n F F' \<and> base a' = base a \<and> top a' = top a \<and> page_states_pfn a' = page_states_pfn a"
  using assms
proof (induction "top a - i" arbitrary: i order F a h rule: less_induct)
  case less
  show ?case
  proof (cases "i < top a")
    case False
    then have "i = top a" using less.prems(1) by (auto simp: init_inv_def)
    with less.prems show ?thesis
      by (intro exI[of _ F] exI[of _ a] exI[of _ h]) (subst init_blocks.simps, simp)
  next
    case True
    obtain o1 where o1: "init_shrink i (top a) order = Inr o1" "o1 \<le> order" "i + 2 ^ o1 \<le> top a"
      using init_shrink_correct[OF True] by blast
    define k where "k = init_grow i (top a) o1"
    have k: "i + 2 ^ k \<le> top a" "i mod 2 ^ k = 0"
      using init_grow_correct[OF o1(3) mod_pow2_le[OF less.prems(2) o1(2)]] by (auto simp: k_def)
    have sh: "area_shape a" "base a \<le> i" using less.prems(1) by (auto simp: init_inv_def)
    have "(2::nat) ^ k < 2 ^ NLISTS" using k(1) sh(1) unfolding area_shape_def by linarith
    then have kN: "k < NLISTS" by (rule power_less_imp_less_exp[rotated]) simp
    let ?a = "(set_pages i (2 ^ k) (STATUS_FRESH OR of_nat k) a)\<lparr>max_order := max k (max_order a)\<rparr>"
    let ?F = "F(LHead n k := LPage i # F (LHead n k))"
    obtain h1 where h1: "list_add h (Some (LHead n k)) (Some (LPage i)) = Inr h1" "init_inv H ?F n (i + 2 ^ k) ?a h1"
      using init_inv_step[OF less.prems(1) kN k] by blast
    have d: "top ?a - (i + 2 ^ k) < top a - i" using True by (simp add: diff_less_mono2)
    have e: "(i + 2 ^ k) mod 2 ^ k = 0" using k(2) by simp
    obtain F' a' h' where IH: "init_blocks n (i + 2 ^ k) k (?a, h1) = Inr (a', h')"
      "init_inv H F' n (top ?a) a' h'" "same_other n ?F F'" "base a' = base ?a" "top a' = top ?a"
      "page_states_pfn a' = page_states_pfn ?a"
      using less.hyps[OF d h1(2) e] by blast
    have mo: "max k (max_order a) = (if k > max_order a then k else max_order a)" by auto
    have "init_blocks n i order (a, h) = Inr (a', h')"
      using True o1(1) kN h1(1) IH(1) memset_pages[OF sh k(1), of "STATUS_FRESH OR of_nat k"]
      unfolding mo by (subst init_blocks.simps) (simp add: Let_def set_pages_def split del: if_split cong: if_cong flip: k_def)
    moreover have "same_other n F F'" using same_other_trans[OF same_other_upd[OF same_other_refl] IH(3)] .
    ultimately show ?thesis using IH(2,4-6) by auto
  qed
qed

end
