(* ===== verification/AllocPageGlobal.thy ===== *)
theory AllocPageGlobal
  imports AllocPageInit
begin

text \<open>
  The page allocator as a whole: the invariant over all areas, and what
  \<open>_page_alloc_init_area\<close>, \<open>page_memalign_order_flags\<close> and \<open>free_pages\<close> do to the set of
  available pages.
\<close>

section \<open>The invariant\<close>

definition active :: "alloc_state \<Rightarrow> nat \<Rightarrow> bool" where
  "active st n \<longleftrightarrow> n < MAX_AREAS \<and> bit (areas_mask st) n"

definition heads :: "alloc_state \<Rightarrow> lptr set" where
  "heads st = {LHead n k | n k. active st n \<and> k < NLISTS}"

text \<open>The pages of an area, metadata included.\<close>

definition area_pfns :: "mem_area \<Rightarrow> nat set" where
  "area_pfns a = {page_states_pfn a..<top a}"

definition alloc_inv :: "(lptr \<Rightarrow> lptr list) \<Rightarrow> alloc_state \<Rightarrow> bool" where
  "alloc_inv F st \<longleftrightarrow> length (areas st) = MAX_AREAS \<and> forest (heads st) F (links st) \<and> heads_ok (heads st) F \<and>
     (\<forall>n. active st n \<longrightarrow> area_inv (heads st) F n (on_area st n) \<and>
        page_states_pfn (areas st ! n) < base (areas st ! n)) \<and>
     (\<forall>n m. active st n \<and> active st m \<and> n \<noteq> m \<longrightarrow> area_pfns (areas st ! n) \<inter> area_pfns (areas st ! m) = {})"

text \<open>The pages that can be handed out, and the blocks that have been.\<close>

definition avail :: "alloc_state \<Rightarrow> nat set" where
  "avail st = (\<Union>n \<in> {n. active st n}. usable_pfns (areas st ! n))"

definition allocated :: "alloc_state \<Rightarrow> nat \<Rightarrow> nat \<Rightarrow> bool" where
  "allocated st pfn k \<longleftrightarrow> k < NLISTS \<and>
     (\<exists>n. active st n \<and> block_state (areas st ! n) pfn k (STATUS_ALLOCATED OR of_nat k))"

lemma alloc_invD:
  assumes "alloc_inv F st"
  shows "length (areas st) = MAX_AREAS" "forest (heads st) F (links st)" "heads_ok (heads st) F"
    and "active st n \<Longrightarrow> area_inv (heads st) F n (areas st ! n, links st)"
    and "active st n \<Longrightarrow> page_states_pfn (areas st ! n) < base (areas st ! n)"
    and "active st n \<Longrightarrow> active st m \<Longrightarrow> n \<noteq> m \<Longrightarrow> area_pfns (areas st ! n) \<inter> area_pfns (areas st ! m) = {}"
  using assms unfolding alloc_inv_def on_area_def by blast+

text \<open>The state before any area has been added.\<close>

lemma alloc_inv_empty:
  assumes "areas_mask st = 0" "length (areas st) = MAX_AREAS"
  shows "alloc_inv (\<lambda>_. []) st" and "avail st = {}"
  using assms by (auto simp: alloc_inv_def heads_def active_def forest_def heads_ok_def avail_def)

lemma usable_sub_area: "page_states_pfn a < base a \<Longrightarrow> usable_pfns a \<subseteq> area_pfns a"
  by (auto simp: usable_pfns_def area_pfns_def)

lemma put_area_simps [simp]:
  "areas_mask (put_area st n s) = areas_mask st" "links (put_area st n s) = snd s"
  "areas (put_area st n s) = (areas st)[n := fst s]" "contents (put_area st n s) = contents st"
  by (simp_all add: put_area_def)

lemma active_put_area [simp]: "active (put_area st n s) = active st"
  by (simp add: active_def fun_eq_iff)

lemma heads_put_area [simp]: "heads (put_area st n s) = heads st"
  by (simp add: heads_def)

lemma put_on_area [simp]: "put_area st n (on_area st n) = st"
  by (simp add: put_area_def on_area_def)

lemma listed_in_area:
  assumes "alloc_inv F st" "active st n" "k < NLISTS"
  shows "listed F n k \<subseteq> usable_pfns (areas st ! n)"
proof
  fix p assume "p \<in> listed F n k"
  from free_block_usable[OF area_inv_block[OF alloc_invD(4)[OF assms(1,2)] assms(3) this]]
  show "p \<in> usable_pfns (areas st ! n)" using first_in_block by blast
qed

text \<open>An operation on one area that keeps its invariant keeps the invariant of the allocator.\<close>

lemma other_area_inv:
  assumes im: "area_inv H F m (a, h)" and s: "area_inv H' F' n (a', h')" and so: "same_other n F F'" and mn: "m \<noteq> n"
    and H: "H \<subseteq> H'" "H' \<subseteq> H \<union> {LHead n k | k. k < NLISTS}"
    and d: "usable_pfns a' \<inter> {base a..<top a} = {}"
  shows "area_inv H' F' m (a, h')"
proof -
  have lm: "listed F' j k = listed F j k" if "j \<noteq> n" for j k
    using so that by (simp add: same_other_def listed_def)
  have disj: "listed F' j k \<inter> {base a..<top a} = {}" if jk: "LHead j k \<in> H'" "j \<noteq> m" for j k
  proof (cases "j = n")
    case True
    have "k < NLISTS" using jk(1) area_invD(2)[OF s] by (auto simp: heads_ok_def)
    then have "listed F' n k \<subseteq> usable_pfns a'"
      using free_block_usable[OF area_inv_block[OF s]] first_in_block by blast
    with d True show ?thesis by blast
  next
    case False
    then have "LHead j k \<in> H" using jk(1) H(2) by auto
    with area_invD(5)[OF im _ jk(2)] lm[OF False] show ?thesis by simp
  qed
  have "listed F' m = listed F m" using lm[OF mn] by (simp add: fun_eq_iff)
  then show ?thesis
    using area_invD(1,2)[OF s] area_invD(3,4)[OF im] disj H(1) by (auto simp: area_inv_def)
qed

lemma put_area_inv:
  assumes I: "alloc_inv F st" and n: "active st n"
    and s: "area_inv (heads st) F' n (a', h')" "same_other n F F'"
    and g: "base a' = base (areas st ! n)" "top a' = top (areas st ! n)" "page_states_pfn a' = page_states_pfn (areas st ! n)"
  shows "alloc_inv F' (put_area st n (a', h'))"
proof -
  let ?st = "put_area st n (a', h')"
  have nl: "n < length (areas st)" using n alloc_invD(1)[OF I] by (simp add: active_def)
  have ap: "area_pfns (areas ?st ! m) = area_pfns (areas st ! m)" for m
    using g nl by (cases "m = n") (auto simp: area_pfns_def)
  have gm: "page_states_pfn (areas ?st ! m) = page_states_pfn (areas st ! m)" "base (areas ?st ! m) = base (areas st ! m)" for m
    using g nl by (cases "m = n"; simp)+
  have u: "usable_pfns a' \<subseteq> area_pfns (areas st ! n)"
    using g alloc_invD(5)[OF I n] by (auto simp: usable_pfns_def area_pfns_def)
  have other: "area_inv (heads st) F' m (areas st ! m, h')" if m: "active st m" "m \<noteq> n" for m
  proof (rule other_area_inv[OF alloc_invD(4)[OF I m(1)] s m(2)])
    show "usable_pfns a' \<inter> {base (areas st ! m)..<top (areas st ! m)} = {}"
      using u alloc_invD(6)[OF I n m(1)] m(2) alloc_invD(5)[OF I m(1)] by (fastforce simp: area_pfns_def)
  qed auto
  have "area_inv (heads st) F' m (on_area ?st m)" if "active st m" for m
    using other[OF that] s(1) nl by (cases "m = n") (auto simp: on_area_def)
  then show ?thesis
    unfolding alloc_inv_def using area_invD(1,2)[OF s(1)] alloc_invD(1,5,6)[OF I] ap gm by simp
qed

lemma avail_put_area:
  assumes "alloc_inv F st" "active st n"
    and u: "usable_pfns a' = usable_pfns (areas st ! n) \<union> B - C" and C: "C \<subseteq> {base (areas st ! n)..<top (areas st ! n)}"
  shows "avail (put_area st n (a', h')) = avail st \<union> B - C"
proof -
  have nl: "n < length (areas st)" using assms(2) alloc_invD(1)[OF assms(1)] by (simp add: active_def)
  have d: "usable_pfns (areas st ! m) \<inter> C = {}" if m: "active st m" "m \<noteq> n" for m
    using alloc_invD(6)[OF assms(1) m(1) assms(2) m(2)] usable_sub_area[OF alloc_invD(5)[OF assms(1) m(1)]] C
      alloc_invD(5)[OF assms(1,2)] by (fastforce simp: area_pfns_def)
  have "avail (put_area st n (a', h')) = usable_pfns a' \<union> (\<Union>m \<in> {m. active st m \<and> m \<noteq> n}. usable_pfns (areas st ! m))"
    using nl assms(2) by (auto simp: avail_def nth_list_update split: if_splits)
  moreover have "avail st = usable_pfns (areas st ! n) \<union> (\<Union>m \<in> {m. active st m \<and> m \<noteq> n}. usable_pfns (areas st ! m))"
    using assms(2) by (auto simp: avail_def)
  ultimately show ?thesis using u d by fastforce
qed

section \<open>Adding an area\<close>

lemma init_table_size_enough:
  assumes "start < t" 
  shows "0 < init_table_size start t" and "t - (start + init_table_size start t) \<le> init_table_size start t * PAGE_SIZE"
proof -
  let ?n = "t - start" let ?s = "init_table_size start t"
  have d: "?s = (?n + PAGE_SIZE) div (PAGE_SIZE + 1)" by (simp add: init_table_size_def)
  have "(?n + PAGE_SIZE) div (PAGE_SIZE + 1) * (PAGE_SIZE + 1) + (?n + PAGE_SIZE) mod (PAGE_SIZE + 1) = ?n + PAGE_SIZE"
    by (rule div_mult_mod_eq)
  moreover have "(?n + PAGE_SIZE) mod (PAGE_SIZE + 1) \<le> PAGE_SIZE"
    using mod_less_divisor[of "PAGE_SIZE + 1" "?n + PAGE_SIZE"] by simp
  ultimately have "?n \<le> ?s * (PAGE_SIZE + 1)" unfolding d by linarith
  then have n: "?n \<le> ?s * PAGE_SIZE + ?s" by simp
  then show "t - (start + ?s) \<le> ?s * PAGE_SIZE" by linarith
  show "0 < ?s" using n assms by (cases "?s = 0") auto
qed

lemma init_table_size_less:
  assumes "4 < t - start"
  shows "start + init_table_size start t < t"
proof -
  have "init_table_size start t \<le> (t - start + PAGE_SIZE) div (PAGE_SIZE + 1)" by (simp add: init_table_size_def)
  also have "\<dots> < t - start"
  proof (rule div_less_iff_less_mult[THEN iffD2])
    show "0 < PAGE_SIZE + 1" by simp
    have "5 * PAGE_SIZE \<le> (t - start) * PAGE_SIZE" using assms by (intro mult_le_mono1) simp
    moreover have "0 < PAGE_SIZE" by (simp add: PAGE_SIZE_def)
    ultimately have "PAGE_SIZE < (t - start) * PAGE_SIZE" by linarith
    then show "t - start + PAGE_SIZE < (t - start) * (PAGE_SIZE + 1)" by simp
  qed
  finally show ?thesis by linarith
qed

text \<open>The four end-point checks of the code exclude every overlap.\<close>

lemma no_overlap_disjoint:
  assumes "no_overlap st a start t" "start < t" "page_states_pfn a = start" "top a = t"
    and "active st n" "page_states_pfn (areas st ! n) < top (areas st ! n)"
  shows "area_pfns a \<inter> area_pfns (areas st ! n) = {}"
proof -
  have "\<not> area_contains_pfn (areas st ! n) start" "\<not> area_contains_pfn a (page_states_pfn (areas st ! n))"
    using assms(1,5) by (auto simp: no_overlap_def active_def)
  then show ?thesis using assms(2-4,6) by (auto simp: area_contains_pfn_def area_pfns_def)
qed

lemma forest_init_freelists:
  assumes f: "forest H F h" and ho: "heads_ok H F" and n: "\<And>k. LHead n k \<notin> H"
  shows "forest (H \<union> {LHead n k | k. k < NLISTS}) (\<lambda>x. case x of LHead m k \<Rightarrow> if m = n then [] else F x | _ \<Rightarrow> F x)
    (init_freelists n h)" (is "forest ?H ?F ?h")
proof -
  have old: "?F x = F x" "dlist ?h x (F x) = dlist h x (F x)" if x: "x \<in> H" for x
  proof -
    obtain m j where mj: "x = LHead m j" "m \<noteq> n" using ho x n by (force simp: heads_ok_def)
    then show "?F x = F x" by simp
    have "set (F x) \<subseteq> range LPage" using ho x by (simp add: heads_ok_def)
    then show "dlist ?h x (F x) = dlist h x (F x)"
      using mj by (intro dlist_cong) (auto simp: init_freelists_def)
  qed
  have new: "?F (LHead n k) = []" "k < NLISTS \<Longrightarrow> dlist ?h (LHead n k) []" for k
    by (simp_all add: dlist_def init_freelists_def)
  have pages: "set (F x) \<subseteq> range LPage" if "x \<in> H" for x using ho that by (simp add: heads_ok_def)
  show ?thesis
    unfolding forest_def
  proof (intro conjI ballI impI)
    fix x assume x: "x \<in> ?H"
    then show "dlist ?h x (?F x)" using old new f by (auto simp: forest_def)
    show "set (?F x) \<inter> ?H = {}"
    proof (cases "x \<in> H")
      case True
      with f have "set (F x) \<inter> H = {}" by (simp add: forest_def)
      with pages[OF True] old(1)[OF True] show ?thesis by auto
    qed (use x new in auto)
  next
    fix x y assume "x \<in> ?H" "y \<in> ?H" "x \<noteq> y"
    then show "set (?F x) \<inter> set (?F y) = {}"
      using f old(1) new(1) by (cases "x \<in> H"; cases "y \<in> H") (auto simp: forest_def)
  qed
qed

text \<open>The sequences of the lists once the empty lists of area \<open>n\<close> have been added.\<close>

definition clear_lists :: "nat \<Rightarrow> (lptr \<Rightarrow> lptr list) \<Rightarrow> lptr \<Rightarrow> lptr list" where
  "clear_lists n F = (\<lambda>x. case x of LHead m k \<Rightarrow> if m = n then [] else F x | _ \<Rightarrow> F x)"

lemma clear_lists_simps [simp]:
  "clear_lists n F (LHead n k) = []" "m \<noteq> n \<Longrightarrow> clear_lists n F (LHead m k) = F (LHead m k)"
  "listed (clear_lists n F) n k = {}" "m \<noteq> n \<Longrightarrow> listed (clear_lists n F) m k = listed F m k"
  by (simp_all add: clear_lists_def listed_def)

lemma new_area_simps [simp]:
  "base (new_area st b t) = b + init_table_size b t" "top (new_area st b t) = t"
  "page_states_pfn (new_area st b t) = b" "max_order (new_area st b t) = 0"
  "length (page_states (new_area st b t)) = t - (b + init_table_size b t)"
  by (simp_all add: new_area_def Let_def)

text \<open>The loop invariant holds when the loop starts.\<close>

lemma init_inv_start:
  assumes I: "alloc_inv F st" and n: "n < MAX_AREAS" "\<not> bit (areas_mask st) n"
    and r: "4 < t - b" "t < 2 ^ NLISTS" and no: "no_overlap st (new_area st b t) b t"
  shows "init_inv (heads st \<union> {LHead n k | k. k < NLISTS}) (clear_lists n F) n (b + init_table_size b t)
    (new_area st b t) (init_freelists n (links st))" (is "init_inv ?H ?F n ?i ?a ?h")
proof -
  have bt: "b < t" using r by simp
  have it: "?i < t" using init_table_size_less[OF r(1)] .
  have sh: "area_shape ?a" using it r by (simp add: area_shape_def NLISTS_eq)
  have nh: "LHead n k \<notin> heads st" for k using n by (auto simp: heads_def active_def)
  have f: "forest ?H ?F ?h"
    unfolding clear_lists_def by (rule forest_init_freelists[OF alloc_invD(2,3)[OF I] nh])
  have ho: "heads_ok ?H ?F"
    using alloc_invD(3)[OF I] nh by (auto simp: heads_ok_def clear_lists_def split: lptr.splits)
  have ok: "area_ok (upto ?i ?a) (listed ?F n)"
    using area_shape_upto[OF sh, of ?i] it by (auto simp: area_ok_def usable_pfns_def)
  have oth: "listed ?F m k \<inter> {base ?a..<top ?a} = {}" if m: "LHead m k \<in> ?H" "m \<noteq> n" for m k
  proof -
    have am: "active st m" "k < NLISTS" using m by (auto simp: heads_def)
    have "listed ?F m k \<subseteq> area_pfns (areas st ! m)"
      using m(2) listed_in_area[OF I am] usable_sub_area[OF alloc_invD(5)[OF I am(1)]] by auto
    moreover have "page_states_pfn (areas st ! m) < top (areas st ! m)"
      using alloc_invD(5)[OF I am(1)] area_inv_shape[OF alloc_invD(4)[OF I am(1)]] by (simp add: area_shape_def)
    ultimately show ?thesis using no_overlap_disjoint[OF no bt _ _ am(1)] by (fastforce simp: area_pfns_def)
  qed
  have inv: "area_inv ?H ?F n (upto ?i ?a, ?h)"
    using f ho ok oth it by (fastforce simp: area_inv_def)
  show ?thesis
    using sh it inv oth by (auto simp: init_inv_def lists_below_def)
qed

lemma heads_add:
  assumes "n < MAX_AREAS"
  shows "active (st\<lparr>areas_mask := areas_mask st OR push_bit n 1\<rparr>) m \<longleftrightarrow> active st m \<or> m = n"
    and "heads (st\<lparr>areas_mask := areas_mask st OR push_bit n 1\<rparr>) = heads st \<union> {LHead n k | k. k < NLISTS}"
proof -
  have "bit (push_bit n (1::u32)) m \<longleftrightarrow> m = n" for m
    using assms by (auto simp: bit_exp_iff MAX_AREAS_def)
  then show *: "active (st\<lparr>areas_mask := areas_mask st OR push_bit n 1\<rparr>) m \<longleftrightarrow> active st m \<or> m = n" for m
    using assms by (auto simp: active_def bit_or_iff simp del: push_bit_of_1)
  show "heads (st\<lparr>areas_mask := areas_mask st OR push_bit n 1\<rparr>) = heads st \<union> {LHead n k | k. k < NLISTS}"
    unfolding heads_def * by auto
qed

lemma active_area_bounds:
  "alloc_inv F st \<Longrightarrow> active st m \<Longrightarrow> page_states_pfn (areas st ! m) < top (areas st ! m)"
  using alloc_invD(5)[of F st m] area_inv_shape[OF alloc_invD(4), of F st m] by (simp add: area_shape_def)

lemma init_area_correct:
  assumes I: "alloc_inv F st" and n: "n < MAX_AREAS" "\<not> bit (areas_mask st) n"
    and r: "4 < t - b" "t < 2 ^ NLISTS" and no: "no_overlap st (new_area st b t) b t"
  shows "\<exists>F' st'. page_alloc_init_area_locked st n b t = Inr st' \<and> alloc_inv F' st' \<and>
    avail st' = avail st \<union> {b + init_table_size b t..<t} \<and> lists_below n F' (areas st' ! n) \<and>
    (\<forall>m. active st' m \<longleftrightarrow> active st m \<or> m = n) \<and> (\<forall>m. m \<noteq> n \<longrightarrow> areas st' ! m = areas st ! m)"
proof -
  let ?a = "new_area st b t" and ?i = "b + init_table_size b t"
  let ?H = "heads st \<union> {LHead n k | k. k < NLISTS}"
  have bt: "b < t" using r by simp
  have nl: "n < length (areas st)" using n alloc_invD(1)[OF I] by simp
  obtain F' a' h' where ib: "init_blocks n ?i 0 (?a, init_freelists n (links st)) = Inr (a', h')"
    "init_inv ?H F' n t a' h'" "same_other n (clear_lists n F) F'" "base a' = ?i" "top a' = t" "page_states_pfn a' = b"
    using init_blocks_correct[OF init_inv_start[OF assms], of 0] by auto
  define st' where "st' = (put_area st n (a', h'))\<lparr>areas_mask := areas_mask st OR push_bit n 1\<rparr>"
  have nth: "areas st' ! m = (if m = n then a' else areas st ! m)" "length (areas st') = MAX_AREAS" for m
    using nl alloc_invD(1)[OF I] by (auto simp: st'_def)
  have act: "active st' m \<longleftrightarrow> active st m \<or> m = n" and hd: "heads st' = ?H" for m
    using heads_add[OF n(1), of "put_area st n (a', h')"] by (simp_all add: st'_def)
  have "page_alloc_init_area_locked st n b t = Inr st'"
    using n r bt no ib(1) init_table_size_enough[OF bt]
    by (simp add: page_alloc_init_area_locked_def NLISTS_def[symmetric] Let_def st'_def)
  moreover have so: "same_other n F F'" using ib(3) by (simp add: same_other_def)
  have shp: "area_shape a'" and fresh: "\<And>q. ?i \<le> q \<Longrightarrow> q < t \<Longrightarrow> IS_FRESH (pstate a' q)" and inv: "area_inv ?H F' n (a', h')"
    using ib upto_top[of a'] by (auto simp: init_inv_def)
  have us: "usable_pfns a' = {?i..<t}" using fresh ib by (auto simp: usable_pfns_def IS_USABLE_def)
  have dis: "area_pfns a' \<inter> area_pfns (areas st ! m) = {}" if "active st m" for m
    using no_overlap_disjoint[OF no bt _ _ that active_area_bounds[OF I that]] ib by (simp add: area_pfns_def)
  have pos: "b < ?i" using init_table_size_enough(1)[OF bt] by simp
  have "alloc_inv F' st'"
    unfolding alloc_inv_def hd
  proof (intro conjI allI impI)
    show "length (areas st') = MAX_AREAS" by (rule nth(2))
    show "forest ?H F' (links st')" "heads_ok ?H F'" using area_invD(1,2)[OF inv] by (simp_all add: st'_def)
    fix m assume m: "active st' m"
    show "page_states_pfn (areas st' ! m) < base (areas st' ! m)"
      using m act alloc_invD(5)[OF I] ib pos by (auto simp: nth)
    show "area_inv ?H F' m (on_area st' m)"
    proof (cases "m = n")
      case True
      with inv show ?thesis by (simp add: on_area_def nth) (simp add: st'_def)
    next
      case False
      then have am: "active st m" using m act by simp
      have "area_inv ?H F' m (areas st ! m, h')"
        by (rule other_area_inv[OF alloc_invD(4)[OF I am] inv so False])
           (use dis[OF am] us ib pos alloc_invD(5)[OF I am] in \<open>fastforce simp: area_pfns_def\<close>)+
      with False show ?thesis by (simp add: on_area_def nth) (simp add: st'_def)
    qed
  next
    fix i j assume "active st' i \<and> active st' j \<and> i \<noteq> j"
    then show "area_pfns (areas st' ! i) \<inter> area_pfns (areas st' ! j) = {}"
      using act alloc_invD(6)[OF I, of i j] dis[of i] dis[of j] by (auto simp: nth Int_commute)
  qed
  moreover have "avail st' = avail st \<union> {?i..<t}"
  proof -
    have "\<not> active st n" using n by (simp add: active_def)
    then have "(\<Union>m \<in> {m. active st m}. usable_pfns (areas st' ! m)) = avail st"
      unfolding avail_def by (intro SUP_cong) (auto simp: nth)
    moreover have "{m. active st' m} = insert n {m. active st m}" using act by auto
    ultimately show ?thesis using us by (simp add: avail_def nth(1)[of n] Un_commute)
  qed
  moreover have "lists_below n F' (areas st' ! n)" using ib(2) by (simp add: nth init_inv_def)
  ultimately show ?thesis using act nth(1) by (intro exI[of _ F'] exI[of _ st']) auto
qed

section \<open>Allocation\<close>

text \<open>The first selected area with a large enough block on its lists serves the request.\<close>

definition can_serve :: "(lptr \<Rightarrow> lptr list) \<Rightarrow> alloc_state \<Rightarrow> nat \<Rightarrow> nat \<Rightarrow> bool" where
  "can_serve F st k n \<longleftrightarrow> (\<exists>j. k \<le> j \<and> j \<le> max_order (areas st ! n) \<and> F (LHead n j) \<noteq> [])"

lemma usable_range: "usable_pfns a \<subseteq> {base a..<top a}"
  by (auto simp: usable_pfns_def)

text \<open>Area \<open>n\<close> has served a request: the result of the search and the state it leaves.\<close>

definition served ::
  "(lptr \<Rightarrow> lptr list) \<Rightarrow> alloc_state \<Rightarrow> nat \<Rightarrow> nat \<Rightarrow> nat \<Rightarrow> (lptr option \<times> alloc_state) res \<Rightarrow> bool" where
  "served F st al sz n r \<longleftrightarrow> (\<exists>pfn F' a' h'. r = Inr (Some (LPage pfn), put_area st n (a', h')) \<and>
      area_step (heads st) n (usable_pfns (areas st ! n)) (F, areas st ! n, links st) (F', a', h') \<and>
      allocates (areas st ! n) a' pfn sz \<and> pfn mod 2 ^ al = 0)"

lemma area_allocates_avail:
  assumes I: "alloc_inv F st" and n: "active st n" and a: "allocates (areas st ! n) a' pfn k"
  shows "avail (put_area st n (a', h')) = avail st - {pfn..<pfn + 2 ^ k}" "{pfn..<pfn + 2 ^ k} \<subseteq> avail st" "0 < pfn"
proof -
  let ?B = "{pfn..<pfn + 2 ^ k}"
  have sub: "?B \<subseteq> usable_pfns (areas st ! n)" using a by (simp add: allocates_def)
  then have "?B \<subseteq> {base (areas st ! n)..<top (areas st ! n)}" using usable_range by (rule order_trans)
  from avail_put_area[OF I n _ this, of a' "{}" h'] a
  show "avail (put_area st n (a', h')) = avail st - ?B" by (simp add: allocates_def)
  show "?B \<subseteq> avail st" using sub n by (auto simp: avail_def)
  have "pfn \<in> usable_pfns (areas st ! n)" using sub first_in_block by blast
  then show "0 < pfn" using alloc_invD(5)[OF I n] by (simp add: usable_pfns_def)
qed

lemma alloc_from_correct:
  assumes I: "alloc_inv F st" and le: "al < NLISTS" "sz < NLISTS"
    and act: "\<And>n. n \<in> set is \<Longrightarrow> bit area n \<Longrightarrow> active st n"
  shows "if \<exists>n \<in> set is. bit area n \<and> can_serve F st (max al sz) n
    then \<exists>n \<in> set is. bit area n \<and> served F st al sz n (alloc_from is area al sz False st)
    else alloc_from is area al sz False st = Inr (None, st)"
  using act
proof (induction "is")
  case (Cons i "is")
  have IH: "if \<exists>n \<in> set is. bit area n \<and> can_serve F st (max al sz) n
    then \<exists>n \<in> set is. bit area n \<and> served F st al sz n (alloc_from is area al sz False st)
    else alloc_from is area al sz False st = Inr (None, st)"
    by (rule Cons.IH) (use Cons.prems in auto)
  show ?case
  proof (cases "bit area i")
    case False
    with IH show ?thesis by (auto split: if_splits)
  next
    case bit: True
    have inv: "area_inv (heads st) F i (areas st ! i, links st)" using alloc_invD(4)[OF I] Cons.prems[of i] bit by simp
    show ?thesis
    proof (cases "can_serve F st (max al sz) i")
      case True
      then obtain j where j: "max al sz \<le> j" "j \<le> max_order (areas st ! i)" "F (LHead i j) \<noteq> []"
        by (auto simp: can_serve_def)
      have "served F st al sz i (alloc_from (i # is) area al sz False st)"
        using page_memalign_order_some[OF inv le j] bit unfolding served_def by (force simp: on_area_def)
      with True bit show ?thesis by auto
    next
      case False
      then have "page_memalign_order i (areas st ! i, links st) al sz False = Inr (None, on_area st i)"
        using page_memalign_order_none[OF inv le, of False] by (auto simp: can_serve_def candidate_def on_area_def)
      then have "alloc_from (i # is) area al sz False st = alloc_from is area al sz False st"
        using bit by (simp add: on_area_def) (simp flip: on_area_def)
      with IH False show ?thesis by (auto split: if_splits)
    qed
  qed
qed simp

text \<open>What the caller of a successful request gets: an aligned block of free pages.\<close>

definition grants :: "alloc_state \<Rightarrow> alloc_state \<Rightarrow> nat \<Rightarrow> nat \<Rightarrow> nat \<Rightarrow> bool" where
  "grants st st' pfn al k \<longleftrightarrow> 0 < pfn \<and> pfn mod 2 ^ al = 0 \<and> pfn mod 2 ^ k = 0 \<and>
     {pfn..<pfn + 2 ^ k} \<subseteq> avail st \<and> avail st' = avail st - {pfn..<pfn + 2 ^ k} \<and>
     allocated st' pfn k \<and> (\<forall>q j. allocated st q j \<longrightarrow> allocated st' q j)"

lemma allocated_same_off:
  assumes "same_off (usable_pfns a) a a'" "block_state a q j (STATUS_ALLOCATED OR of_nat j)" "j < NLISTS"
  shows "block_state a' q j (STATUS_ALLOCATED OR of_nat j)"
proof -
  have "{q..<q + 2 ^ j} \<inter> usable_pfns a = {}"
    using assms(2,3) by (auto simp: usable_pfns_def block_state_def NLISTS_eq)
  with same_off_block_state[OF assms(1)] assms(2) show ?thesis by simp
qed

lemma served_grants:
  assumes I: "alloc_inv F st" and n: "active st n" and k: "k < NLISTS" and s: "served F st al k n r"
  shows "\<exists>pfn st' F'. r = Inr (Some (LPage pfn), st') \<and> alloc_inv F' st' \<and> grants st st' pfn al k \<and>
    contents st' = contents st"
proof -
  let ?a = "areas st ! n"
  obtain pfn F' a' h' where r: "r = Inr (Some (LPage pfn), put_area st n (a', h'))"
    and st: "area_step (heads st) n (usable_pfns ?a) (F, ?a, links st) (F', a', h')"
    and a: "allocates ?a a' pfn k" "pfn mod 2 ^ al = 0"
    using s by (auto simp: served_def)
  let ?st = "put_area st n (a', h')"
  have nl: "n < length (areas st)" using n alloc_invD(1)[OF I] by (simp add: active_def)
  have so: "same_off (usable_pfns ?a) ?a a'" and ai: "area_inv (heads st) F' n (a', h')" "same_other n F F'"
    using st by (simp_all add: area_step_def)
  have I': "alloc_inv F' ?st" by (rule put_area_inv[OF I n ai]) (use so in \<open>auto simp: same_off_def\<close>)
  have keep: "allocated ?st q j" if al: "allocated st q j" for q j
  proof -
    obtain m where m: "active st m" "block_state (areas st ! m) q j (STATUS_ALLOCATED OR of_nat j)" "j < NLISTS"
      using al by (auto simp: allocated_def)
    have "block_state (areas ?st ! m) q j (STATUS_ALLOCATED OR of_nat j)"
      using m allocated_same_off[OF so] nl by (cases "m = n") auto
    with m show ?thesis by (auto simp: allocated_def)
  qed
  have "block_state (areas ?st ! n) pfn k (STATUS_ALLOCATED OR of_nat k)" using a(1) nl by (simp add: allocates_def)
  then have new: "allocated ?st pfn k" and al: "pfn mod 2 ^ k = 0"
    using n k by (auto simp: allocated_def block_state_def)
  have "grants st ?st pfn al k"
    using area_allocates_avail[OF I n a(1)] a(2) new keep al by (simp add: grants_def)
  with r I' show ?thesis by auto
qed

text \<open>The areas a request may be served from.\<close>

definition selected :: "alloc_state \<Rightarrow> u32 \<Rightarrow> nat \<Rightarrow> bool" where
  "selected st flags n \<longleftrightarrow> active st n \<and> (flags AND AREA_MASK \<noteq> 0 \<longrightarrow> bit flags n)"

lemma selected_area:
  "n \<in> set [0..<MAX_AREAS] \<and> bit (if flags AND AREA_MASK \<noteq> 0 then flags AND areas_mask st else areas_mask st) n
   \<longleftrightarrow> selected st flags n"
  by (auto simp: selected_def active_def bit_and_iff)

lemma forest_cong:
  assumes "forest H F h" "\<And>x y. x \<in> H \<Longrightarrow> y \<in> set (x # F x) \<Longrightarrow> h' y = h y"
  shows "forest H F h'"
proof -
  have "dlist h' x (F x) = dlist h x (F x)" if "x \<in> H" for x
    by (rule dlist_cong) (use assms(2)[OF that] in auto)
  with assms(1) show ?thesis by (simp add: forest_def)
qed

lemma listed_avail:
  assumes I: "alloc_inv F st" and x: "x \<in> heads st" and p: "LPage q \<in> set (F x)"
  shows "q \<in> avail st"
proof -
  obtain n k where nk: "x = LHead n k" "active st n" "k < NLISTS" using x by (auto simp: heads_def)
  then have "q \<in> listed F n k" using p by (simp add: listed_def)
  with listed_in_area[OF I nk(2,3)] nk(2) show ?thesis by (auto simp: avail_def)
qed

text \<open>Clearing pages that are not available touches no free list.\<close>

lemma zero_pages_inv:
  assumes I: "alloc_inv F st" and d: "{pfn..<pfn + k} \<inter> avail st = {}"
  shows "alloc_inv F (zero_pages st pfn k)"
proof -
  let ?st = "zero_pages st pfn k"
  have same: "areas ?st = areas st" "active ?st = active st" "heads ?st = heads st"
    by (simp_all add: zero_pages_def active_def heads_def fun_eq_iff)
  have f: "forest (heads st) F (links ?st)"
  proof (rule forest_cong[OF alloc_invD(2)[OF I]])
    fix x y assume x: "x \<in> heads st" and y: "y \<in> set (x # F x)"
    show "links ?st y = links st y"
    proof (cases y)
      case (LPage q)
      moreover have "x \<noteq> LPage q" using x by (auto simp: heads_def)
      ultimately have "q \<in> avail st" using listed_avail[OF I x] y by auto
      with d LPage show ?thesis by (auto simp: zero_pages_def)
    qed (simp add: zero_pages_def)
  qed
  then have "area_inv (heads st) F n (on_area ?st n)" if "active st n" for n
    using alloc_invD(4)[OF I that] by (simp add: on_area_def same area_inv_def)
  with f I show ?thesis by (simp add: alloc_inv_def same)
qed

lemma zero_pages_simps [simp]:
  "avail (zero_pages st pfn k) = avail st" "allocated (zero_pages st pfn k) = allocated st"
  "grants st0 (zero_pages st pfn k) p al j = grants st0 st p al j"
proof -
  show 1: "avail (zero_pages st pfn k) = avail st" "allocated (zero_pages st pfn k) = allocated st"
    by (simp_all add: avail_def allocated_def fun_eq_iff zero_pages_def active_def)
  show "grants st0 (zero_pages st pfn k) p al j = grants st0 st p al j" by (simp add: grants_def 1)
qed

lemma alloc_flags_correct:
  assumes I: "alloc_inv F st" and le: "al < NLISTS" "k < NLISTS" and fl: "flags AND FLAG_FRESH = 0"
  shows "if \<exists>n. selected st flags n \<and> can_serve F st (max al k) n
    then \<exists>pfn F' st'. page_memalign_order_flags st al k flags = Inr (pfn * PAGE_SIZE, st') \<and> alloc_inv F' st' \<and>
      grants st st' pfn al k \<and>
      (\<forall>x. contents st' x = (if flags AND FLAG_DONTZERO = 0 \<and> pfn * PAGE_SIZE \<le> x \<and> x < (pfn + 2 ^ k) * PAGE_SIZE
                         then 0 else contents st x))
    else page_memalign_order_flags st al k flags = Inr (0, st)"
proof -
  define area where "area = (if flags AND AREA_MASK \<noteq> 0 then flags AND areas_mask st else areas_mask st)"
  let ?r = "alloc_from [0..<MAX_AREAS] area al k False st"
  have sel: "n \<in> set [0..<MAX_AREAS] \<and> bit area n \<longleftrightarrow> selected st flags n" for n
    unfolding area_def by (rule selected_area)
  have pm: "page_memalign_order_flags st al k flags = bind_res ?r (\<lambda>(r, st'). case r of
         None \<Rightarrow> Inr (0, st')
       | Some p \<Rightarrow> bind_res (virt_to_pfn p) (\<lambda>pfn.
           Inr (pfn * PAGE_SIZE, if flags AND FLAG_DONTZERO = 0 then zero_pages st' pfn (2 ^ k) else st')))"
    using fl by (simp add: page_memalign_order_flags_def area_def Let_def)
  have af: "if \<exists>n \<in> set [0..<MAX_AREAS]. bit area n \<and> can_serve F st (max al k) n
    then \<exists>n \<in> set [0..<MAX_AREAS]. bit area n \<and> served F st al k n ?r else ?r = Inr (None, st)"
    by (rule alloc_from_correct[OF I le]) (use sel in \<open>auto simp: selected_def\<close>)
  have ex: "(\<exists>n \<in> set [0..<MAX_AREAS]. bit area n \<and> P n) \<longleftrightarrow> (\<exists>n. selected st flags n \<and> P n)" for P
    using sel by blast
  show ?thesis
  proof (cases "\<exists>n. selected st flags n \<and> can_serve F st (max al k) n")
    case True
    then obtain n where n: "selected st flags n" "served F st al k n ?r" using af unfolding ex by auto
    then have "active st n" by (simp add: selected_def)
    from served_grants[OF I this le(2) n(2)] obtain pfn st' F' where
      r: "?r = Inr (Some (LPage pfn), st')" "alloc_inv F' st'" "grants st st' pfn al k" "contents st' = contents st" by blast
    have d: "{pfn..<pfn + 2 ^ k} \<inter> avail st' = {}" using r(3) by (auto simp: grants_def)
    let ?st = "if flags AND FLAG_DONTZERO = 0 then zero_pages st' pfn (2 ^ k) else st'"
    have "page_memalign_order_flags st al k flags = Inr (pfn * PAGE_SIZE, ?st)"
      by (simp add: pm r(1) virt_to_pfn_def)
    moreover have "alloc_inv F' ?st" using zero_pages_inv[OF r(2) d] r(2) by simp
    moreover have "grants st ?st pfn al k" using r(3) by simp
    moreover have "\<forall>x. contents ?st x = (if flags AND FLAG_DONTZERO = 0 \<and> pfn * PAGE_SIZE \<le> x \<and> x < (pfn + 2 ^ k) * PAGE_SIZE
                         then 0 else contents st x)"
      using r(4) by (simp add: zero_pages_def)
    ultimately show ?thesis unfolding if_P[OF True] by blast
  next
    case False
    then have "?r = Inr (None, st)" using af unfolding ex by (simp only: if_False)
    then have "page_memalign_order_flags st al k flags = Inr (0, st)" by (simp add: pm)
    then show ?thesis unfolding if_not_P[OF False] .
  qed
qed

section \<open>Freeing\<close>

lemma get_area_eq:
  assumes I: "alloc_inv F st" and n: "active st n" and r: "base (areas st ! n) \<le> pfn" "pfn < top (areas st ! n)"
  shows "get_area st pfn = Some n"
proof -
  have uniq: "m = n" if m: "active st m" "base (areas st ! m) \<le> pfn" "pfn < top (areas st ! m)" for m
  proof (rule ccontr)
    assume "m \<noteq> n"
    from alloc_invD(6)[OF I m(1) n this] m r alloc_invD(5)[OF I n] alloc_invD(5)[OF I m(1)]
    show False by (fastforce simp: area_pfns_def)
  qed
  have "n < MAX_AREAS" using n by (simp add: active_def)
  moreover have "[0..<MAX_AREAS] ! i = i" if "i < MAX_AREAS" for i using that by simp
  moreover have "\<not> (bit (areas_mask st) j \<and> usable_area_contains_pfn (areas st ! j) pfn)" if "j < n" for j
    using uniq[of j] that \<open>n < MAX_AREAS\<close> by (auto simp: active_def usable_area_contains_pfn_def)
  ultimately show ?thesis
    using n r unfolding get_area_def find_Some_iff
    by (intro exI[of _ n]) (auto simp: active_def usable_area_contains_pfn_def)
qed

text \<open>Two blocks that have been handed out are the same or apart.\<close>

lemma allocated_apart:
  assumes I: "alloc_inv F st" and p: "allocated st p k" and q: "allocated st q j" and ne: "\<not> (p = q \<and> k = j)"
  shows "{p..<p + 2 ^ k} \<inter> {q..<q + 2 ^ j} = {}"
proof (rule ccontr)
  assume "{p..<p + 2 ^ k} \<inter> {q..<q + 2 ^ j} \<noteq> {}"
  then obtain r where "r \<in> {p..<p + 2 ^ k}" "r \<in> {q..<q + 2 ^ j}" by blast
  then have r: "p \<le> r" "r < p + 2 ^ k" "q \<le> r" "r < q + 2 ^ j" by auto
  obtain n m where n: "active st n" "block_state (areas st ! n) p k (STATUS_ALLOCATED OR of_nat k)" "k < 64"
    and m: "active st m" "block_state (areas st ! m) q j (STATUS_ALLOCATED OR of_nat j)" "j < 64"
    using p q by (auto simp: allocated_def NLISTS_eq)
  have "base (areas st ! n) \<le> r" "r < top (areas st ! n)" "base (areas st ! m) \<le> r" "r < top (areas st ! m)"
    using n(2) m(2) r by (auto simp: block_state_def)
  then have nm: "n = m" using get_area_eq[OF I n(1)] get_area_eq[OF I m(1)] by (metis option.inject)
  have "STATUS_ALLOCATED OR of_nat k = STATUS_ALLOCATED OR of_nat j"
    using block_state_page[OF n(2) r(1,2)] block_state_page[OF m(2) r(3,4)] nm by simp
  then have "order_of (STATUS_ALLOCATED OR of_nat k) = order_of (STATUS_ALLOCATED OR of_nat j)" by simp
  then have kj: "k = j" using n(3) m(3) by simp
  with ne aligned_blocks_disjoint[of p k q] n(2) m(2) have "p + 2 ^ k \<le> q \<or> q + 2 ^ k \<le> p"
    by (auto simp: block_state_def)
  with r show False unfolding kj by linarith
qed

lemma allocated_not_avail:
  assumes I: "alloc_inv F st" and p: "allocated st p k"
  shows "{p..<p + 2 ^ k} \<inter> avail st = {}"
proof (rule ccontr)
  assume "{p..<p + 2 ^ k} \<inter> avail st \<noteq> {}"
  then obtain r m where r: "p \<le> r" "r < p + 2 ^ k" and m: "active st m" "r \<in> usable_pfns (areas st ! m)"
    by (auto simp: avail_def)
  obtain n where n: "active st n" "block_state (areas st ! n) p k (STATUS_ALLOCATED OR of_nat k)" "k < 64"
    using p by (auto simp: allocated_def NLISTS_eq)
  have "base (areas st ! n) \<le> r" "r < top (areas st ! n)" using n(2) r by (auto simp: block_state_def)
  moreover have "base (areas st ! m) \<le> r" "r < top (areas st ! m)" using m(2) by (auto simp: usable_pfns_def)
  ultimately have "n = m" using get_area_eq[OF I n(1)] get_area_eq[OF I m(1)] by (metis option.inject)
  with block_state_page[OF n(2) r] m(2) n(3) show False by (simp add: usable_pfns_def)
qed

lemma free_pages_correct:
  assumes I: "alloc_inv F st" and p: "allocated st pfn k"
  shows "\<exists>F' st'. free_pages st (pfn * PAGE_SIZE) = Inr st' \<and> alloc_inv F' st' \<and>
    avail st' = avail st \<union> {pfn..<pfn + 2 ^ k} \<and> contents st' = contents st \<and>
    (\<forall>q j. allocated st q j \<and> \<not> (q = pfn \<and> j = k) \<longrightarrow> allocated st' q j)"
proof -
  obtain n where n: "active st n" and b: "block_state (areas st ! n) pfn k (STATUS_ALLOCATED OR of_nat k)" and k: "k < NLISTS"
    using p by (auto simp: allocated_def)
  let ?a = "areas st ! n" let ?a' = "set_pages pfn (2 ^ k) (STATUS_FREE OR of_nat k) ?a"
  let ?F = "F(LHead n k := LPage pfn # F (LHead n k))"
  have r: "base ?a \<le> pfn" "pfn + 2 ^ k \<le> top ?a" using b by (auto simp: block_state_def)
  have pt: "pfn < top ?a" "0 < pfn" using r pow2_pos[of k] alloc_invD(5)[OF I n] by linarith+
  note inv = alloc_invD(4)[OF I n]
  have sh: "area_shape ?a" using inv by (rule area_inv_shape)
  obtain h' where h': "free_block n (?a, links st) pfn = Inr (?a', h')" "area_inv (heads st) ?F n (?a', h')"
    using free_block_correct[OF inv k b] by blast
  let ?st = "put_area st n (?a', h')"
  have nl: "n < length (areas st)" using n alloc_invD(1)[OF I] by (simp add: active_def)
  have "pfn * PAGE_SIZE mod PAGE_SIZE = 0" "pfn * PAGE_SIZE div PAGE_SIZE = pfn" "pfn * PAGE_SIZE \<noteq> 0"
    using pt by (simp_all add: PAGE_SIZE_def)
  then have "free_pages st (pfn * PAGE_SIZE) = Inr ?st"
    using get_area_eq[OF I n r(1) pt(1)] h'(1) by (simp add: free_pages_def on_area_def)
  moreover have "alloc_inv ?F ?st" by (rule put_area_inv[OF I n h'(2)]) auto
  moreover have "avail ?st = avail st \<union> {pfn..<pfn + 2 ^ k}"
    using avail_put_area[OF I n, of ?a' "{pfn..<pfn + 2 ^ k}" "{}" h'] usable_set_pages[OF sh r] k
    by (simp add: NLISTS_eq)
  moreover have "allocated ?st q j" if q: "allocated st q j" "\<not> (q = pfn \<and> j = k)" for q j
  proof -
    obtain m where m: "active st m" "block_state (areas st ! m) q j (STATUS_ALLOCATED OR of_nat j)" "j < NLISTS"
      using q(1) by (auto simp: allocated_def)
    have "block_state (areas ?st ! m) q j (STATUS_ALLOCATED OR of_nat j)"
      using m nl same_off_block_state[OF same_off_set_pages[OF sh r] allocated_apart[OF I q(1) p q(2)]]
      by (cases "m = n") auto
    with m show ?thesis by (auto simp: allocated_def)
  qed
  ultimately show ?thesis by auto
qed

section \<open>Sequences of calls\<close>

text \<open>
  The states the allocator reaches from the start of the program by adding areas,
  requesting blocks (without \<open>FLAG_FRESH\<close>) and freeing blocks that were handed out, with
  the set of blocks (first page, order) currently handed out. A failed assertion ends the
  program, so only calls that return lead on.
\<close>

inductive reach :: "alloc_state \<Rightarrow> (nat \<times> nat) set \<Rightarrow> bool" where
  start: "areas_mask st = 0 \<Longrightarrow> length (areas st) = MAX_AREAS \<Longrightarrow> reach st {}"
| add_area: "reach st L \<Longrightarrow> page_alloc_init_area_locked st n b t = Inr st' \<Longrightarrow> reach st' L"
| alloc: "reach st L \<Longrightarrow> flags AND FLAG_FRESH = 0 \<Longrightarrow> page_memalign_order_flags st al k flags = Inr (p, st') \<Longrightarrow>
    p \<noteq> 0 \<Longrightarrow> reach st' (insert (p div PAGE_SIZE, k) L)"
| alloc_null: "reach st L \<Longrightarrow> flags AND FLAG_FRESH = 0 \<Longrightarrow> page_memalign_order_flags st al k flags = Inr (0, st') \<Longrightarrow>
    reach st' L"
| free: "reach st L \<Longrightarrow> (pfn, k) \<in> L \<Longrightarrow> free_pages st (pfn * PAGE_SIZE) = Inr st' \<Longrightarrow>
    reach st' (L - {(pfn, k)})"

definition live_ok :: "alloc_state \<Rightarrow> (nat \<times> nat) set \<Rightarrow> bool" where
  "live_ok st L \<longleftrightarrow> (\<exists>F. alloc_inv F st) \<and> (\<forall>(p, k) \<in> L. allocated st p k)"

lemma init_area_checks:
  assumes "page_alloc_init_area_locked st n b t = Inr st'"
  shows "n < MAX_AREAS" "\<not> bit (areas_mask st) n" "4 < t - b" "t < 2 ^ NLISTS" "no_overlap st (new_area st b t) b t"
  using assms unfolding page_alloc_init_area_locked_def
  by (auto simp: require_eq_Inr Let_def NLISTS_def)

text \<open>A request that returns had orders in range, since the code asserts them.\<close>

lemma alloc_orders_checked:
  assumes I: "alloc_inv F st" and fl: "flags AND FLAG_FRESH = 0"
    and r: "page_memalign_order_flags st al k flags = Inr (p, st')" and c: "\<not> (al < NLISTS \<and> k < NLISTS)"
  shows "p = 0 \<and> st' = st"
proof -
  have *: "alloc_from is area al k False st = Inr (q, st1) \<Longrightarrow> q = None \<and> st1 = st" for "is" area q st1
    using c by (induction "is") (auto simp: page_memalign_order_def split: if_splits)
  show ?thesis
    using r fl unfolding page_memalign_order_flags_def Let_def
    by (auto simp: bind_res_eq_Inr dest!: * split: option.splits prod.splits)
qed

lemma PAGE_SIZE_pos [simp]: "0 < PAGE_SIZE"
  by (simp add: PAGE_SIZE_def)

lemma live_ok_alloc:
  assumes ok: "live_ok st L" and fl: "flags AND FLAG_FRESH = 0"
    and r: "page_memalign_order_flags st al k flags = Inr (p, st')"
  shows "if p = 0 then live_ok st' L else live_ok st' (insert (p div PAGE_SIZE, k) L)"
proof -
  obtain F where I: "alloc_inv F st" and L: "\<forall>(p, k) \<in> L. allocated st p k" using ok by (auto simp: live_ok_def)
  show ?thesis
  proof (cases "al < NLISTS \<and> k < NLISTS")
    case False
    with alloc_orders_checked[OF I fl r] ok show ?thesis by simp
  next
    case True
    note c = alloc_flags_correct[OF I _ _ fl, of al k] True
    show ?thesis
    proof (cases "\<exists>n. selected st flags n \<and> can_serve F st (max al k) n")
      case True
      then obtain pfn F' where "p = pfn * PAGE_SIZE" "alloc_inv F' st'" and g: "grants st st' pfn al k"
        using c r by auto
      moreover have "0 < pfn" "allocated st' pfn k" "\<forall>(p, k) \<in> L. allocated st' p k"
        using g L by (auto simp: grants_def)
      ultimately show ?thesis by (auto simp: live_ok_def)
    next
      case False
      then have "p = 0" "st' = st" using c r by auto
      with ok show ?thesis by simp
    qed
  qed
qed

lemma live_ok_free:
  assumes ok: "live_ok st L" and p: "(pfn, k) \<in> L" and r: "free_pages st (pfn * PAGE_SIZE) = Inr st'"
  shows "live_ok st' (L - {(pfn, k)})"
proof -
  obtain F where I: "alloc_inv F st" and L: "\<forall>(p, k) \<in> L. allocated st p k" using ok by (auto simp: live_ok_def)
  have "allocated st pfn k" using L p by auto
  from free_pages_correct[OF I this] r obtain F' where "alloc_inv F' st'"
    "\<forall>q j. allocated st q j \<and> \<not> (q = pfn \<and> j = k) \<longrightarrow> allocated st' q j" by auto
  with L show ?thesis by (fastforce simp: live_ok_def)
qed

lemma live_ok_add_area:
  assumes ok: "live_ok st L" and r: "page_alloc_init_area_locked st n b t = Inr st'"
  shows "live_ok st' L"
proof -
  obtain F where I: "alloc_inv F st" and L: "\<forall>(p, k) \<in> L. allocated st p k" using ok by (auto simp: live_ok_def)
  note ch = init_area_checks[OF r]
  obtain F' where I': "alloc_inv F' st'" and a: "\<forall>m. active st' m \<longleftrightarrow> active st m \<or> m = n"
    "\<forall>m. m \<noteq> n \<longrightarrow> areas st' ! m = areas st ! m"
    using init_area_correct[OF I ch] r by auto
  have "\<not> active st n" using ch(2) by (simp add: active_def)
  then have "allocated st' p k" if "allocated st p k" for p k
    using that a unfolding allocated_def by metis
  with I' L show ?thesis by (auto simp: live_ok_def)
qed

lemma reach_live_ok: "reach st L \<Longrightarrow> live_ok st L"
proof (induction rule: reach.induct)
  case (start st)
  then show ?case using alloc_inv_empty(1) by (auto simp: live_ok_def)
next
  case (alloc st L flags al k p st')
  then show ?case using live_ok_alloc[of st L flags al k p st'] by simp
next
  case (alloc_null st L flags al k st')
  then show ?case using live_ok_alloc[of st L flags al k 0 st'] by simp
qed (use live_ok_add_area live_ok_free in blast)+

end
