(* ===== verification/AllocPageProps.thy ===== *)
theory AllocPageProps
  imports AllocPageGlobal
begin

text \<open>
  The properties of the page allocator: safety of every sequence of calls, what a request,
  a release and the addition of an area do, the byte-level guarantees of
  \<open>memalign_pages_flags\<close>, and the places where the code departs from its comments.
\<close>

section \<open>A small machine\<close>

text \<open>The allocator at boot, and after an area of five pages, one for the metadata, was added.\<close>

definition no_area :: mem_area where
  "no_area = \<lparr>base = 0, top = 0, page_states_pfn = 0, page_states = [], max_order = 0\<rparr>"

definition boot_state :: alloc_state where
  "boot_state = \<lparr>areas = [no_area, no_area, no_area, no_area], areas_mask = 0,
     links = (\<lambda>_. \<lparr>prev = None, nxt = None\<rparr>), contents = (\<lambda>_. 0)\<rparr>"

definition small_state :: alloc_state where
  "small_state = projr (page_alloc_init_area_locked boot_state 0 3 8)"

definition small_alloc1 :: "nat \<times> alloc_state" where
  "small_alloc1 = projr (page_memalign_order_flags small_state 1 1 0)"

definition small_alloc2 :: "nat \<times> alloc_state" where
  "small_alloc2 = projr (page_memalign_order_flags (snd small_alloc1) 0 0 0)"

text \<open>The equations that evaluate the allocator on a concrete state.\<close>

lemma upt_MAX_AREAS: "[0..<MAX_AREAS] = [0, 1, 2, 3]"
  by (simp add: MAX_AREAS_def upt_rec)

lemma zero_pages_eval:
  "links (zero_pages st pfn k) p = (case p of
      LPage q \<Rightarrow> if pfn \<le> q \<and> q < pfn + k then \<lparr>prev = None, nxt = None\<rparr> else links st p
    | LHead _ _ \<Rightarrow> links st p)"
  "areas (zero_pages st pfn k) = areas st" "areas_mask (zero_pages st pfn k) = areas_mask st"
  by (simp_all add: zero_pages_def)

lemmas loop_numerals =
  check_and_set.simps(2)[of "pred_numeral w", folded numeral_eq_Suc]
  coalesce_loop.simps(2)[of "pred_numeral w", folded numeral_eq_Suc]
  reserve_split.simps(2)[of "pred_numeral w", folded numeral_eq_Suc] for w

lemmas list_eval = list_add_def list_add_tail_def list_remove_def is_list_empty_def deref_def set_prev_def set_next_def

lemmas meta_eval = STATUS_FRESH_def STATUS_FREE_def STATUS_ALLOCATED_def STATUS_SPECIAL_def STATUS_MASK_def
  ORDER_MASK_def order_of_def IS_USABLE_def IS_FREE_def IS_FRESH_def IS_ALLOCATED_def IS_ALIGNED_ORDER_def

lemmas init_eval = boot_state_def no_area_def page_alloc_init_area_locked_def new_area_def init_table_size_def
  no_overlap_def MAX_AREAS_def PAGE_SIZE_def PAGE_SHIFT_def BITS_PER_LONG_def NLISTS_def upt_MAX_AREAS[unfolded MAX_AREAS_def]
  init_blocks.simps init_shrink.simps init_grow.simps init_freelists_def memset_def memset_loop.simps
  put_area_def small_state_def numeral_2_eq_2[symmetric]

lemmas alloc_eval = init_eval meta_eval list_eval loop_numerals alloc_page_def alloc_pages_def alloc_pages_flags_def
  page_memalign_order_flags_def AREA_ANY_def AREA_MASK_def FLAG_FRESH_def FLAG_DONTZERO_def
  page_memalign_order_def find_order.simps split_to.simps virt_to_pfn_def page_index_def
  take_block_def split_def usable_area_contains_pfn_def check_and_set.simps on_area_def zero_pages_eval
  small_alloc1_def small_alloc2_def

lemmas free_eval = free_pages_def get_area_def free_block_def coalesce_def coalesce_loop.simps

lemmas reserve_eval = get_area_def reserve_pages_def reserve_one_page_def GENMASK_ULL_def mask_eq_exp_minus_1

lemma small_state_eq: "page_alloc_init_area_locked boot_state 0 3 8 = Inr small_state"
proof -
  have "\<not> isl (page_alloc_init_area_locked boot_state 0 3 8)"
    by (simp add: init_eval meta_eval list_eval cong: eval_cong)
  then show ?thesis unfolding small_state_def by (rule Inr_projr)
qed

lemma small_alloc1_eq: "page_memalign_order_flags small_state 1 1 0 = Inr (0x4000, snd small_alloc1)"
proof -
  have "\<not> isl (page_memalign_order_flags small_state 1 1 0)" "fst small_alloc1 = 0x4000"
    by (simp_all add: alloc_eval cong: eval_cong)
  then show ?thesis unfolding small_alloc1_def using Inr_projr by (metis prod.collapse)
qed

lemma small_alloc2_eq: "page_memalign_order_flags (snd small_alloc1) 0 0 0 = Inr (0x6000, snd small_alloc2)"
proof -
  have "\<not> isl (page_memalign_order_flags (snd small_alloc1) 0 0 0)" "fst small_alloc2 = 0x6000"
    by (simp_all add: alloc_eval cong: eval_cong)
  then show ?thesis unfolding small_alloc2_def using Inr_projr by (metis prod.collapse)
qed

lemma reach_small_state: "reach small_state {}"
proof (rule reach.add_area[OF _ small_state_eq])
  show "reach boot_state {}" by (rule reach.start) (simp_all add: boot_state_def MAX_AREAS_def)
qed

lemma reach_small_alloc1: "reach (snd small_alloc1) {(4, 1)}"
  using reach.alloc[OF reach_small_state _ small_alloc1_eq] by (simp add: PAGE_SIZE_def)

lemma reach_small_alloc2: "reach (snd small_alloc2) {(6, 0), (4, 1)}"
  using reach.alloc[OF reach_small_alloc1 _ small_alloc2_eq] by (simp add: PAGE_SIZE_def)

lemma small_state_inv: "\<exists>F. alloc_inv F small_state"
  using reach_live_ok[OF reach_small_state] by (simp add: live_ok_def)

section \<open>Safety of every sequence of calls\<close>





section \<open>Requests\<close>

text \<open>
  C3: a request without \<open>FLAG_FRESH\<close> succeeds exactly when one of the selected areas has a
  block of at least the larger order on a free list up to its \<open>max_order\<close>. It then returns
  the address of a block of \<open>2^k\<close> pages, aligned to both orders, all of whose pages were
  available; exactly these pages stop being available, the blocks handed out before stay
  as they were, and the memory of the block is cleared unless \<open>FLAG_DONTZERO\<close> was given.
  Otherwise it returns \<open>NULL\<close> and changes nothing.
\<close>

theorem alloc_request:
  assumes "alloc_inv F st" "al < NLISTS" "k < NLISTS" "flags AND FLAG_FRESH = 0"
  shows "if \<exists>n. selected st flags n \<and> can_serve F st (max al k) n
    then \<exists>pfn F' st'. page_memalign_order_flags st al k flags = Inr (pfn * PAGE_SIZE, st') \<and> alloc_inv F' st' \<and>
      grants st st' pfn al k \<and>
      (\<forall>x. contents st' x = (if flags AND FLAG_DONTZERO = 0 \<and> pfn * PAGE_SIZE \<le> x \<and> x < (pfn + 2 ^ k) * PAGE_SIZE
                         then 0 else contents st x))
    else page_memalign_order_flags st al k flags = Inr (0, st)"
  by (rule alloc_flags_correct[OF assms])

theorem alloc_request_witness:
  "\<exists>F. alloc_inv F small_state \<and> (\<exists>n. selected small_state 0 n \<and> can_serve F small_state 1 n) \<and>
     (\<exists>st'. grants small_state st' 4 1 1)"
proof -
  obtain F where I: "alloc_inv F small_state" using small_state_inv by blast
  from alloc_request[OF I, of 1 1 0] small_alloc1_eq show ?thesis
    using I by (auto simp: NLISTS_eq PAGE_SIZE_def split: if_splits)
qed

text \<open>
  C4: freeing a block that is handed out returns; exactly its pages become available
  again, every other block stays handed out, no memory is written and the invariant holds.
\<close>

theorem free_request:
  assumes "alloc_inv F st" "allocated st pfn k"
  shows "\<exists>F' st'. free_pages st (pfn * PAGE_SIZE) = Inr st' \<and> alloc_inv F' st' \<and>
    avail st' = avail st \<union> {pfn..<pfn + 2 ^ k} \<and> contents st' = contents st \<and>
    (\<forall>q j. allocated st q j \<and> \<not> (q = pfn \<and> j = k) \<longrightarrow> allocated st' q j)"
  by (rule free_pages_correct[OF assms])

theorem free_request_witness:
  "allocated (snd small_alloc1) 4 1 \<and>
   (\<exists>st'. free_pages (snd small_alloc1) (4 * PAGE_SIZE) = Inr st' \<and> avail st' = avail (snd small_alloc1) \<union> {4..<6})"
proof -
  obtain F where I: "alloc_inv F (snd small_alloc1)" and a: "allocated (snd small_alloc1) 4 1"
    using reach_live_ok[OF reach_small_alloc1] by (auto simp: live_ok_def)
  from free_request[OF I a] a show ?thesis by auto
qed

text \<open>
  Requesting a block and freeing it at once gives back the same set of available pages.
\<close>

theorem alloc_free_roundtrip:
  assumes "alloc_inv F st" "al < NLISTS" "k < NLISTS" "flags AND FLAG_FRESH = 0"
    and "page_memalign_order_flags st al k flags = Inr (p, st1)"
  shows "\<exists>F' st2. free_pages st1 p = Inr st2 \<and> avail st2 = avail st \<and> alloc_inv F' st2"
proof (cases "\<exists>n. selected st flags n \<and> can_serve F st (max al k) n")
  case True
  then obtain pfn F' where p: "p = pfn * PAGE_SIZE" "alloc_inv F' st1" and g: "grants st st1 pfn al k"
    using alloc_flags_correct[OF assms(1-4)] assms(5) by auto
  then have a: "allocated st1 pfn k" by (simp add: grants_def)
  obtain F2 st2 where "free_pages st1 p = Inr st2" "alloc_inv F2 st2" "avail st2 = avail st1 \<union> {pfn..<pfn + 2 ^ k}"
    using free_pages_correct[OF p(2) a] p(1) by blast
  moreover have "avail st1 \<union> {pfn..<pfn + 2 ^ k} = avail st" using g by (auto simp: grants_def)
  ultimately show ?thesis by auto
next
  case False
  then have "p = 0" "st1 = st" using alloc_flags_correct[OF assms(1-4)] assms(5) by auto
  with assms(1) show ?thesis by (auto simp: free_pages_def)
qed

theorem alloc_free_roundtrip_witness:
  "\<exists>st2. free_pages (snd small_alloc1) 0x4000 = Inr st2 \<and> avail st2 = avail small_state"
proof -
  obtain F where I: "alloc_inv F small_state" using small_state_inv by blast
  from alloc_free_roundtrip[OF I _ _ _ small_alloc1_eq] show ?thesis by (auto simp: NLISTS_eq)
qed

section \<open>Requests in bytes\<close>

lemma page_order_bytes:
  assumes "w \<noteq> 0" "unat w + 4095 < 2 ^ 64"
  shows "unat w \<le> 2 ^ get_order (drop_bit PAGE_SHIFT (PAGE_ALIGN w)) * PAGE_SIZE"
proof -
  let ?n = "(unat w + 4095) div 4096" and ?v = "drop_bit PAGE_SHIFT (PAGE_ALIGN w)"
  have "unat (PAGE_ALIGN w) = ?n * 4096"
    using ALIGN_pow2[of 12 w] assms(2) by (simp add: PAGE_ALIGN_def)
  then have v: "unat ?v = ?n"
    using unat_drop_bit_eq[of 12 "PAGE_ALIGN w"] by (simp add: PAGE_SHIFT_def drop_bit_eq_div)
  have "0 < unat w" using assms(1) by (simp add: unat_gt_0)
  then have n: "0 < ?n" "unat w \<le> ?n * 4096" by (simp, linarith)
  then have "?v \<noteq> 0" using v by (metis less_irrefl unat_0)
  from get_order_correct(1)[OF this] v have "?n \<le> 2 ^ get_order ?v" by simp
  then have "?n * 4096 \<le> 2 ^ get_order ?v * 4096" by (rule mult_le_mono1)
  from order_trans[OF n(2) this] show ?thesis unfolding PAGE_SIZE_def .
qed

lemma memalign_alignment:
  assumes "is_power_of_2 al" "pfn mod 2 ^ get_order (drop_bit PAGE_SHIFT (PAGE_ALIGN al)) = 0"
  shows "pfn * PAGE_SIZE mod unat al = 0"
proof -
  let ?o = "get_order (drop_bit PAGE_SHIFT (PAGE_ALIGN al))"
  obtain j where j: "j < 64" "unat al = 2 ^ j" using assms(1) by (auto simp: is_power_of_2_iff)
  have "(2::nat) ^ j \<le> 2 ^ 63" using j(1) by (intro power_increasing) auto
  then have "unat al + 4095 < 2 ^ 64" using j(2) by simp
  moreover have "al \<noteq> 0" using assms(1) by (simp add: is_power_of_2_def)
  ultimately have "(2::nat) ^ j \<le> 2 ^ ?o * 2 ^ 12"
    using page_order_bytes[of al] j(2) by (simp add: PAGE_SIZE_def)
  then have "(2::nat) ^ j \<le> 2 ^ (?o + 12)" by (simp add: power_add)
  then have "j \<le> ?o + 12" by (rule power_le_imp_le_exp[rotated]) simp
  then have "(2::nat) ^ j dvd 2 ^ (?o + 12)" by (rule le_imp_power_dvd)
  moreover have "2 ^ (?o + 12) dvd pfn * PAGE_SIZE"
  proof -
    have "2 ^ ?o dvd pfn" using assms(2) by (simp add: dvd_eq_mod_eq_0)
    then have "2 ^ ?o * 2 ^ 12 dvd pfn * 2 ^ 12" by (rule mult_dvd_mono) simp
    then show ?thesis by (simp add: power_add PAGE_SIZE_def)
  qed
  ultimately have "2 ^ j dvd pfn * PAGE_SIZE" by (rule dvd_trans)
  then show ?thesis by (simp add: j(2))
qed

lemma memalign_pages_flags_correct:
  assumes I: "alloc_inv F st" and fl: "flags AND FLAG_FRESH = 0" and sz: "unat sz + 4095 < 2 ^ 64"
    and r: "memalign_pages_flags st al sz flags = Inr (p, st')"
  shows "(\<exists>F'. alloc_inv F' st') \<and> (p = 0 \<and> st' = st \<or> p \<noteq> 0 \<and> p mod unat al = 0 \<and> avail st' \<subseteq> avail st \<and>
    (\<forall>x. p \<le> x \<and> x < p + unat sz \<longrightarrow> x div PAGE_SIZE \<in> avail st \<and> x div PAGE_SIZE \<notin> avail st'))"
proof -
  let ?a = "get_order (drop_bit PAGE_SHIFT (PAGE_ALIGN al))" and ?k = "get_order (drop_bit PAGE_SHIFT (PAGE_ALIGN sz))"
  have al: "is_power_of_2 al" "?a < NLISTS" "?k < NLISTS" and r: "page_memalign_order_flags st ?a ?k flags = Inr (p, st')"
    using r by (auto simp: memalign_pages_flags_def Let_def res_simps)
  note c = alloc_flags_correct[OF I al(2,3) fl]
  show ?thesis
  proof (cases "\<exists>n. selected st flags n \<and> can_serve F st (max ?a ?k) n")
    case False
    then have "p = 0" "st' = st" using c r by auto
    with I show ?thesis by blast
  next
    case True
    then obtain pfn F' where p: "p = pfn * PAGE_SIZE" "alloc_inv F' st'" and g: "grants st st' pfn ?a ?k"
      using c r by auto
    have a: "p mod unat al = 0" using memalign_alignment[OF al(1), of pfn] g p(1) by (simp add: grants_def)
    have bytes: "x div PAGE_SIZE \<in> {pfn..<pfn + 2 ^ ?k}" if x: "p \<le> x" "x < p + unat sz" for x
    proof -
      have "sz \<noteq> 0" using x by auto
      from page_order_bytes[OF this sz] x p(1) have "x < pfn * PAGE_SIZE + 2 ^ ?k * PAGE_SIZE" by linarith
      then have "x < (pfn + 2 ^ ?k) * PAGE_SIZE" by (simp only: add_mult_distrib)
      then have "x div PAGE_SIZE < pfn + 2 ^ ?k" by (simp add: less_mult_imp_div_less)
      moreover have "pfn \<le> x div PAGE_SIZE" using x(1) p(1) by (simp add: less_eq_div_iff_mult_less_eq)
      ultimately show ?thesis by simp
    qed
    have "p \<noteq> 0" "avail st' \<subseteq> avail st" using g p(1) by (auto simp: grants_def)
    with a p(2) g bytes show ?thesis by (auto simp: grants_def)
  qed
qed



section \<open>Adding an area\<close>

text \<open>
  C5: once the arguments pass the entry checks (a free slot, at least five pages below the
  address limit, no overlap with an existing area), adding an area runs to completion: the
  metadata table is large enough, every assertion of the carving loop holds, all pages
  behind the table become available, and the invariant holds.
\<close>

theorem add_area:
  assumes "alloc_inv F st" "n < MAX_AREAS" "\<not> bit (areas_mask st) n" "4 < t - b" "t < 2 ^ NLISTS"
    and "no_overlap st (new_area st b t) b t"
  shows "\<exists>F' st'. page_alloc_init_area_locked st n b t = Inr st' \<and> alloc_inv F' st' \<and>
    avail st' = avail st \<union> {b + init_table_size b t..<t} \<and> lists_below n F' (areas st' ! n) \<and>
    t - (b + init_table_size b t) \<le> init_table_size b t * PAGE_SIZE"
  using init_area_correct[OF assms] init_table_size_enough(2)[of b t] assms(4) by fastforce

theorem add_area_witness:
  "\<exists>st'. page_alloc_init_area_locked boot_state 0 3 8 = Inr st' \<and> avail st' = {4..<8}"
proof -
  have I: "alloc_inv (\<lambda>_. []) boot_state" and e: "avail boot_state = {}"
    using alloc_inv_empty[of boot_state] by (simp_all add: boot_state_def MAX_AREAS_def)
  have "no_overlap boot_state (new_area boot_state 3 8) 3 8" by (simp add: no_overlap_def boot_state_def)
  moreover have "init_table_size 3 8 = 1" by (simp add: init_table_size_def PAGE_SIZE_def)
  ultimately show ?thesis
    using add_area[OF I, of 0 8 3] e by (auto simp: boot_state_def MAX_AREAS_def NLISTS_eq)
qed

section \<open>Departures from the comments\<close>



text \<open>
  The area of an automatically placed range is chosen from the top down, but the cut-off of
  the first step, 4 GB, is below that of the second, 64 GB.
\<close>

lemma init_locked_mask:
  "page_alloc_init_area_locked st n b t = Inr st' \<Longrightarrow> areas_mask st' = areas_mask st OR push_bit n 1 \<and> n < MAX_AREAS"
  unfolding page_alloc_init_area_locked_def by (auto simp: res_simps Let_def)

lemma cutoff_result:
  assumes "page_alloc_init_area_cutoff st n c b t = Inr (t', st')"
  shows "t' \<le> c" and "m \<noteq> n \<Longrightarrow> bit (areas_mask st') m = bit (areas_mask st) m"
proof -
  show "t' \<le> c" using assms by (auto simp: page_alloc_init_area_cutoff_def res_simps split: if_splits)
  show "bit (areas_mask st') m = bit (areas_mask st) m" if "m \<noteq> n"
    using assms that by (auto simp: page_alloc_init_area_cutoff_def res_simps bit_or_iff bit_exp_iff
        dest!: init_locked_mask split: if_splits)
qed

text \<open>
  C11: \<open>page_alloc_init_area\<close> with \<open>AREA_ANY_NUMBER\<close> never populates the normal area of the x86
  configuration: everything above 4 GB goes to the high area, whose limit of 64 GB for
  PAE allocations is then not observed.
\<close>

theorem normal_area_never_used:
  assumes "page_alloc_init_area st AREA_ANY_NUMBER b t = Inr st'"
  shows "bit (areas_mask st') AREA_NORMAL_NUMBER = bit (areas_mask st) AREA_NORMAL_NUMBER"
proof -
  obtain t1 st1 t2 st2 t3 st3 t4 where
    1: "page_alloc_init_area_cutoff st AREA_HIGH_NUMBER AREA_HIGH_PFN b t = Inr (t1, st1)"
    and 2: "page_alloc_init_area_cutoff st1 AREA_NORMAL_NUMBER AREA_NORMAL_PFN b t1 = Inr (t2, st2)"
    and 3: "page_alloc_init_area_cutoff st2 AREA_LOW_NUMBER AREA_LOW_PFN b t2 = Inr (t3, st3)"
    and 4: "page_alloc_init_area_cutoff st3 AREA_LOWEST_NUMBER AREA_LOWEST_PFN b t3 = Inr (t4, st')"
    using assms by (auto simp: page_alloc_init_area_def res_simps)
  have "t1 \<le> AREA_NORMAL_PFN" using cutoff_result(1)[OF 1] by (simp add: AREA_HIGH_PFN_def AREA_NORMAL_PFN_def)
  then have "st2 = st1" using 2 by (simp add: page_alloc_init_area_cutoff_def)
  moreover have "AREA_NORMAL_NUMBER \<noteq> AREA_HIGH_NUMBER" "AREA_NORMAL_NUMBER \<noteq> AREA_LOW_NUMBER"
    "AREA_NORMAL_NUMBER \<noteq> AREA_LOWEST_NUMBER"
    by (simp_all add: AREA_NORMAL_NUMBER_def AREA_HIGH_NUMBER_def AREA_LOW_NUMBER_def AREA_LOWEST_NUMBER_def)
  ultimately show ?thesis
    using cutoff_result(2)[OF 1] cutoff_result(2)[OF 3] cutoff_result(2)[OF 4] by metis
qed

theorem normal_area_never_used_witness:
  "\<exists>st'. page_alloc_init_area boot_state AREA_ANY_NUMBER 3 8 = Inr st' \<and> \<not> bit (areas_mask st') AREA_NORMAL_NUMBER"
proof -
  have "\<not> isl (page_alloc_init_area boot_state AREA_ANY_NUMBER 3 8)"
    by (simp add: page_alloc_init_area_def page_alloc_init_area_cutoff_def AREA_ANY_NUMBER_def AREA_HIGH_PFN_def
        AREA_NORMAL_PFN_def AREA_LOW_PFN_def AREA_LOWEST_PFN_def AREA_LOWEST_NUMBER_def init_eval meta_eval list_eval cong: eval_cong)
  then obtain st' where st': "page_alloc_init_area boot_state AREA_ANY_NUMBER 3 8 = Inr st'" by (metis Inr_projr)
  have "areas_mask boot_state = 0" by (simp add: boot_state_def)
  with normal_area_never_used[OF st'] st' show ?thesis by simp
qed

text \<open>
  C10: a request for fresh memory gets half of what it asked for. The search goes one order
  up, but the block is then split down to the order \<open>sz\<close> asked for and halved once more: for
  \<open>sz > 0\<close> the block handed out has order \<open>sz - 1\<close> and is not aligned to \<open>2^sz\<close>; for \<open>sz = 0\<close>
  the order wraps to 255 and the shift is undefined.
\<close>

theorem fresh_request_is_halved:
  assumes "area_inv H F n (a, h)" "al < NLISTS" "sz < NLISTS"
    and "max al sz + 1 \<le> k" "k \<le> max_order a" "candidate n F a True k \<noteq> None"
  shows "if sz = 0 then page_memalign_order n (a, h) al sz True = Inl Undef
    else \<exists>pfn F' a' h'. page_memalign_order n (a, h) al sz True = Inr (Some (LPage pfn), a', h') \<and>
      area_inv H F' n (a', h') \<and> allocates a a' pfn (sz - 1) \<and> pfn mod 2 ^ sz \<noteq> 0"
proof -
  obtain j pfn F1 a1 h1 where j: "max al sz \<le> j" "pfn mod 2 ^ j = 0" and
    1: "area_step H n {pfn..<pfn + 2 ^ j} (F, a, h) (F1, a1, h1)" "pfn \<in> listed F1 n sz"
    "usable_pfns a1 = usable_pfns a" "IS_FRESH (pstate a1 pfn)"
    and eq: "page_memalign_order n (a, h) al sz True = take_block n (a1, h1) sz (LPage pfn) (pfn - base a) True"
    by (rule page_memalign_order_split[OF assms(1-3) _ assms(5,6)]) (use assms(4) in auto)
  note inv1 = area_step_inv[OF 1(1)]
  show ?thesis
  proof (cases "sz = 0")
    case True
    obtain h2 where "list_remove h1 (LPage pfn) = Inr (Some (LPage pfn), h2)"
      using inv_take[OF inv1 assms(3) 1(2) allocated_not_usable[of 0]] by auto
    with True show ?thesis unfolding eq by (simp add: take_block_def NLISTS_eq)
  next
    case False
    obtain F2 a2 h2 where "take_block n (a1, h1) sz (LPage pfn) (pfn - base a1) True =
        Inr (Some (LPage (pfn + 2 ^ (sz - 1))), a2, h2)"
      "area_step H n {pfn..<pfn + 2 ^ sz} (F1, a1, h1) (F2, a2, h2)" "allocates a1 a2 (pfn + 2 ^ (sz - 1)) (sz - 1)"
      using take_block_fresh[OF inv1 assms(3) False 1(2,4)] by blast
    moreover have "(pfn + 2 ^ (sz - 1)) mod 2 ^ sz = 2 ^ (sz - 1)"
    proof -
      have "pfn mod 2 ^ sz = 0" using mod_pow2_le[OF j(2)] j(1) by simp
      then have "(pfn + 2 ^ (sz - 1)) mod 2 ^ sz = 2 ^ (sz - 1) mod 2 ^ sz"
        using mod_add_left_eq[of pfn "2 ^ sz" "2 ^ (sz - 1)"] by (simp only: add_0)
      also have "\<dots> = 2 ^ (sz - 1)" using False by (intro mod_less power_strict_increasing) auto
      finally show ?thesis .
    qed
    ultimately show ?thesis
      using False area_step_inv 1(3) area_step_geometry[OF 1(1)] unfolding eq allocates_def by fastforce
  qed
qed

lemma small_state_candidate:
  assumes "alloc_inv F small_state"
  shows "area_inv (heads small_state) F 0 (areas small_state ! 0, links small_state)"
    and "max_order (areas small_state ! 0) = 2" and "candidate 0 F (areas small_state ! 0) True 2 = Some 4"
proof -
  have "active small_state 0" by (simp add: active_def init_eval meta_eval list_eval cong: eval_cong)
  then show inv: "area_inv (heads small_state) F 0 (areas small_state ! 0, links small_state)"
    by (rule alloc_invD(4)[OF assms])
  show "max_order (areas small_state ! 0) = 2" by (simp add: init_eval meta_eval list_eval cong: eval_cong)
  have "LHead 0 2 \<in> heads small_state" by (rule area_invD(3)[OF inv]) (simp add: NLISTS_eq)
  from forest_prev[OF area_invD(1)[OF inv] this]
  have "prev (links small_state (LHead 0 2)) = Some (last (LHead 0 2 # F (LHead 0 2)))" .
  moreover have "prev (links small_state (LHead 0 2)) = Some (LPage 4)" "IS_FRESH (pstate (areas small_state ! 0) 4)"
    by (simp_all add: pstate_def init_eval meta_eval list_eval cong: eval_cong)
  moreover from calculation have "F (LHead 0 2) \<noteq> []" "last (F (LHead 0 2)) = LPage 4" by (auto split: if_splits)
  ultimately show "candidate 0 F (areas small_state ! 0) True 2 = Some 4"
    by (simp add: candidate_def)
qed

theorem fresh_request_is_halved_witness:
  "\<exists>pfn a' h'. page_memalign_order 0 (areas small_state ! 0, links small_state) 1 1 True = Inr (Some (LPage pfn), a', h') \<and>
     allocates (areas small_state ! 0) a' pfn 0 \<and> pfn mod 2 \<noteq> 0"
proof -
  obtain F where I: "alloc_inv F small_state" using small_state_inv by blast
  note c = small_state_candidate[OF I]
  from fresh_request_is_halved[OF c(1), of 1 1 2] c(2,3) show ?thesis by (auto simp: NLISTS_eq)
qed

section \<open>Coalescing\<close>

text \<open>
  For two adjacent blocks of order \<open>k\<close>, the first aligned to \<open>2^(k+1)\<close>, \<open>coalesce\<close> merges
  them exactly when both lie in the area and both first pages carry the metadata of a fresh
  block of that order; it then keeps the invariant and the set of usable pages and lists
  the merged block; otherwise it changes nothing.
\<close>

theorem coalesce_buddies:
  assumes "area_inv H F n (a, h)" "k < NLISTS" "pfn mod 2 ^ (k + 1) = 0"
  shows "if mergeable a k pfn
    then \<exists>F' a' h'. coalesce n (a, h) k pfn (pfn + 2 ^ k) = Inr (True, a', h') \<and> area_inv H F' n (a', h') \<and>
      pfn \<in> listed F' n (k + 1) \<and> usable_pfns a' = usable_pfns a \<and> same_off {pfn..<pfn + 2 ^ (k + 1)} a a'
    else coalesce n (a, h) k pfn (pfn + 2 ^ k) = Inr (False, a, h)"
proof (cases "mergeable a k pfn")
  case True
  with coalesce_merge[OF assms] show ?thesis by (auto simp: area_step_def)
next
  case False
  have "pfn mod 2 ^ k = 0" using mod_pow2_le[OF assms(3)] by simp
  from coalesce_no_merge[OF area_inv_shape[OF assms(1)] this False] False show ?thesis by simp
qed

theorem coalesce_buddies_witness:
  "\<exists>F. area_inv (heads small_state) F 0 (areas small_state ! 0, links small_state) \<and>
    coalesce 0 (areas small_state ! 0, links small_state) 1 4 6 = Inr (False, areas small_state ! 0, links small_state)"
proof -
  obtain F where I: "alloc_inv F small_state" using small_state_inv by blast
  note c = small_state_candidate(1)[OF I]
  have "\<not> mergeable (areas small_state ! 0) 1 4"
    by (simp add: mergeable_def pstate_def init_eval meta_eval list_eval cong: eval_cong)
  with coalesce_buddies[OF c, of 1 4] c show ?thesis by (auto simp: NLISTS_eq)
qed

text \<open>
  C7: freeing a block never merges it with its buddy, contrary to the comment in
  \<open>_free_pages\<close>. The block just freed carries \<open>STATUS_FREE\<close>, while \<open>coalesce\<close> compares the
  metadata with the bare order: the block keeps its order, on top of its free list.
\<close>

theorem free_never_coalesces:
  assumes "area_inv H F n (a, h)" "k < NLISTS" "block_state a pfn k (STATUS_ALLOCATED OR of_nat k)"
  shows "\<exists>a' h'. free_block n (a, h) pfn = Inr (a', h') \<and> block_state a' pfn k (STATUS_FREE OR of_nat k) \<and>
    max_order a' = max_order a \<and> area_inv H (F(LHead n k := LPage pfn # F (LHead n k))) n (a', h')"
proof -
  have r: "base a \<le> pfn" "pfn + 2 ^ k \<le> top a" "pfn mod 2 ^ k = 0" using assms(3) by (auto simp: block_state_def)
  from free_block_correct[OF assms] block_state_set_pages[OF area_inv_shape[OF assms(1)] r] show ?thesis
    by (metis set_pages_simps(3))
qed

theorem free_never_coalesces_witness:
  "\<exists>F a' h'. free_block 0 (areas (snd small_alloc1) ! 0, links (snd small_alloc1)) 4 = Inr (a', h') \<and>
     block_state a' 4 1 (STATUS_FREE OR 1) \<and> area_inv (heads (snd small_alloc1)) F 0 (a', h')"
proof -
  obtain F where I: "alloc_inv F (snd small_alloc1)" and a: "allocated (snd small_alloc1) 4 1"
    using reach_live_ok[OF reach_small_alloc1] by (auto simp: live_ok_def)
  obtain n where n: "active (snd small_alloc1) n" "block_state (areas (snd small_alloc1) ! n) 4 1 (STATUS_ALLOCATED OR 1)"
    using a by (auto simp: allocated_def)
  have "areas_mask (snd small_alloc1) = 1" by (simp add: alloc_eval cong: eval_cong)
  then have "n = 0" using n(1) by (simp add: active_def bit_1_iff)
  then have "area_inv (heads (snd small_alloc1)) F 0 (areas (snd small_alloc1) ! 0, links (snd small_alloc1))"
    "block_state (areas (snd small_alloc1) ! 0) 4 1 (STATUS_ALLOCATED OR of_nat 1)"
    using alloc_invD(4)[OF I n(1)] n(2) by auto
  from free_never_coalesces[OF this(1) _ this(2)] show ?thesis by (auto simp: NLISTS_eq)
qed

end
