(* ===== verification/Alloc.thy ===== *)
theory Alloc
  imports AllocPhys AllocPageProps
begin

text \<open>
  \<open>lib/alloc.c\<close> and \<open>lib/alloc.h\<close>: the generic \<open>malloc\<close> layer, which calls whichever allocator
  \<open>alloc_ops\<close> points to. The contract an allocator has to meet is the locale \<open>allocator\<close>; it is
  interpreted for the early allocator and for the page allocator.
\<close>

section \<open>The generic layer\<close>

text \<open>\<open>struct alloc_ops\<close>, over the state \<open>'s\<close> of the allocator; a null function pointer is \<open>None\<close>.\<close>

record 's alloc_ops =
  op_memalign :: "('s \<Rightarrow> u64 \<Rightarrow> u64 \<Rightarrow> (nat \<times> 's) res) option"
  op_free :: "('s \<Rightarrow> nat \<Rightarrow> 's res) option"

definition memalign :: "'s alloc_ops \<Rightarrow> 's \<Rightarrow> u64 \<Rightarrow> u64 \<Rightarrow> (nat \<times> 's) res" where
  "memalign ops s alignment sz =
     (if sz = 0 then Inr (0, s)
      else require (is_power_of_2 alignment)
        (case op_memalign ops of
           None \<Rightarrow> Inl AssertFail
         | Some f \<Rightarrow> bind_res (f s alignment sz) (\<lambda>(p, s'). require (p \<noteq> 0) (Inr (p, s')))))"

definition malloc :: "'s alloc_ops \<Rightarrow> 's \<Rightarrow> u64 \<Rightarrow> (nat \<times> 's) res" where
  "malloc ops s sz = memalign ops s 8 sz"

text \<open>\<open>mset s p c n\<close> is the state after \<open>memset(p, c, n)\<close>.\<close>

definition calloc ::
  "'s alloc_ops \<Rightarrow> ('s \<Rightarrow> nat \<Rightarrow> u8 \<Rightarrow> nat \<Rightarrow> 's) \<Rightarrow> 's \<Rightarrow> u64 \<Rightarrow> u64 \<Rightarrow> (nat \<times> 's) res" where
  "calloc ops mset s nmemb sz =
     require (unat nmemb * unat sz < 2 ^ 64)
       (bind_res (malloc ops s (nmemb * sz)) (\<lambda>(p, s').
          Inr (p, if p \<noteq> 0 then mset s' p 0 (unat (nmemb * sz)) else s')))"

definition free :: "'s alloc_ops \<Rightarrow> 's \<Rightarrow> nat \<Rightarrow> 's res" where
  "free ops s p = (case op_free ops of Some f \<Rightarrow> f s p | None \<Rightarrow> Inr s)"

text \<open>The two allocators.\<close>

definition early_alloc_ops :: "phys_state alloc_ops" where
  "early_alloc_ops = \<lparr>op_memalign = Some early_memalign, op_free = None\<rparr>"

definition page_alloc_ops :: "alloc_state alloc_ops" where
  "page_alloc_ops = \<lparr>op_memalign = Some memalign_pages, op_free = Some free_pages\<rparr>"

text \<open>A sequence of \<open>malloc\<close> calls, the addresses collected.\<close>

fun mallocs :: "'s alloc_ops \<Rightarrow> 's \<Rightarrow> u64 list \<Rightarrow> (nat list \<times> 's) res" where
  "mallocs ops s [] = Inr ([], s)"
| "mallocs ops s (n # ns) =
     bind_res (malloc ops s n) (\<lambda>(p, s'). bind_res (mallocs ops s' ns) (\<lambda>(ps, s''). Inr (p # ps, s'')))"

section \<open>The contract of an allocator\<close>

text \<open>
  \<open>avail s\<close> is the set of bytes the allocator has not handed out. Whatever it returns for a
  size below half the address space is aligned as asked for and was available; what it hands
  out is available no longer.
\<close>

locale allocator =
  fixes inv :: "'s \<Rightarrow> bool" and avail :: "'s \<Rightarrow> nat set"
    and f :: "'s \<Rightarrow> u64 \<Rightarrow> u64 \<Rightarrow> (nat \<times> 's) res"
  assumes law: "inv s \<Longrightarrow> is_power_of_2 al \<Longrightarrow> sz \<noteq> 0 \<Longrightarrow> unat sz < 2 ^ 63 \<Longrightarrow> f s al sz = Inr (p, s') \<Longrightarrow>
    inv s' \<and> avail s' \<subseteq> avail s \<and>
    (p \<noteq> 0 \<longrightarrow> p mod unat al = 0 \<and> {p..<p + unat sz} \<subseteq> avail s \<and> {p..<p + unat sz} \<inter> avail s' = {})"
begin

lemma memalign_spec:
  assumes "op_memalign ops = Some f" "inv s" "sz \<noteq> 0" "unat sz < 2 ^ 63" "memalign ops s al sz = Inr (p, s')"
  shows "p \<noteq> 0 \<and> p mod unat al = 0 \<and> {p..<p + unat sz} \<subseteq> avail s \<and> {p..<p + unat sz} \<inter> avail s' = {} \<and>
    inv s' \<and> avail s' \<subseteq> avail s"
proof -
  have "is_power_of_2 al" "f s al sz = Inr (p, s')" "p \<noteq> 0"
    using assms(1,3,5) by (auto simp: memalign_def res_simps)
  with law[OF assms(2) _ assms(3,4)] show ?thesis by blast
qed

lemma malloc_spec:
  assumes "op_memalign ops = Some f" "inv s" "sz \<noteq> 0" "unat sz < 2 ^ 63" "malloc ops s sz = Inr (p, s')"
  shows "p \<noteq> 0 \<and> p mod 8 = 0 \<and> {p..<p + unat sz} \<subseteq> avail s \<and> {p..<p + unat sz} \<inter> avail s' = {} \<and>
    inv s' \<and> avail s' \<subseteq> avail s"
  using memalign_spec[OF assms(1-4), of 8] assms(5) unfolding malloc_def by simp

text \<open>Every block of a sequence of calls is aligned, was available, and the blocks are pairwise disjoint.\<close>

lemma mallocs_disjoint:
  assumes "op_memalign ops = Some f" "inv s" "\<forall>n \<in> set ns. n \<noteq> 0 \<and> unat n < 2 ^ 63" "mallocs ops s ns = Inr (ps, s')"
  shows "length ps = length ns \<and> inv s' \<and>
    (\<forall>i < length ns. ps ! i mod 8 = 0 \<and> {ps ! i..<ps ! i + unat (ns ! i)} \<subseteq> avail s) \<and>
    (\<forall>i j. i < j \<and> j < length ns \<longrightarrow> {ps ! i..<ps ! i + unat (ns ! i)} \<inter> {ps ! j..<ps ! j + unat (ns ! j)} = {})"
  using assms(2-4)
proof (induction ns arbitrary: s ps)
  case Nil
  then show ?case by simp
next
  case (Cons n ns)
  obtain p s1 qs where 1: "malloc ops s n = Inr (p, s1)" and 2: "mallocs ops s1 ns = Inr (qs, s')" and ps: "ps = p # qs"
    using Cons.prems(3) by (auto simp: res_simps)
  have m: "p mod 8 = 0" "{p..<p + unat n} \<subseteq> avail s" "{p..<p + unat n} \<inter> avail s1 = {}" "inv s1" "avail s1 \<subseteq> avail s"
    using malloc_spec[OF assms(1) Cons.prems(1) _ _ 1] Cons.prems(2) by auto
  have IH: "length qs = length ns" "inv s'"
    "\<And>i. i < length ns \<Longrightarrow> qs ! i mod 8 = 0 \<and> {qs ! i..<qs ! i + unat (ns ! i)} \<subseteq> avail s1"
    "\<And>i j. i < j \<Longrightarrow> j < length ns \<Longrightarrow> {qs ! i..<qs ! i + unat (ns ! i)} \<inter> {qs ! j..<qs ! j + unat (ns ! j)} = {}"
    using Cons.IH[OF m(4) _ 2] Cons.prems(2) by auto
  have A: "(p # qs) ! i mod 8 = 0 \<and> {(p # qs) ! i..<(p # qs) ! i + unat ((n # ns) ! i)} \<subseteq> avail s" if "i < length (n # ns)" for i
    using that m IH(3)[of "i - 1"] by (cases i) auto
  have B: "{(p # qs) ! i..<(p # qs) ! i + unat ((n # ns) ! i)} \<inter> {(p # qs) ! j..<(p # qs) ! j + unat ((n # ns) ! j)} = {}"
    if ij: "i < j" "j < length (n # ns)" for i j
  proof -
    obtain j' where j': "j = Suc j'" "j' < length ns" using ij by (cases j) auto
    show ?thesis
    proof (cases i)
      case 0
      have "{qs ! j'..<qs ! j' + unat (ns ! j')} \<subseteq> avail s1" using IH(3)[OF j'(2)] by simp
      with m(3) have "{p..<p + unat n} \<inter> {qs ! j'..<qs ! j' + unat (ns ! j')} = {}" by blast
      with 0 j' show ?thesis by simp
    next
      case (Suc i')
      with j' IH(4)[of i' j'] ij show ?thesis by auto
    qed
  qed
  show ?case unfolding ps using IH(1,2) A B by auto
qed

end

section \<open>The allocators meet the contract\<close>

interpretation early: allocator phys_inv "\<lambda>s. {unat (phys_base s)..<unat (phys_top s)}" early_memalign
proof unfold_locales
  fix s al sz p s'
  assume inv: "phys_inv s" and al: "is_power_of_2 al" and sz: "sz \<noteq> 0" "unat sz < 2 ^ 63"
    and r: "early_memalign s al sz = Inr (p, s')"
  obtain addr where a: "phys_alloc_aligned_safe s sz al True = Inr (addr, s')"
    and p: "p = (if addr = INVALID_PHYS_ADDR then 0 else unat addr)"
    using r by (auto simp: early_memalign_def res_simps)
  note c = phys_alloc_correct[OF inv al sz(2) a]
  then have "unat (phys_base s') \<le> unat (phys_top s)" by (auto simp: phys_inv_def word_le_nat_alt)
  with c p show "phys_inv s' \<and> {unat (phys_base s')..<unat (phys_top s')} \<subseteq> {unat (phys_base s)..<unat (phys_top s)} \<and>
      (p \<noteq> 0 \<longrightarrow> p mod unat al = 0 \<and> {p..<p + unat sz} \<subseteq> {unat (phys_base s)..<unat (phys_top s)} \<and>
        {p..<p + unat sz} \<inter> {unat (phys_base s')..<unat (phys_top s')} = {})"
    by (auto simp: word_le_nat_alt split: if_splits)
qed

interpretation paged: allocator "\<lambda>st. \<exists>F. alloc_inv F st" "\<lambda>st. {x. x div PAGE_SIZE \<in> avail st}" memalign_pages
proof unfold_locales
  fix st al sz p st'
  assume inv: "\<exists>F. alloc_inv F st" and sz: "unat sz < 2 ^ 63" and r: "memalign_pages st al sz = Inr (p, st')"
  obtain F where I: "alloc_inv F st" using inv by blast
  have "unat sz + 4095 < 2 ^ 64" using sz by simp
  from memalign_pages_flags_correct[OF I _ this, of AREA_ANY] r
  have c: "(\<exists>F'. alloc_inv F' st') \<and> (p = 0 \<and> st' = st \<or> p \<noteq> 0 \<and> p mod unat al = 0 \<and> avail st' \<subseteq> avail st \<and>
    (\<forall>x. p \<le> x \<and> x < p + unat sz \<longrightarrow> x div PAGE_SIZE \<in> avail st \<and> x div PAGE_SIZE \<notin> avail st'))"
    unfolding memalign_pages_def by (simp add: AREA_ANY_def)
  then show "(\<exists>F. alloc_inv F st') \<and> {x. x div PAGE_SIZE \<in> avail st'} \<subseteq> {x. x div PAGE_SIZE \<in> avail st} \<and>
      (p \<noteq> 0 \<longrightarrow> p mod unat al = 0 \<and> {p..<p + unat sz} \<subseteq> {x. x div PAGE_SIZE \<in> avail st} \<and>
        {p..<p + unat sz} \<inter> {x. x div PAGE_SIZE \<in> avail st'} = {})"
    by auto
qed

section \<open>Properties\<close>

text \<open>
  C36: a sequence of \<open>malloc\<close> calls served by the early allocator returns pairwise disjoint
  blocks, each aligned to 8 bytes and inside the memory that was free.
\<close>

theorem early_malloc_disjoint:
  assumes "phys_inv s" "\<forall>n \<in> set ns. n \<noteq> 0 \<and> unat n < 2 ^ 63" "mallocs early_alloc_ops s ns = Inr (ps, s')"
  shows "length ps = length ns \<and> phys_inv s' \<and>
    (\<forall>i < length ns. ps ! i mod 8 = 0 \<and> {ps ! i..<ps ! i + unat (ns ! i)} \<subseteq> {unat (phys_base s)..<unat (phys_top s)}) \<and>
    (\<forall>i j. i < j \<and> j < length ns \<longrightarrow> {ps ! i..<ps ! i + unat (ns ! i)} \<inter> {ps ! j..<ps ! j + unat (ns ! j)} = {})"
  by (rule early.mallocs_disjoint[OF _ assms]) (simp add: early_alloc_ops_def)

definition early_state :: phys_state where
  "early_state = \<lparr>regions = replicate PHYS_ALLOC_NR_REGIONS \<lparr>region_base = 0, region_size = 0\<rparr>, nr_regions = 0,
     phys_base = 0x1001, phys_top = 0x2000, align_min = 0, warned = False\<rparr>"

lemma early_state_inv: "phys_inv early_state"
  by (simp add: phys_inv_def early_state_def)

theorem early_malloc_disjoint_witness:
  "\<exists>s'. mallocs early_alloc_ops early_state [10, 24] = Inr ([0x1008, 0x1018], s') \<and> phys_inv s'"
proof -
  have "\<exists>s'. mallocs early_alloc_ops early_state [10, 24] = Inr ([0x1008, 0x1018], s')"
    by (simp add: early_alloc_ops_def malloc_def memalign_def early_memalign_def phys_alloc_aligned_safe_def early_state_def
        PHYS_ALLOC_NR_REGIONS_def log_region_def ALIGN_def ALIGN_MASK_def is_power_of_2_def INVALID_PHYS_ADDR_def
        cong: eval_cong)
  then obtain s' where r: "mallocs early_alloc_ops early_state [10, 24] = Inr ([0x1008, 0x1018], s')" by blast
  from early_malloc_disjoint[OF early_state_inv _ r] r show ?thesis by auto
qed

text \<open>
  C37: the same for the page allocator: the blocks are disjoint and lie in pages that were
  available.
\<close>

theorem page_malloc_disjoint:
  assumes "\<exists>F. alloc_inv F st" "\<forall>n \<in> set ns. n \<noteq> 0 \<and> unat n < 2 ^ 63" "mallocs page_alloc_ops st ns = Inr (ps, st')"
  shows "length ps = length ns \<and> (\<exists>F. alloc_inv F st') \<and>
    (\<forall>i < length ns. ps ! i mod 8 = 0 \<and> {ps ! i..<ps ! i + unat (ns ! i)} \<subseteq> {x. x div PAGE_SIZE \<in> avail st}) \<and>
    (\<forall>i j. i < j \<and> j < length ns \<longrightarrow> {ps ! i..<ps ! i + unat (ns ! i)} \<inter> {ps ! j..<ps ! j + unat (ns ! j)} = {})"
  by (rule paged.mallocs_disjoint[OF _ assms]) (simp add: page_alloc_ops_def)

theorem page_malloc_disjoint_witness:
  "\<exists>st'. mallocs page_alloc_ops small_state [5000, 100] = Inr ([0x4000, 0x6000], st') \<and> (\<exists>F. alloc_inv F st')"
proof -
  have o: "is_power_of_2 8" "get_order (drop_bit PAGE_SHIFT (PAGE_ALIGN 8)) = 0"
    "get_order (drop_bit PAGE_SHIFT (PAGE_ALIGN 5000)) = 1" "get_order (drop_bit PAGE_SHIFT (PAGE_ALIGN 100)) = 0"
    by (simp_all add: is_power_of_2_def get_order_def fls_def fls_step_def PAGE_ALIGN_def ALIGN_def ALIGN_MASK_def
        PAGE_SHIFT_def mask_eq_exp_minus_1)
  note defs = page_alloc_ops_def malloc_def memalign_def memalign_pages_def memalign_pages_flags_def o
  have "\<exists>st'. mallocs page_alloc_ops small_state [5000, 100] = Inr ([0x4000, 0x6000], st')"
    by (simp add: defs cong: eval_cong, simp add: alloc_eval cong: eval_cong,
        simp add: defs cong: eval_cong, simp add: alloc_eval cong: eval_cong)
  then obtain st' where r: "mallocs page_alloc_ops small_state [5000, 100] = Inr ([0x4000, 0x6000], st')" by blast
  from page_malloc_disjoint[OF small_state_inv _ r] r show ?thesis by auto
qed

text \<open>
  One request to the early allocator keeps its invariant, so that the logged regions stay
  in ascending order below the boundary, and either is refused without effect or returns an
  aligned address at or above the old boundary and moves the boundary just past the block.
\<close>

theorem phys_request:
  assumes "phys_inv s" "is_power_of_2 align" "unat sz < 2 ^ 63" "phys_alloc_aligned_safe s sz align safe = Inr (addr, s')"
  shows "phys_inv s' \<and> phys_top s' = phys_top s \<and> (s' = s \<and> addr = INVALID_PHYS_ADDR \<or>
    unat addr mod unat align = 0 \<and> phys_base s \<le> addr \<and> unat (phys_base s') = unat addr + unat sz)"
  by (rule phys_alloc_correct[OF assms])

theorem phys_request_witness:
  "\<exists>s'. phys_alloc_aligned_safe early_state 10 16 True = Inr (0x1010, s') \<and> phys_base s' = 0x101a \<and> phys_inv s'"
proof -
  have "\<exists>s'. phys_alloc_aligned_safe early_state 10 16 True = Inr (0x1010, s') \<and> phys_base s' = 0x101a"
    by (simp add: phys_alloc_aligned_safe_def early_state_def PHYS_ALLOC_NR_REGIONS_def log_region_def ALIGN_def ALIGN_MASK_def
        cong: eval_cong)
  then obtain s' where r: "phys_alloc_aligned_safe early_state 10 16 True = Inr (0x1010, s')" "phys_base s' = 0x101a" by blast
  moreover have "is_power_of_2 16" by (simp add: is_power_of_2_def)
  ultimately show ?thesis using phys_request[OF early_state_inv _ _ r(1)] by auto
qed

text \<open>
  C38: \<open>phys_alloc_get_unused\<close> does not check for room in the log: with all 256 entries used, as
  after 256 requests, it writes behind the array.
\<close>

theorem get_unused_overruns_log:
  assumes "length (regions s) = PHYS_ALLOC_NR_REGIONS" "nr_regions s = PHYS_ALLOC_NR_REGIONS" "phys_base s \<noteq> phys_top s"
  shows "phys_alloc_get_unused s = Inl Fault"
  using assms by (simp add: phys_alloc_get_unused_def log_region_def arr_set_def Let_def)

theorem get_unused_overruns_log_witness:
  "phys_alloc_get_unused (early_state\<lparr>nr_regions := 256\<rparr>) = Inl Fault"
  using get_unused_overruns_log[of "early_state\<lparr>nr_regions := 256\<rparr>"]
  by (simp add: early_state_def PHYS_ALLOC_NR_REGIONS_def)

end
