(* ===== verification/X86Paging.thy ===== *)
theory X86Paging
  imports Bitops
begin

text \<open>
  The paging structures of x86-64 (\<open>lib/x86/asm/page.h\<close>, \<open>lib/x86/vm.h\<close>): the bits of an
  entry, the index of an address at a level, and memory as the 512-entry pages the structures
  are made of. A pointer to an entry is the address of its page and the index in it; the
  addresses entries hold are page-aligned by construction (\<open>PT_ADDR_MASK\<close>).
\<close>

section \<open>Constants\<close>

definition PT_PRESENT_MASK :: u64 where "PT_PRESENT_MASK = push_bit 0 1"
definition PT_WRITABLE_MASK :: u64 where "PT_WRITABLE_MASK = push_bit 1 1"
definition PT_USER_MASK :: u64 where "PT_USER_MASK = push_bit 2 1"
definition PT_ACCESSED_MASK :: u64 where "PT_ACCESSED_MASK = push_bit 5 1"
definition PT_DIRTY_MASK :: u64 where "PT_DIRTY_MASK = push_bit 6 1"
definition PT_PAGE_SIZE_MASK :: u64 where "PT_PAGE_SIZE_MASK = push_bit 7 1"
definition PT64_NX_MASK :: u64 where "PT64_NX_MASK = push_bit 63 1"

definition PT_ADDR_UPPER_BOUND :: nat where "PT_ADDR_UPPER_BOUND = 51"

definition PT_ADDR_MASK :: u64 where
  "PT_ADDR_MASK = GENMASK_ULL PT_ADDR_UPPER_BOUND 12"

definition PAGE_LEVEL :: nat where "PAGE_LEVEL = 4"
definition PGDIR_WIDTH :: nat where "PGDIR_WIDTH = 9"
definition PGDIR_MASK :: u64 where "PGDIR_MASK = 511"
definition LARGE_PAGE_SIZE :: u64 where "LARGE_PAGE_SIZE = 512 * 4096"

definition PGDIR_BITS :: "nat \<Rightarrow> nat" where
  "PGDIR_BITS lvl = (lvl - 1) * PGDIR_WIDTH + 12"

definition PGDIR_OFFSET :: "u64 \<Rightarrow> nat \<Rightarrow> nat" where
  "PGDIR_OFFSET va lvl = unat (drop_bit (PGDIR_BITS lvl) va AND PGDIR_MASK)"

section \<open>Memory\<close>

type_synonym ptmem = "u64 \<Rightarrow> nat \<Rightarrow> u64"

type_synonym pteptr = "u64 \<times> nat"

definition pt_read :: "ptmem \<Rightarrow> pteptr \<Rightarrow> u64" where
  "pt_read m p = m (fst p) (snd p)"

definition pt_write :: "ptmem \<Rightarrow> pteptr \<Rightarrow> u64 \<Rightarrow> ptmem" where
  "pt_write m p v = m(fst p := (m (fst p))(snd p := v))"

text \<open>\<open>memset(pt, 0, PAGE_SIZE)\<close>\<close>

definition pt_clear :: "ptmem \<Rightarrow> u64 \<Rightarrow> ptmem" where
  "pt_clear m pt = m(pt := (\<lambda>_. 0))"

definition pt_present :: "u64 \<Rightarrow> bool" where
  "pt_present pte \<longleftrightarrow> pte AND PT_PRESENT_MASK \<noteq> 0"

text \<open>The test for a large page in \<open>find_pte_level\<close> and \<open>found_huge_pte\<close>.\<close>

definition pt_huge :: "nat \<Rightarrow> u64 \<Rightarrow> bool" where
  "pt_huge level pte \<longleftrightarrow> (level = 2 \<or> level = 3) \<and> pte AND PT_PAGE_SIZE_MASK \<noteq> 0"

definition pt_next :: "u64 \<Rightarrow> u64" where
  "pt_next pte = pte AND PT_ADDR_MASK"

section \<open>Bits\<close>

lemma and_pow2_nonzero: "x AND push_bit k (1 :: u64) \<noteq> 0 \<longleftrightarrow> bit x k"
proof
  assume "x AND push_bit k (1 :: u64) \<noteq> 0"
  then obtain i where "bit (x AND push_bit k (1 :: u64)) i" using bit_eqI[of "x AND push_bit k 1" 0] by auto
  then show "bit x k" by (auto simp: bit_simps)
next
  assume b: "bit x k"
  then have "k < 64" using bit_imp_le_length[of x k] by simp
  then have "bit (x AND push_bit k (1 :: u64)) k" using b by (simp add: bit_simps)
  then show "x AND push_bit k (1 :: u64) \<noteq> 0" by auto
qed

lemma pt_present_bit: "pt_present e \<longleftrightarrow> bit e 0"
  unfolding pt_present_def PT_PRESENT_MASK_def by (rule and_pow2_nonzero)

lemma pt_huge_bit: "pt_huge l e \<longleftrightarrow> (l = 2 \<or> l = 3) \<and> bit e 7"
  unfolding pt_huge_def PT_PAGE_SIZE_MASK_def by (simp only: and_pow2_nonzero)

lemma bit_PT_ADDR_MASK: "bit PT_ADDR_MASK i \<longleftrightarrow> 12 \<le> i \<and> i \<le> 51"
  unfolding PT_ADDR_MASK_def GENMASK_ULL_def PT_ADDR_UPPER_BOUND_def by (auto simp: bit_simps)

lemma bit_pt_next: "bit (pt_next e) i \<longleftrightarrow> bit e i \<and> 12 \<le> i \<and> i \<le> 51"
  by (auto simp: pt_next_def bit_and_iff bit_PT_ADDR_MASK)

lemma PGDIR_OFFSET_less: "PGDIR_OFFSET va lvl < 512"
proof -
  have "drop_bit (PGDIR_BITS lvl) va AND 511 = take_bit 9 (drop_bit (PGDIR_BITS lvl) va)"
    by (simp add: take_bit_eq_mask mask_eq_exp_minus_1)
  then show ?thesis using unat_take_bit[of 9 "drop_bit (PGDIR_BITS lvl) va"]
    by (simp add: PGDIR_OFFSET_def PGDIR_MASK_def)
qed

end
