(* ===== verification/X86Vm.thy ===== *)
theory X86Vm
  imports X86Paging
begin

text \<open>
  \<open>lib/x86/vm.c\<close>: building and walking the page tables. The pages for new tables come from
  \<open>alloc\<close>, an allocator with the interface of \<open>alloc_page\<close> over a state of type \<open>'s\<close>: it returns
  the address of a page, 0 when there is none. Physical and virtual addresses of tables agree,
  as before paging is enabled. The register writes and TLB flushes have no counterpart here.
\<close>

section \<open>State\<close>

record 's vm_state =
  vmem :: ptmem
  palloc :: 's
  pte_opt_mask :: u64

type_synonym 's page_fun = "'s \<Rightarrow> (nat \<times> 's) res"

section \<open>Installing entries\<close>

text \<open>
  The loop of \<open>install_pte\<close> from \<open>level\<close> down to \<open>pte_level\<close>, in the table \<open>pt\<close>; \<open>pt_page\<close> is
  the page the caller supplies for the first new table, 0 for none. Clearing the page at
  \<open>NULL\<close>, which the allocator returns when it has none left, is undefined.
\<close>

fun install_loop ::
  "'s page_fun \<Rightarrow> nat \<Rightarrow> 's vm_state \<Rightarrow> u64 \<Rightarrow> nat \<Rightarrow> u64 \<Rightarrow> u64 \<Rightarrow> u64 \<Rightarrow> (pteptr \<times> 's vm_state) res" where
  "install_loop alloc 0 s pt pte_level virt pte pt_page = Inl NoFuel"
| "install_loop alloc (Suc l) s pt pte_level virt pte pt_page =
     (let level = Suc l; offset = PGDIR_OFFSET virt level in
      if level > pte_level then
        bind_res
          (if \<not> pt_present (vmem s pt offset) then
             bind_res (if pt_page = 0 then bind_res (alloc (palloc s)) (\<lambda>(p, a). Inr (of_nat p, a, pt_page))
                       else Inr (pt_page, palloc s, 0)) (\<lambda>(new_pt, a, pt_page').
               if new_pt = 0 then Inl Undef
               else
                 let m1 = pt_clear (vmem s) new_pt;
                     m2 = pt_write m1 (pt, offset) (new_pt OR PT_PRESENT_MASK OR PT_WRITABLE_MASK OR pte_opt_mask s)
                 in Inr (s\<lparr>vmem := m2, palloc := a\<rparr>, pt_page'))
           else Inr (s, pt_page)) (\<lambda>(s', pt_page').
        install_loop alloc l s' (pt_next (vmem s' pt offset)) pte_level virt pte pt_page')
      else Inr ((pt, offset), s\<lparr>vmem := pt_write (vmem s) (pt, offset) pte\<rparr>))"

definition install_pte ::
  "'s page_fun \<Rightarrow> 's vm_state \<Rightarrow> u64 \<Rightarrow> nat \<Rightarrow> u64 \<Rightarrow> u64 \<Rightarrow> u64 \<Rightarrow> (pteptr \<times> 's vm_state) res" where
  "install_pte alloc s cr3 pte_level virt pte pt_page =
     install_loop alloc PAGE_LEVEL s cr3 pte_level virt pte pt_page"

definition install_large_page :: "'s page_fun \<Rightarrow> 's vm_state \<Rightarrow> u64 \<Rightarrow> u64 \<Rightarrow> u64 \<Rightarrow> (pteptr \<times> 's vm_state) res" where
  "install_large_page alloc s cr3 phys virt =
     (let flags = PT_PRESENT_MASK OR PT_WRITABLE_MASK OR pte_opt_mask s OR PT_PAGE_SIZE_MASK
      in install_pte alloc s cr3 2 virt (phys OR flags) 0)"

definition install_page :: "'s page_fun \<Rightarrow> 's vm_state \<Rightarrow> u64 \<Rightarrow> u64 \<Rightarrow> u64 \<Rightarrow> (pteptr \<times> 's vm_state) res" where
  "install_page alloc s cr3 phys virt =
     (let flags = PT_PRESENT_MASK OR PT_WRITABLE_MASK OR pte_opt_mask s
      in install_pte alloc s cr3 1 virt (phys OR flags) 0)"

text \<open>
  \<open>while (phys + PAGE_SIZE <= max)\<close>; the loop may run on when \<open>max\<close> is the end of the address
  space, where \<open>phys + PAGE_SIZE\<close> wraps, so it is a partial function.
\<close>

partial_function (option) install_pages_loop ::
  "'s page_fun \<Rightarrow> 's vm_state \<Rightarrow> u64 \<Rightarrow> u64 \<Rightarrow> u64 \<Rightarrow> u64 \<Rightarrow> 's vm_state res option" where
  "install_pages_loop alloc s cr3 phys maxp virt =
     (if phys + 4096 \<le> maxp then
        (case install_page alloc s cr3 phys virt of
           Inl e \<Rightarrow> Some (Inl e)
         | Inr (p, s') \<Rightarrow> install_pages_loop alloc s' cr3 (phys + 4096) maxp (virt + 4096))
      else Some (Inr s))"

definition install_pages :: "'s page_fun \<Rightarrow> 's vm_state \<Rightarrow> u64 \<Rightarrow> u64 \<Rightarrow> u64 \<Rightarrow> u64 \<Rightarrow> 's vm_state res option" where
  "install_pages alloc s cr3 phys len virt =
     (if phys mod 4096 = 0 \<and> virt mod 4096 = 0 \<and> len mod 4096 = 0
      then install_pages_loop alloc s cr3 phys (len + phys) virt
      else Some (Inl AssertFail))"

partial_function (option) install_large_loop ::
  "'s page_fun \<Rightarrow> 's vm_state \<Rightarrow> u64 \<Rightarrow> u64 \<Rightarrow> u64 \<Rightarrow> (u64 \<times> 's vm_state) res option" where
  "install_large_loop alloc s cr3 phys maxp =
     (if phys + LARGE_PAGE_SIZE \<le> maxp then
        (case install_large_page alloc s cr3 phys phys of
           Inl e \<Rightarrow> Some (Inl e)
         | Inr (p, s') \<Rightarrow> install_large_loop alloc s' cr3 (phys + LARGE_PAGE_SIZE) maxp)
      else Some (Inr (phys, s)))"

definition X86_MMU_MAP_USER :: u32 where "X86_MMU_MAP_USER = push_bit 0 1"
definition X86_MMU_MAP_HUGE :: u32 where "X86_MMU_MAP_HUGE = push_bit 1 1"

definition setup_mmu_range_flags ::
  "'s page_fun \<Rightarrow> 's vm_state \<Rightarrow> u64 \<Rightarrow> u64 \<Rightarrow> u64 \<Rightarrow> u32 \<Rightarrow> 's vm_state res option" where
  "setup_mmu_range_flags alloc s cr3 start len mmu_flags =
     (let orig_opt_mask = pte_opt_mask s; maxp = len + start;
          s1 = (if mmu_flags AND X86_MMU_MAP_USER \<noteq> 0 then s\<lparr>pte_opt_mask := pte_opt_mask s OR PT_USER_MASK\<rparr> else s)
      in case (if mmu_flags AND X86_MMU_MAP_HUGE \<noteq> 0 then install_large_loop alloc s1 cr3 start maxp
               else Some (Inr (start, s1))) of
           None \<Rightarrow> None
         | Some (Inl e) \<Rightarrow> Some (Inl e)
         | Some (Inr (phys, s2)) \<Rightarrow>
             (case install_pages alloc s2 cr3 phys (maxp - phys) phys of
                None \<Rightarrow> None
              | Some (Inl e) \<Rightarrow> Some (Inl e)
              | Some (Inr s3) \<Rightarrow> Some (Inr (s3\<lparr>pte_opt_mask := orig_opt_mask\<rparr>))))"

definition setup_mmu_range :: "'s page_fun \<Rightarrow> 's vm_state \<Rightarrow> u64 \<Rightarrow> u64 \<Rightarrow> u64 \<Rightarrow> 's vm_state res option" where
  "setup_mmu_range alloc s cr3 start len = setup_mmu_range_flags alloc s cr3 start len X86_MMU_MAP_HUGE"

section \<open>Walking\<close>

record pte_search =
  search_level :: nat
  search_pte :: pteptr

definition found_huge_pte :: "ptmem \<Rightarrow> pte_search \<Rightarrow> bool" where
  "found_huge_pte m search \<longleftrightarrow>
     (search_level search = 2 \<or> search_level search = 3) \<and> pt_present (pt_read m (search_pte search)) \<and>
     pt_read m (search_pte search) AND PT_PAGE_SIZE_MASK \<noteq> 0"

definition found_leaf_pte :: "ptmem \<Rightarrow> pte_search \<Rightarrow> bool" where
  "found_leaf_pte m search \<longleftrightarrow> search_level search = 1 \<or> found_huge_pte m search"

fun find_loop :: "ptmem \<Rightarrow> nat \<Rightarrow> u64 \<Rightarrow> u64 \<Rightarrow> nat \<Rightarrow> pte_search res" where
  "find_loop m 0 pt virt lowest_level = Inl NoFuel"
| "find_loop m (Suc l) pt virt lowest_level =
     (let level = Suc l; offset = PGDIR_OFFSET virt level; pte = m pt offset;
          r = \<lparr>search_level = level, search_pte = (pt, offset)\<rparr>
      in if \<not> pt_present pte then Inr r
         else if pt_huge level pte then Inr r
         else if level = lowest_level then Inr r
         else find_loop m l (pt_next pte) virt lowest_level)"

definition find_pte_level :: "ptmem \<Rightarrow> u64 \<Rightarrow> u64 \<Rightarrow> nat \<Rightarrow> pte_search res" where
  "find_pte_level m cr3 virt lowest_level =
     require (lowest_level \<ge> 1 \<and> lowest_level \<le> PAGE_LEVEL) (find_loop m PAGE_LEVEL cr3 virt lowest_level)"

definition get_pte :: "ptmem \<Rightarrow> u64 \<Rightarrow> u64 \<Rightarrow> pteptr option res" where
  "get_pte m cr3 virt =
     bind_res (find_pte_level m cr3 virt 1) (\<lambda>search.
       Inr (if found_leaf_pte m search then Some (search_pte search) else None))"

definition get_pte_level :: "ptmem \<Rightarrow> u64 \<Rightarrow> u64 \<Rightarrow> nat \<Rightarrow> pteptr option res" where
  "get_pte_level m cr3 virt pte_level =
     bind_res (find_pte_level m cr3 virt pte_level) (\<lambda>search.
       Inr (if search_level search = pte_level then Some (search_pte search) else None))"

partial_function (option) any_present_loop :: "ptmem \<Rightarrow> u64 \<Rightarrow> u64 \<Rightarrow> u64 \<Rightarrow> bool res option" where
  "any_present_loop m cr3 cur maxv =
     (if cur < maxv then
        (case get_pte m cr3 cur of
           Inl e \<Rightarrow> Some (Inl e)
         | Inr p \<Rightarrow>
             if (case p of Some ptep \<Rightarrow> pt_present (pt_read m ptep) | None \<Rightarrow> False) then Some (Inr True)
             else any_present_loop m cr3 (cur + 4096) maxv)
      else Some (Inr False))"

definition any_present_pages :: "ptmem \<Rightarrow> u64 \<Rightarrow> u64 \<Rightarrow> u64 \<Rightarrow> bool res option" where
  "any_present_pages m cr3 virt len = any_present_loop m cr3 virt (virt + len)"

definition virt_to_pte_phys :: "ptmem \<Rightarrow> u64 \<Rightarrow> u64 \<Rightarrow> u64 res" where
  "virt_to_pte_phys m cr3 virt =
     bind_res (get_pte m cr3 virt) (\<lambda>p. case p of
       None \<Rightarrow> Inl Undef
     | Some ptep \<Rightarrow> Inr ((pt_read m ptep AND PT_ADDR_MASK) + (virt AND (4096 - 1))))"

section \<open>Splitting large pages\<close>

fun split_loop :: "ptmem \<Rightarrow> nat \<Rightarrow> u64 \<Rightarrow> nat \<Rightarrow> u64 \<Rightarrow> u64 \<Rightarrow> u64 \<Rightarrow> ptmem" where
  "split_loop m 0 new_pt i prototype pa step = m"
| "split_loop m (Suc n) new_pt i prototype pa step =
     split_loop (pt_write m (new_pt, i) (prototype OR pa)) n new_pt (Suc i) prototype (pa + step) step"

definition split_large_page :: "'s page_fun \<Rightarrow> 's vm_state \<Rightarrow> pteptr \<Rightarrow> nat \<Rightarrow> 's vm_state res" where
  "split_large_page alloc s ptep level =
     (let pte = pt_read (vmem s) ptep in
      require (pte AND PT_PRESENT_MASK \<noteq> 0) (
      require (pte AND PT_PAGE_SIZE_MASK \<noteq> 0) (
      require (level = 2 \<or> level = 3) (
      bind_res (alloc (palloc s)) (\<lambda>(p, a).
      require (p \<noteq> 0) (
        let new_pt = of_nat p;
            prototype = (if level = 2 then pte AND NOT PT_ADDR_MASK AND NOT PT_PAGE_SIZE_MASK
                         else pte AND NOT PT_ADDR_MASK);
            m = split_loop (vmem s) (2 ^ PGDIR_WIDTH) new_pt 0 prototype (pte AND PT_ADDR_MASK)
                  (push_bit (PGDIR_BITS (level - 1)) 1);
            pte' = (pte AND NOT PT_PAGE_SIZE_MASK AND NOT PT_ADDR_MASK) OR new_pt
        in Inr (s\<lparr>vmem := pt_write m ptep pte', palloc := a\<rparr>)))))))"

text \<open>One half of \<open>force_4k_page\<close>: split the entry of \<open>addr\<close> at \<open>level\<close> when it is a large page.\<close>

definition force_split :: "'s page_fun \<Rightarrow> 's vm_state \<Rightarrow> u64 \<Rightarrow> u64 \<Rightarrow> nat \<Rightarrow> 's vm_state res" where
  "force_split alloc s cr3 addr level =
     bind_res (get_pte_level (vmem s) cr3 addr level) (\<lambda>p. case p of
       None \<Rightarrow> Inl AssertFail
     | Some ptep \<Rightarrow>
         let pte = pt_read (vmem s) ptep in
         require (pte AND PT_PRESENT_MASK \<noteq> 0) (
           if pte AND PT_PAGE_SIZE_MASK \<noteq> 0 then split_large_page alloc s ptep level else Inr s))"

definition force_4k_page :: "'s page_fun \<Rightarrow> 's vm_state \<Rightarrow> u64 \<Rightarrow> u64 \<Rightarrow> 's vm_state res" where
  "force_4k_page alloc s cr3 addr =
     bind_res (force_split alloc s cr3 addr 3) (\<lambda>s'. force_split alloc s' cr3 addr 2)"

text \<open>The walk with a callback that may change the tables.\<close>

partial_function (option) walk_loop ::
  "(pte_search \<Rightarrow> u64 \<Rightarrow> ptmem \<times> 'c \<Rightarrow> ptmem \<times> 'c) \<Rightarrow> u64 \<Rightarrow> u64 \<Rightarrow> u64 \<Rightarrow> ptmem \<times> 'c \<Rightarrow> (ptmem \<times> 'c) res option" where
  "walk_loop callback cr3 cur endv st =
     (if cur < endv then
        (case find_pte_level (fst st) cr3 cur 1 of
           Inl e \<Rightarrow> Some (Inl e)
         | Inr search \<Rightarrow>
             if found_leaf_pte (fst st) search then
               let page_size = push_bit (PGDIR_BITS (search_level search)) 1
               in walk_loop callback cr3 (ALIGN_DOWN (cur + page_size) page_size) endv (callback search cur st)
             else Some (Inl AssertFail))
      else Some (Inr st))"

definition walk_pte ::
  "(pte_search \<Rightarrow> u64 \<Rightarrow> ptmem \<times> 'c \<Rightarrow> ptmem \<times> 'c) \<Rightarrow> u64 \<Rightarrow> u64 \<Rightarrow> u64 \<Rightarrow> ptmem \<times> 'c \<Rightarrow> (ptmem \<times> 'c) res option" where
  "walk_pte callback cr3 virt len st = walk_loop callback cr3 virt (virt + len) st"

end
