(* ===== verification/X86Tree.thy ===== *)
theory X86Tree
  imports X86Vm
begin

text \<open>
  What a set of page tables means: the leaf entry the processor finds for an address, the
  pages the tables occupy, and the condition that no table is shared. The main result is
  that \<open>install_pte\<close> changes the leaf of the addresses under the new entry and of no other.
\<close>

section \<open>The mapping of a table\<close>

definition is_table :: "nat \<Rightarrow> u64 \<Rightarrow> bool" where
  "is_table l e \<longleftrightarrow> 1 < l \<and> pt_present e \<and> \<not> pt_huge l e"

text \<open>The level and value of the present leaf entry for \<open>va\<close> below table \<open>b\<close> of level \<open>l\<close>.\<close>

fun leaf :: "ptmem \<Rightarrow> nat \<Rightarrow> u64 \<Rightarrow> u64 \<Rightarrow> (nat \<times> u64) option" where
  "leaf m 0 b va = None"
| "leaf m (Suc l) b va =
     (let e = m b (PGDIR_OFFSET va (Suc l)) in
      if is_table (Suc l) e then leaf m l (pt_next e) va
      else if pt_present e then Some (Suc l, e) else None)"

text \<open>The tables below (and including) \<open>b\<close>, and that they form a tree.\<close>

fun tabs :: "ptmem \<Rightarrow> nat \<Rightarrow> u64 \<Rightarrow> u64 set" where
  "tabs m 0 b = {}"
| "tabs m (Suc l) b = insert b (\<Union>i \<in> {i. i < 512 \<and> is_table (Suc l) (m b i)}. tabs m l (pt_next (m b i)))"

fun tree :: "ptmem \<Rightarrow> nat \<Rightarrow> u64 \<Rightarrow> bool" where
  "tree m 0 b = True"
| "tree m (Suc l) b =
     (\<forall>i < 512. is_table (Suc l) (m b i) \<longrightarrow>
        tree m l (pt_next (m b i)) \<and> b \<notin> tabs m l (pt_next (m b i)) \<and>
        (\<forall>j < 512. j \<noteq> i \<and> is_table (Suc l) (m b j) \<longrightarrow>
           tabs m l (pt_next (m b i)) \<inter> tabs m l (pt_next (m b j)) = {}))"

definition same_path :: "nat \<Rightarrow> nat \<Rightarrow> u64 \<Rightarrow> u64 \<Rightarrow> bool" where
  "same_path k l va va' \<longleftrightarrow> (\<forall>i. k \<le> i \<and> i \<le> l \<longrightarrow> PGDIR_OFFSET va' i = PGDIR_OFFSET va i)"

definition as_leaf :: "nat \<Rightarrow> u64 \<Rightarrow> (nat \<times> u64) option" where
  "as_leaf l e = (if pt_present e then Some (l, e) else None)"

section \<open>Frame\<close>

lemma frame:
  assumes "\<forall>q \<in> tabs m l b. m' q = m q"
  shows "tabs m' l b = tabs m l b \<and> tree m' l b = tree m l b \<and> leaf m' l b va = leaf m l b va"
  using assms
proof (induction l arbitrary: b)
  case (Suc l)
  have b: "m' b = m b" using Suc.prems by simp
  have c: "tabs m' l (pt_next (m b i)) = tabs m l (pt_next (m b i)) \<and> tree m' l (pt_next (m b i)) = tree m l (pt_next (m b i))
      \<and> leaf m' l (pt_next (m b i)) va = leaf m l (pt_next (m b i)) va"
    if "i < 512" "is_table (Suc l) (m b i)" for i
    by (rule Suc.IH) (use Suc.prems that in auto)
  have "leaf m' (Suc l) b va = leaf m (Suc l) b va"
    using c[of "PGDIR_OFFSET va (Suc l)"] PGDIR_OFFSET_less by (simp add: b Let_def)
  moreover have "tabs m' (Suc l) b = tabs m (Suc l) b" using c by (simp add: b)
  moreover have "tree m' (Suc l) b = tree m (Suc l) b" using c by (simp add: b)
  ultimately show ?case by blast
qed simp

lemmas frame_tabs = frame[THEN conjunct1]
lemmas frame_tree = frame[THEN conjunct2, THEN conjunct1]
lemmas frame_leaf = frame[THEN conjunct2, THEN conjunct2]

lemma self_in_tabs: "0 < l \<Longrightarrow> b \<in> tabs m l b"
  by (cases l) auto

lemma clear_table:
  assumes "m b = (\<lambda>_. 0)"
  shows "tabs m l b \<subseteq> {b}" "tree m l b" "leaf m l b va = None"
  using assms by (cases l; auto simp: is_table_def pt_present_def Let_def)+

section \<open>Replacing one entry\<close>

text \<open>
  Entry \<open>i\<close> of table \<open>b\<close> gets the value \<open>e\<close>; the tables below it, if any, lie in pages that were
  below the old entry or are not part of the tree.
\<close>

lemma entry_update:
  assumes t: "tree m (Suc l) b" and i: "i < 512"
    and b: "m' b = (m b)(i := e)"
    and other: "\<forall>j < 512. j \<noteq> i \<and> is_table (Suc l) (m b j) \<longrightarrow> (\<forall>q \<in> tabs m l (pt_next (m b j)). m' q = m q)"
    and new: "is_table (Suc l) e \<longrightarrow> tree m' l (pt_next e) \<and> b \<notin> tabs m' l (pt_next e) \<and>
       (\<forall>j < 512. j \<noteq> i \<and> is_table (Suc l) (m b j) \<longrightarrow> tabs m' l (pt_next e) \<inter> tabs m l (pt_next (m b j)) = {})"
  shows "tree m' (Suc l) b"
    and "tabs m' (Suc l) b \<subseteq> tabs m (Suc l) b \<union> (if is_table (Suc l) e then tabs m' l (pt_next e) else {})"
    and "leaf m' (Suc l) b va = (if PGDIR_OFFSET va (Suc l) = i
       then (if is_table (Suc l) e then leaf m' l (pt_next e) va else as_leaf (Suc l) e) else leaf m (Suc l) b va)"
proof -
  have fr: "tabs m' l (pt_next (m b j)) = tabs m l (pt_next (m b j))" "tree m' l (pt_next (m b j)) = tree m l (pt_next (m b j))"
      "leaf m' l (pt_next (m b j)) va = leaf m l (pt_next (m b j)) va"
    if "j < 512" "j \<noteq> i" "is_table (Suc l) (m b j)" for j
    using frame[of m l "pt_next (m b j)" m' va] other that by auto
  have eb: "m' b j = (if j = i then e else m b j)" for j by (simp add: b)
  show "tabs m' (Suc l) b \<subseteq> tabs m (Suc l) b \<union> (if is_table (Suc l) e then tabs m' l (pt_next e) else {})"
  proof
    fix q assume "q \<in> tabs m' (Suc l) b"
    then consider "q = b" | j where "j < 512" "is_table (Suc l) (m' b j)" "q \<in> tabs m' l (pt_next (m' b j))" by auto
    then show "q \<in> tabs m (Suc l) b \<union> (if is_table (Suc l) e then tabs m' l (pt_next e) else {})"
    proof cases
      case 2
      then show ?thesis using fr(1)[of j] by (cases "j = i") (auto simp: eb)
    qed simp
  qed
  show "leaf m' (Suc l) b va = (if PGDIR_OFFSET va (Suc l) = i
       then (if is_table (Suc l) e then leaf m' l (pt_next e) va else as_leaf (Suc l) e) else leaf m (Suc l) b va)"
    using fr(3)[of "PGDIR_OFFSET va (Suc l)"] PGDIR_OFFSET_less by (simp add: eb Let_def as_leaf_def)
  have old: "tree m l (pt_next (m b j)) \<and> b \<notin> tabs m l (pt_next (m b j))" if "j < 512" "is_table (Suc l) (m b j)" for j
    using t that by simp
  have apart: "tabs m l (pt_next (m b j)) \<inter> tabs m l (pt_next (m b k)) = {}"
    if "j < 512" "k < 512" "j \<noteq> k" "is_table (Suc l) (m b j)" "is_table (Suc l) (m b k)" for j k
    using t that by simp
  show "tree m' (Suc l) b"
  proof (simp only: tree.simps, intro allI impI)
    fix j assume j: "j < 512" "is_table (Suc l) (m' b j)"
    have d: "tabs m' l (pt_next (m' b j)) \<inter> tabs m' l (pt_next (m' b k)) = {}"
      if k: "k < 512" "k \<noteq> j" "is_table (Suc l) (m' b k)" for k
    proof -
      consider "j = i" | "k = i" | "j \<noteq> i" "k \<noteq> i" by blast
      then show ?thesis
      proof cases
        case 1 then show ?thesis using new j k fr(1)[of k] by (simp add: eb)
      next
        case 2 then show ?thesis using new j k fr(1)[of j] by (simp add: eb Int_commute)
      next
        case 3 then show ?thesis using apart[of j k] j k fr(1) by (simp add: eb)
      qed
    qed
    have "tree m' l (pt_next (m' b j)) \<and> b \<notin> tabs m' l (pt_next (m' b j))"
      using new j fr(1,2)[of j] old[of j] by (cases "j = i") (simp_all add: eb)
    then show "tree m' l (pt_next (m' b j)) \<and> b \<notin> tabs m' l (pt_next (m' b j)) \<and>
        (\<forall>k<512. k \<noteq> j \<and> is_table (Suc l) (m' b k) \<longrightarrow> tabs m' l (pt_next (m' b j)) \<inter> tabs m' l (pt_next (m' b k)) = {})"
      using d by blast
  qed
qed

section \<open>Installing an entry\<close>

text \<open>The walk to level \<open>k\<close> meets no large page above it.\<close>

definition path_ok :: "ptmem \<Rightarrow> nat \<Rightarrow> u64 \<Rightarrow> nat \<Rightarrow> u64 \<Rightarrow> bool" where
  "path_ok m l b k va \<longleftrightarrow>
     (\<exists>r. find_loop m l b va k = Inr r \<and> (search_level r = k \<or> \<not> pt_present (pt_read m (search_pte r))))"

lemma path_ok_Suc:
  "path_ok m (Suc l) b k va \<longleftrightarrow>
     (let e = m b (PGDIR_OFFSET va (Suc l)) in
      k = Suc l \<or> \<not> pt_present e \<or> (\<not> pt_huge (Suc l) e \<and> path_ok m l (pt_next e) k va))"
  by (auto simp: path_ok_def Let_def pt_read_def)

definition table_flags_ok :: "u64 \<Rightarrow> bool" where
  "table_flags_ok f \<longleftrightarrow> pt_next f = 0 \<and> \<not> bit f 7"

lemma table_entry:
  assumes "pt_next p = p" "table_flags_ok f"
  defines "e \<equiv> p OR PT_PRESENT_MASK OR PT_WRITABLE_MASK OR f"
  shows "pt_next e = p" "pt_present e" "\<not> pt_huge l e"
proof -
  have p: "bit p i \<longleftrightarrow> bit p i \<and> 12 \<le> i \<and> i \<le> 51" for i using bit_pt_next[of p i] assms(1) by simp
  have f: "\<not> (bit f i \<and> 12 \<le> i \<and> i \<le> 51)" for i using bit_pt_next[of f i] assms(2) by (simp add: table_flags_ok_def)
  have masks: "bit PT_PRESENT_MASK i \<longleftrightarrow> i = 0" "bit PT_WRITABLE_MASK i \<longleftrightarrow> i = 1" for i
    by (auto simp: PT_PRESENT_MASK_def PT_WRITABLE_MASK_def bit_simps)
  show "pt_next e = p"
    by (rule bit_eqI) (use p f in \<open>auto simp: bit_pt_next e_def bit_or_iff masks\<close>)
  show "pt_present e" by (simp add: pt_present_bit e_def bit_or_iff masks)
  show "\<not> pt_huge l e" using p[of 7] assms(2) by (simp add: pt_huge_bit e_def bit_or_iff masks table_flags_ok_def)
qed

text \<open>The effect of installing \<open>pte\<close> for \<open>va\<close> at level \<open>k\<close>, with the new tables in the pages \<open>X\<close>.\<close>

definition installed :: "ptmem \<Rightarrow> nat \<Rightarrow> u64 \<Rightarrow> nat \<Rightarrow> u64 \<Rightarrow> u64 \<Rightarrow> u64 set \<Rightarrow> ptmem \<Rightarrow> bool" where
  "installed m l b k va pte X m' \<longleftrightarrow>
     tree m' l b \<and> tabs m' l b \<subseteq> tabs m l b \<union> X \<and> (\<forall>q. q \<notin> tabs m l b \<union> X \<longrightarrow> m' q = m q) \<and>
     (\<forall>va'. leaf m' l b va' = (if same_path k l va va' then as_leaf k pte else leaf m l b va'))"

lemma same_path_Suc:
  "k \<le> Suc l \<Longrightarrow> same_path k (Suc l) va va' \<longleftrightarrow> PGDIR_OFFSET va' (Suc l) = PGDIR_OFFSET va (Suc l) \<and> same_path k l va va'"
  unfolding same_path_def by (auto simp: le_Suc_eq)

lemma installed_here:
  assumes "tree m (Suc l) b" "\<not> is_table (Suc l) pte"
  shows "installed m (Suc l) b (Suc l) va pte {} (pt_write m (b, PGDIR_OFFSET va (Suc l)) pte)"
proof -
  let ?m = "pt_write m (b, PGDIR_OFFSET va (Suc l)) pte"
  have off: "?m q = m q" if "q \<noteq> b" for q using that by (simp add: pt_write_def)
  have nb: "b \<notin> tabs m l (pt_next (m b j))" if "j < 512" "is_table (Suc l) (m b j)" for j using assms(1) that by simp
  have fr: "\<forall>j < 512. j \<noteq> PGDIR_OFFSET va (Suc l) \<and> is_table (Suc l) (m b j) \<longrightarrow>
      (\<forall>q \<in> tabs m l (pt_next (m b j)). ?m q = m q)"
    using off nb by metis
  have mb: "?m b = (m b)(PGDIR_OFFSET va (Suc l) := pte)" by (simp add: pt_write_def)
  note u = entry_update[OF assms(1) PGDIR_OFFSET_less mb fr]
  have sp: "same_path (Suc l) (Suc l) va va' \<longleftrightarrow> PGDIR_OFFSET va' (Suc l) = PGDIR_OFFSET va (Suc l)" for va'
    by (auto simp: same_path_def)
  show ?thesis unfolding installed_def sp
    using u assms(2) off by (simp del: tree.simps leaf.simps)
qed

lemma installed_below:
  assumes t: "tree m (Suc l) b" and k: "k \<le> l" and i: "i = PGDIR_OFFSET va (Suc l)"
    and m1: "m1 b = (m b)(i := e)" "\<And>q. q \<noteq> b \<Longrightarrow> q \<notin> N \<Longrightarrow> m1 q = m q"
    and e: "is_table (Suc l) e" and X: "(N \<union> X) \<inter> tabs m (Suc l) b = {}"
    and c: "tabs m1 l (pt_next e) \<subseteq> N \<or> N = {} \<and> e = m b i"
    and old: "\<forall>va'. PGDIR_OFFSET va' (Suc l) = i \<longrightarrow> leaf m1 l (pt_next e) va' = leaf m (Suc l) b va'"
    and ins: "installed m1 l (pt_next e) k va pte X m'"
  shows "installed m (Suc l) b k va pte (N \<union> X) m'"
proof -
  let ?C = "tabs m1 l (pt_next e)"
  have i5: "i < 512" using PGDIR_OFFSET_less i by simp
  note I = ins[unfolded installed_def]
  have m1eq: "N = {} \<and> e = m b i \<Longrightarrow> m1 = m" using m1 by (intro ext) (metis empty_iff fun_upd_triv)
  have bC: "b \<notin> ?C"
    using c X t i5 e m1eq by (auto dest: spec[of _ i])
  have jC: "?C \<inter> tabs m l (pt_next (m b j)) = {}" if "j < 512" "j \<noteq> i" "is_table (Suc l) (m b j)" for j
  proof -
    have sub: "tabs m l (pt_next (m b j)) \<subseteq> tabs m (Suc l) b" using that by auto
    from c show ?thesis
    proof
      assume "?C \<subseteq> N" with sub X show ?thesis by blast
    next
      assume n: "N = {} \<and> e = m b i"
      then have "tabs m l (pt_next (m b i)) \<inter> tabs m l (pt_next (m b j)) = {}" using t i5 e that by simp
      then show ?thesis using n m1eq by simp
    qed
  qed
  have keep: "m' q = m q" if "q \<noteq> b" "q \<notin> ?C" "q \<notin> N" "q \<notin> X" for q using that I m1(2) by simp
  have bX: "b \<notin> X" using X by auto
  have mb: "m' b = (m b)(i := e)" using I bC bX m1(1) by simp
  have fr: "\<forall>j < 512. j \<noteq> i \<and> is_table (Suc l) (m b j) \<longrightarrow> (\<forall>q \<in> tabs m l (pt_next (m b j)). m' q = m q)"
  proof (intro allI impI ballI, elim conjE)
    fix j q assume j: "j < 512" "j \<noteq> i" "is_table (Suc l) (m b j)" "q \<in> tabs m l (pt_next (m b j))"
    have "q \<in> tabs m (Suc l) b" "q \<noteq> b" "q \<notin> ?C" using j t jC by auto
    with keep X show "m' q = m q" by blast
  qed
  have sub: "tabs m' l (pt_next e) \<subseteq> ?C \<union> X" using I by blast
  have Csub: "?C \<subseteq> tabs m (Suc l) b \<union> N"
    using c m1eq e i5 by auto
  have new: "tree m' l (pt_next e) \<and> b \<notin> tabs m' l (pt_next e) \<and>
       (\<forall>j < 512. j \<noteq> i \<and> is_table (Suc l) (m b j) \<longrightarrow> tabs m' l (pt_next e) \<inter> tabs m l (pt_next (m b j)) = {})"
  proof (intro conjI allI impI)
    fix j assume j: "j < 512" "j \<noteq> i \<and> is_table (Suc l) (m b j)"
    have "tabs m l (pt_next (m b j)) \<subseteq> tabs m (Suc l) b" using j by auto
    with X jC[of j] j sub show "tabs m' l (pt_next e) \<inter> tabs m l (pt_next (m b j)) = {}" by blast
  qed (use I sub bC bX in auto)
  note u = entry_update[OF t i5 mb fr impI[OF new]]
  have "tabs m' (Suc l) b \<subseteq> tabs m (Suc l) b \<union> (N \<union> X)" using u(2) e sub Csub by (simp only: if_True) blast
  moreover have "m' q = m q" if "q \<notin> tabs m (Suc l) b \<union> (N \<union> X)" for q
    using that keep[of q] Csub by auto
  moreover have "leaf m' (Suc l) b va' = (if same_path k (Suc l) va va' then as_leaf k pte else leaf m (Suc l) b va')" for va'
    using u(3)[of va'] e I old i same_path_Suc[of k l va va'] k by simp
  ultimately show ?thesis using u(1) unfolding installed_def by blast
qed

section \<open>With a page allocator\<close>

text \<open>The tables below \<open>b\<close> are a tree apart from the pages that are still available.\<close>

definition vm_ok :: "('s \<Rightarrow> bool) \<Rightarrow> ('s \<Rightarrow> u64 set) \<Rightarrow> 's vm_state \<Rightarrow> nat \<Rightarrow> u64 \<Rightarrow> bool" where
  "vm_ok pinv pfree s l b \<longleftrightarrow> pinv (palloc s) \<and> tree (vmem s) l b \<and> tabs (vmem s) l b \<inter> pfree (palloc s) = {} \<and>
     table_flags_ok (pte_opt_mask s)"

definition install_post ::
  "('s \<Rightarrow> bool) \<Rightarrow> ('s \<Rightarrow> u64 set) \<Rightarrow> 's vm_state \<Rightarrow> nat \<Rightarrow> u64 \<Rightarrow> nat \<Rightarrow> u64 \<Rightarrow> u64 \<Rightarrow> 's vm_state \<Rightarrow> bool" where
  "install_post pinv pfree s l b k va pte s' \<longleftrightarrow> pinv (palloc s') \<and> pfree (palloc s') \<subseteq> pfree (palloc s) \<and>
     pte_opt_mask s' = pte_opt_mask s \<and>
     installed (vmem s) l b k va pte (pfree (palloc s) - pfree (palloc s')) (vmem s')"

text \<open>
  \<open>drawn alloc n a a'\<close>: \<open>a'\<close> is the allocator after \<open>n\<close> pages have been taken from \<open>a\<close>. An operation that
  needs at most \<open>n\<close> pages ends with \<open>out_of_pages\<close> when the allocator has none left before that.
\<close>

inductive drawn :: "'s page_fun \<Rightarrow> nat \<Rightarrow> 's \<Rightarrow> 's \<Rightarrow> bool" for alloc where
  drawn_0: "drawn alloc 0 a a"
| drawn_Suc: "alloc a = Inr (p, b) \<Longrightarrow> p \<noteq> 0 \<Longrightarrow> drawn alloc n b c \<Longrightarrow> drawn alloc (Suc n) a c"

lemma drawn_trans: "drawn alloc m a b \<Longrightarrow> drawn alloc n b c \<Longrightarrow> drawn alloc (m + n) a c"
  by (induction rule: drawn.induct) (auto intro: drawn_Suc)

definition out_of_pages :: "'s page_fun \<Rightarrow> nat \<Rightarrow> 's \<Rightarrow> failure \<Rightarrow> bool" where
  "out_of_pages alloc n a err \<longleftrightarrow> err = Undef \<and> (\<exists>m b. m < n \<and> drawn alloc m a b \<and> alloc b = Inr (0, b))"

lemma out_of_pages_later:
  assumes "drawn alloc m a b" "out_of_pages alloc n b err" "m + n \<le> k"
  shows "out_of_pages alloc k a err"
proof -
  obtain j c where j: "err = Undef" "j < n" "drawn alloc j b c" "alloc c = Inr (0, c)" using assms(2) by (auto simp: out_of_pages_def)
  then have "m + j < k" "drawn alloc (m + j) a c" using assms(1,3) drawn_trans by auto
  then show ?thesis using j by (auto simp: out_of_pages_def)
qed

lemma out_of_pages_mono: "out_of_pages alloc n a err \<Longrightarrow> n \<le> k \<Longrightarrow> out_of_pages alloc k a err"
  using out_of_pages_later[OF drawn_0] by fastforce

text \<open>
  What the page tables need of an allocator of pages: it answers every request, with 0 and no
  change or with an available page, which then is not available any more. The pages of
  \<open>pfree\<close> have addresses that an entry can hold.
\<close>

locale page_source =
  fixes pinv :: "'s \<Rightarrow> bool" and pfree :: "'s \<Rightarrow> u64 set" and alloc :: "'s page_fun"
  assumes total: "pinv a \<Longrightarrow> \<exists>p a'. alloc a = Inr (p, a')"
    and law: "pinv a \<Longrightarrow> alloc a = Inr (p, a') \<Longrightarrow> pinv a' \<and>
      (if p = 0 then a' = a else (of_nat p :: u64) \<in> pfree a \<and> pfree a' = pfree a - {of_nat p})"
    and addressable: "pinv a \<Longrightarrow> q \<in> pfree a \<Longrightarrow> q \<noteq> 0 \<and> pt_next q = q"
begin

lemma install_loop_correct:
  assumes "vm_ok pinv pfree s l b" "1 \<le> k" "k \<le> l" "path_ok (vmem s) l b k va" "\<not> is_table k pte"
    and "install_loop alloc l s b k va pte 0 = Inr (ptr, s')"
  shows "install_post pinv pfree s l b k va pte s'"
  using assms
proof (induction l arbitrary: s b)
  case (Suc l)
  let ?m = "vmem s" and ?i = "PGDIR_OFFSET va (Suc l)"
  let ?e = "?m b ?i"
  have pinv: "pinv (palloc s)" and t: "tree ?m (Suc l) b" and d: "tabs ?m (Suc l) b \<inter> pfree (palloc s) = {}"
    and f: "table_flags_ok (pte_opt_mask s)"
    using Suc.prems(1) by (simp_all add: vm_ok_def)
  show ?case
  proof (cases "k = Suc l")
    case True
    then show ?thesis using Suc.prems(5,6) installed_here[OF t, of pte va] pinv
      by (auto simp: install_post_def Let_def)
  next
    case False
    then have k: "k \<le> l" using Suc.prems(3) by simp
    then have lvl: "k < Suc l" "1 < Suc l" "0 < l" using Suc.prems(2) by auto
    note run = Suc.prems(6)[unfolded install_loop.simps Let_def]
    show ?thesis
    proof (cases "pt_present ?e")
      case True
      let ?c = "pt_next ?e"
      have h: "\<not> pt_huge (Suc l) ?e" "path_ok ?m l ?c k va"
        using Suc.prems(4) True False by (simp_all add: path_ok_Suc Let_def)
      then have e: "is_table (Suc l) ?e" using True lvl by (simp add: is_table_def)
      have run': "install_loop alloc l s ?c k va pte 0 = Inr (ptr, s')" using run True lvl by simp
      have ok: "vm_ok pinv pfree s l ?c" using Suc.prems(1) e PGDIR_OFFSET_less[of va "Suc l"] by (auto simp: vm_ok_def)
      from Suc.IH[OF ok Suc.prems(2) k h(2) Suc.prems(5) run'] have post: "install_post pinv pfree s l ?c k va pte s'" .
      have "installed ?m l ?c k va pte (pfree (palloc s) - pfree (palloc s')) (vmem s')"
        using post by (simp add: install_post_def)
      then have "installed ?m (Suc l) b k va pte ({} \<union> (pfree (palloc s) - pfree (palloc s'))) (vmem s')"
        by (intro installed_below[OF t k refl, where ?m1.0 = ?m and e = ?e]) (use e d in \<open>auto simp: Let_def\<close>)
      then show ?thesis using post by (simp add: install_post_def)
    next
      case False
      obtain p a where p: "alloc (palloc s) = Inr (p, a)" using total[OF pinv] by blast
      let ?p = "of_nat p :: u64"
      let ?e' = "?p OR PT_PRESENT_MASK OR PT_WRITABLE_MASK OR pte_opt_mask s"
      let ?m1 = "pt_write (pt_clear ?m ?p) (b, ?i) ?e'"
      let ?s = "s\<lparr>vmem := ?m1, palloc := a\<rparr>"
      have p0: "?p \<noteq> 0" and run': "install_loop alloc l ?s (pt_next (?m1 b ?i)) k va pte 0 = Inr (ptr, s')"
        using run False lvl p by (auto simp: bind_res_eq_Inr Let_def split: if_splits)
      then have a: "pinv a" "?p \<in> pfree (palloc s)" "pfree a = pfree (palloc s) - {?p}"
        using law[OF pinv p] by (auto split: if_splits)
      have e': "pt_next ?e' = ?p" "is_table (Suc l) ?e'"
        using table_entry[OF _ f, of ?p] addressable[OF pinv a(2)] lvl by (simp_all add: is_table_def)
      have pb: "?p \<noteq> b" using a(2) d by auto
      have m1: "?m1 b = (?m b)(?i := ?e')" "?m1 ?p = (\<lambda>_. 0)" "\<And>q. q \<noteq> b \<Longrightarrow> q \<notin> {?p} \<Longrightarrow> ?m1 q = ?m q"
        using pb by (auto simp: pt_write_def pt_clear_def)
      note clear = clear_table[where m = ?m1 and b = ?p, OF m1(2)]
      have ok: "vm_ok pinv pfree ?s l ?p" using a clear(1,2)[of l] f by (auto simp: vm_ok_def)
      have po: "path_ok (vmem ?s) l ?p k va"
        using lvl m1(2) by (cases l) (simp_all add: path_ok_Suc pt_present_def)
      have post: "install_post pinv pfree ?s l ?p k va pte s'"
        by (rule Suc.IH[OF ok Suc.prems(2) k po Suc.prems(5)]) (use run' m1(1) e' in simp)
      let ?X = "pfree a - pfree (palloc s')"
      have ins: "installed ?m1 l (pt_next ?e') k va pte ?X (vmem s')" using post e' by (simp add: install_post_def)
      have X: "({?p} \<union> ?X) \<inter> tabs ?m (Suc l) b = {}" using a d by blast
      have old: "\<forall>va'. PGDIR_OFFSET va' (Suc l) = ?i \<longrightarrow> leaf ?m1 l (pt_next ?e') va' = leaf ?m (Suc l) b va'"
        using False clear(3) e' by (simp add: is_table_def Let_def)
      have c: "tabs ?m1 l (pt_next ?e') \<subseteq> {?p} \<or> {?p} = {} \<and> ?e' = ?m b ?i" using clear(1) e' by simp
      have "installed ?m (Suc l) b k va pte ({?p} \<union> ?X) (vmem s')"
        by (rule installed_below[OF t k refl m1(1,3) e'(2) X c old ins])
      moreover have "{?p} \<union> ?X = pfree (palloc s) - pfree (palloc s')" using a post by (auto simp: install_post_def)
      ultimately show ?thesis using post a by (auto simp: install_post_def)
    qed
  qed
qed simp

text \<open>The result is an entry, or the allocator has no page left.\<close>

lemma install_loop_total:
  assumes "pinv (palloc s)" "1 \<le> k" "k \<le> l"
  shows "(\<exists>ptr s' m. install_loop alloc l s b k va pte 0 = Inr (ptr, s') \<and> m \<le> l - k \<and> drawn alloc m (palloc s) (palloc s')) \<or>
    (\<exists>err. install_loop alloc l s b k va pte 0 = Inl err \<and> out_of_pages alloc (l - k) (palloc s) err)"
  using assms
proof (induction l arbitrary: s b)
  case (Suc l)
  show ?case
  proof (cases "k = Suc l")
    case False
    then have k: "k \<le> l" "k < Suc l" using Suc.prems(3) by auto
    then have d: "Suc l - k = Suc (l - k)" by simp
    let ?i = "PGDIR_OFFSET va (Suc l)"
    show ?thesis
    proof (cases "pt_present (vmem s b ?i)")
      case True
      with Suc.IH[OF Suc.prems(1,2) k(1), of "pt_next (vmem s b ?i)"] show ?thesis using k out_of_pages_mono[of alloc "l - k" "palloc s" _ "Suc (l - k)"]
        by (auto simp: Let_def d intro: le_SucI)
    next
      case no: False
      obtain p a where p: "alloc (palloc s) = Inr (p, a)" using total[OF Suc.prems(1)] by blast
      note l = law[OF Suc.prems(1) p]
      show ?thesis
      proof (cases "p = 0")
        case True
        then show ?thesis using no k p l by (auto simp: Let_def out_of_pages_def d intro!: exI[of _ 0] drawn_0)
      next
        case pos: False
        then have p0: "of_nat p \<noteq> (0 :: u64)" using l addressable[OF Suc.prems(1)] by auto
        have one: "drawn alloc 1 (palloc s) a" using drawn_Suc[of alloc, OF p pos drawn_0] by simp
        let ?s = "s\<lparr>vmem := pt_write (pt_clear (vmem s) (of_nat p)) (b, ?i) (of_nat p OR PT_PRESENT_MASK OR PT_WRITABLE_MASK OR pte_opt_mask s), palloc := a\<rparr>"
        have "pinv (palloc ?s)" using l by simp
        from Suc.IH[OF this Suc.prems(2) k(1), of "pt_next (vmem ?s b ?i)"]
        show ?thesis using no k p p0 out_of_pages_later[OF one, of "l - k"] drawn_trans[OF one]
          by (fastforce simp: Let_def d)
      qed
    qed
  qed (auto simp: Let_def intro: drawn_0)
qed simp

end

section \<open>The entry the pointer names\<close>

lemma install_loop_ptr:
  "install_loop alloc l s b k va pte pp = Inr (ptr, s') \<Longrightarrow> pt_read (vmem s') ptr = pte"
proof (induction l arbitrary: s b pp)
  case (Suc l)
  then show ?case
    by (auto simp: Let_def res_simps pt_read_def pt_write_def split: if_splits prod.splits)
qed simp

text \<open>\<open>path_ok\<close> in terms of the mapping.\<close>

lemma leaf_level: "leaf m l b va = Some (j, e) \<Longrightarrow> j \<le> l"
  by (induction l arbitrary: b) (auto simp: Let_def le_SucI split: if_splits)

lemma path_ok_leaf:
  "1 \<le> k \<Longrightarrow> k \<le> l \<Longrightarrow> path_ok m l b k va \<longleftrightarrow> (\<forall>j e. leaf m l b va = Some (j, e) \<longrightarrow> j \<le> k)"
proof (induction l arbitrary: b)
  case (Suc l)
  then show ?case
  proof (cases "k = Suc l")
    case True
    then show ?thesis by (auto simp: path_ok_Suc Let_def le_SucI dest: leaf_level)
  next
    case False
    then show ?thesis using Suc by (auto simp: path_ok_Suc Let_def is_table_def)
  qed
qed simp

end
