(* ===== verification/X86Map.thy ===== *)
theory X86Map
  imports X86Tree AllocPageGlobal
begin

text \<open>
  Ranges of pages: the loops of \<open>install_pages\<close> and \<open>__setup_mmu_range\<close> in terms of the
  mapping, and the translation of an address. The page allocator of \<open>lib/alloc_page.c\<close>
  provides the pages.
\<close>

section \<open>Regions\<close>

lemma u64_eq_bits: "x = (y :: u64) \<longleftrightarrow> (\<forall>n. bit x n = bit y n)"
  using bit_eqI[of x y] by auto

lemma bit_PGDIR_OFFSET: "PGDIR_OFFSET va l = PGDIR_OFFSET va' l \<longleftrightarrow> (\<forall>n < 9. bit va (PGDIR_BITS l + n) = bit va' (PGDIR_BITS l + n))"
proof -
  have off: "PGDIR_OFFSET v l = unat (take_bit 9 (drop_bit (PGDIR_BITS l) v))" for v
    unfolding PGDIR_OFFSET_def PGDIR_MASK_def by (simp add: take_bit_eq_mask mask_eq_exp_minus_1)
  have "PGDIR_OFFSET va l = PGDIR_OFFSET va' l \<longleftrightarrow> take_bit 9 (drop_bit (PGDIR_BITS l) va) = take_bit 9 (drop_bit (PGDIR_BITS l) va')"
    by (simp only: off word_unat_eq_iff)
  also have "\<dots> \<longleftrightarrow> (\<forall>n < 9. bit va (PGDIR_BITS l + n) = bit va' (PGDIR_BITS l + n))"
    by (auto simp: u64_eq_bits bit_take_bit_iff bit_drop_bit_eq)
  finally show ?thesis .
qed

lemma same_path_bits:
  assumes "1 \<le> k" "k \<le> 4"
  shows "same_path k 4 va va' \<longleftrightarrow> (\<forall>n. PGDIR_BITS k \<le> n \<and> n < 48 \<longrightarrow> bit va n = bit va' n)"
proof -
  have lv: "same_path k 4 va va' \<longleftrightarrow> (\<forall>i n. k \<le> i \<and> i \<le> 4 \<and> n < 9 \<longrightarrow> bit va' (PGDIR_BITS i + n) = bit va (PGDIR_BITS i + n))"
    by (auto simp: same_path_def bit_PGDIR_OFFSET)
  have split: "\<exists>i j. k \<le> i \<and> i \<le> 4 \<and> j < 9 \<and> n = PGDIR_BITS i + j" if "PGDIR_BITS k \<le> n" "n < 48" for n
  proof (intro exI conjI)
    let ?i = "(n - 12) div 9 + 1"
    have n: "9 * (k - 1) \<le> n - 12" "12 \<le> n" using that(1) by (auto simp: PGDIR_BITS_def PGDIR_WIDTH_def)
    then have "k - 1 \<le> (n - 12) div 9" by (simp add: less_eq_div_iff_mult_less_eq mult.commute)
    then show "k \<le> ?i" by simp
    show "?i \<le> 4" using that(2) by simp
    show "(n - 12) mod 9 < 9" by simp
    show "n = PGDIR_BITS ?i + (n - 12) mod 9"
      using n(2) by (simp add: PGDIR_BITS_def PGDIR_WIDTH_def mult.commute)
  qed
  have bounds: "PGDIR_BITS k \<le> PGDIR_BITS i + n \<and> PGDIR_BITS i + n < 48" if "k \<le> i" "i \<le> 4" "n < 9" for i n
  proof -
    have "k - 1 \<le> i - 1" "i - 1 \<le> 3" using that by auto
    then show ?thesis using that(3) by (simp add: PGDIR_BITS_def PGDIR_WIDTH_def)
  qed
  show ?thesis unfolding lv using split bounds by metis
qed

text \<open>The number of the level-\<open>k\<close> page of an address in the 48-bit address space.\<close>

definition region :: "nat \<Rightarrow> u64 \<Rightarrow> nat" where
  "region k va = unat (drop_bit (PGDIR_BITS k) (take_bit 48 va))"

lemma same_path_region:
  assumes "1 \<le> k" "k \<le> 4"
  shows "same_path k 4 va va' \<longleftrightarrow> region k va = region k va'"
proof -
  have "region k va = region k va' \<longleftrightarrow> drop_bit (PGDIR_BITS k) (take_bit 48 va) = drop_bit (PGDIR_BITS k) (take_bit 48 va')"
    by (simp only: region_def word_unat_eq_iff)
  also have "\<dots> \<longleftrightarrow> (\<forall>n. (PGDIR_BITS k + n < 48 \<and> bit va (PGDIR_BITS k + n)) = (PGDIR_BITS k + n < 48 \<and> bit va' (PGDIR_BITS k + n)))"
    by (auto simp: u64_eq_bits bit_take_bit_iff bit_drop_bit_eq)
  also have "\<dots> \<longleftrightarrow> (\<forall>n. PGDIR_BITS k \<le> n \<and> n < 48 \<longrightarrow> bit va n = bit va' n)"
    by (metis le_Suc_ex le_add1)
  finally show ?thesis using same_path_bits[OF assms] by simp
qed

lemma PGDIR_BITS_le: "1 \<le> k \<Longrightarrow> k \<le> 4 \<Longrightarrow> 12 \<le> PGDIR_BITS k \<and> PGDIR_BITS k \<le> 39"
  by (auto simp: PGDIR_BITS_def PGDIR_WIDTH_def)

lemma region_div: "region k va = unat va mod 2 ^ 48 div 2 ^ PGDIR_BITS k"
  by (simp only: region_def unsigned_drop_bit_eq unat_take_bit) (simp add: drop_bit_eq_div take_bit_eq_mod)

lemma region_step:
  assumes k: "1 \<le> k" "k \<le> 4" and v: "unat virt = 2 ^ PGDIR_BITS k * v" and off: "off < 2 ^ PGDIR_BITS k"
  shows "region k (virt + of_nat i * of_nat (2 ^ PGDIR_BITS k) + of_nat off) = (v + i) mod 2 ^ (48 - PGDIR_BITS k)"
proof -
  let ?B = "PGDIR_BITS k"
  have "virt = of_nat (2 ^ ?B * v)" using v[symmetric] by simp
  then have "virt + of_nat i * of_nat (2 ^ ?B) + of_nat off = of_nat (2 ^ ?B * (v + i) + off)"
    by (simp add: algebra_simps)
  then have "unat (virt + of_nat i * of_nat (2 ^ ?B) + of_nat off) mod 2 ^ 48 = (2 ^ ?B * (v + i) + off) mod 2 ^ 48"
    by (simp only: unsigned_of_nat take_bit_eq_mod) (simp add: mod_mod_cancel)
  also have "\<dots> = (2 ^ ?B * (v + i) + off) mod (2 ^ ?B * 2 ^ (48 - ?B))"
    using PGDIR_BITS_le[OF k] by (simp flip: power_add)
  also have "\<dots> = 2 ^ ?B * ((v + i) mod 2 ^ (48 - ?B)) + off"
    using off by (simp add: mod_mult2_eq)
  finally show ?thesis using off by (simp add: region_div)
qed

lemma mod_shift_inj:
  assumes "(v + i) mod M = (v + j) mod M" "i < M" "j < (M :: nat)"
  shows "i = j"
  using assms
proof (induction i j rule: linorder_wlog)
  case (le i j)
  then have "M dvd (v + j) - (v + i)" using mod_eq_dvd_iff_nat[of "v + i" "v + j" M] by simp
  then have "M dvd j - i" by simp
  then show ?case using le nat_dvd_not_less[of "j - i" M] by (cases "i = j") auto
qed simp

lemma region_step_inj:
  assumes "1 \<le> k" "k \<le> 4" "unat virt = 2 ^ PGDIR_BITS k * v" "i < n" "j < n" "n \<le> 2 ^ (48 - PGDIR_BITS k)"
    and "region k (virt + of_nat i * of_nat (2 ^ PGDIR_BITS k)) = region k (virt + of_nat j * of_nat (2 ^ PGDIR_BITS k))"
  shows "i = j"
proof -
  have "(v + i) mod 2 ^ (48 - PGDIR_BITS k) = (v + j) mod 2 ^ (48 - PGDIR_BITS k)"
    using region_step[OF assms(1-3), of 0] assms(7) by simp
  then show ?thesis using mod_shift_inj assms(4-6) less_le_trans by metis
qed

section \<open>Translation\<close>

definition translate :: "ptmem \<Rightarrow> u64 \<Rightarrow> u64 \<Rightarrow> u64 option" where
  "translate m cr3 va = (case leaf m PAGE_LEVEL cr3 va of
     None \<Rightarrow> None
   | Some (l, e) \<Rightarrow> Some ((pt_next e AND NOT (mask (PGDIR_BITS l))) OR take_bit (PGDIR_BITS l) va))"

lemma aligned_add:
  assumes "unat (p :: u64) = 2 ^ n * w" "off < 2 ^ n"
  shows "take_bit n (p + of_nat off) = of_nat off" "p OR of_nat off = p + of_nat off"
proof -
  have p: "p = of_nat (2 ^ n * w)" using assms(1)[symmetric] by simp
  have "take_bit n (p + of_nat off) = of_nat (take_bit n (2 ^ n * w + off))"
    by (simp only: p of_nat_take_bit of_nat_add)
  then show "take_bit n (p + of_nat off) = of_nat off" using assms(2) by (simp add: take_bit_eq_mod)
  have "(2 ^ n * w) AND off = 0"
  proof (rule bit_eqI)
    fix i
    have "2 ^ n * w = push_bit n w" "off = take_bit n off" using assms(2) by (simp_all add: push_bit_eq_mult take_bit_eq_mod)
    then show "bit ((2 ^ n * w) AND off) i = bit 0 i" by (metis bit_0_eq bit_and_iff bit_push_bit_iff bit_take_bit_iff bot_apply bot_bool_def not_le)
  qed
  then have "p AND of_nat off = 0" using of_nat_and_eq[of "2 ^ n * w" off, where ?'a = u64] by (simp add: p)
  then show "p OR of_nat off = p + of_nat off" by (simp add: disjunctive_add_eq_or)
qed

lemma aligned_step:
  assumes "unat (virt :: u64) = 2 ^ n * v" "n \<le> 64"
  shows "unat (virt + of_nat i * of_nat (2 ^ n)) = 2 ^ n * ((v + i) mod 2 ^ (64 - n))"
proof -
  have "virt + of_nat i * of_nat (2 ^ n) = of_nat (2 ^ n * (v + i))"
    using assms(1)[symmetric] by (simp add: algebra_simps)
  then have "unat (virt + of_nat i * of_nat (2 ^ n)) = 2 ^ n * (v + i) mod (2 ^ n * 2 ^ (64 - n))"
    using assms(2) by (simp only: unsigned_of_nat take_bit_eq_mod) (simp flip: power_add)
  then show ?thesis by simp
qed

lemma page_address:
  assumes "unat phys mod 2 ^ n = 0" "12 \<le> n" "unat phys < 2 ^ 52" "pt_next f = 0"
  shows "pt_next (phys OR f) AND NOT (mask n) = phys"
proof (rule bit_eqI)
  fix i
  have lo: "n \<le> i" if "bit phys i"
    using assms(1) that by (metis not_le bit_take_bit_iff bit_0_eq take_bit_eq_mod unat_take_bit unsigned_0 bot_apply bot_bool_def word_unat_eq_iff)
  have hi: "i \<le> 51" if "bit phys i"
    using assms(3) that power_increasing[of 52 i "2 :: nat"] by (cases "i \<le> 51") (simp_all add: bit_word_nat)
  have f: "\<not> (bit f i \<and> 12 \<le> i \<and> i \<le> 51)" using bit_pt_next[of f i] assms(4) by simp
  show "bit (pt_next (phys OR f) AND NOT (mask n)) i = bit phys i"
    using lo hi f assms(2) bit_imp_le_length[of phys i]
    by (auto simp: bit_and_iff bit_not_iff bit_mask_iff bit_pt_next bit_or_iff)
qed

section \<open>Repeated installation\<close>

fun repeat_install ::
  "('s vm_state \<Rightarrow> u64 \<Rightarrow> u64 \<Rightarrow> (pteptr \<times> 's vm_state) res) \<Rightarrow> nat \<Rightarrow> u64 \<Rightarrow> 's vm_state \<Rightarrow> u64 \<Rightarrow> u64 \<Rightarrow> 's vm_state res" where
  "repeat_install f 0 step s phys virt = Inr s"
| "repeat_install f (Suc n) step s phys virt =
     bind_res (f s phys virt) (\<lambda>(_, s'). repeat_install f n step s' (phys + step) (virt + step))"

lemma add_step: "unat p + Suc n * z \<le> B \<Longrightarrow> B < 2 ^ 64 \<Longrightarrow> unat (p + of_nat z) = unat (p :: u64) + z"
  by (subst unat_word_ariths) (simp add: take_bit_eq_mod unsigned_of_nat mod_add_right_eq)

lemma install_pages_loop_eq:
  assumes "unat phys + n * 4096 = unat maxp" "unat maxp + 4096 < 2 ^ 64"
  shows "install_pages_loop alloc s cr3 phys maxp virt =
    Some (repeat_install (\<lambda>s. install_page alloc s cr3) n 4096 s phys virt)"
  using assms(1)
proof (induction n arbitrary: s phys virt)
  case 0
  have "unat (phys + 4096) = unat phys + 4096"
    using add_step[of phys 0 4096 "unat maxp + 4096"] 0 assms(2) by simp
  then have "\<not> phys + 4096 \<le> maxp" using 0 by (simp add: word_le_nat_alt)
  then show ?case by (simp add: install_pages_loop.simps)
next
  case (Suc n)
  have u: "unat (phys + 4096) = unat phys + 4096"
    using add_step[of phys 0 4096 "unat maxp"] Suc.prems assms(2) by simp
  then have "phys + 4096 \<le> maxp" using Suc.prems by (simp add: word_le_nat_alt)
  moreover have "unat (phys + 4096) + n * 4096 = unat maxp" using Suc.prems u by simp
  ultimately show ?case using Suc.IH[of "phys + 4096"]
    by (subst install_pages_loop.simps) (simp add: bind_res_def split: sum.splits)
qed

lemma install_large_loop_eq:
  assumes "unat phys + n * 0x200000 + r = unat maxp" "r < 0x200000" "unat maxp + 0x200000 < 2 ^ 64"
  shows "install_large_loop alloc s cr3 phys maxp =
    Some (bind_res (repeat_install (\<lambda>s. install_large_page alloc s cr3) n 0x200000 s phys phys)
      (\<lambda>s'. Inr (phys + of_nat n * 0x200000, s')))"
  using assms(1)
proof (induction n arbitrary: s phys)
  case 0
  have "unat (phys + 0x200000) = unat phys + 0x200000"
    using add_step[of phys 0 "0x200000" "unat maxp + 0x200000"] 0 assms(3) by simp
  then have "\<not> phys + 0x200000 \<le> maxp" using 0 assms(2) by (simp add: word_le_nat_alt)
  then show ?case by (simp add: install_large_loop.simps LARGE_PAGE_SIZE_def)
next
  case (Suc n)
  have u: "unat (phys + 0x200000) = unat phys + 0x200000"
    using add_step[of phys 0 "0x200000" "unat maxp"] Suc.prems assms(3) by simp
  then have "phys + 0x200000 \<le> maxp" using Suc.prems by (simp add: word_le_nat_alt)
  moreover have "unat (phys + 0x200000) + n * 0x200000 + r = unat maxp" using Suc.prems u by simp
  ultimately show ?case using Suc.IH[of "phys + 0x200000"]
    by (subst install_large_loop.simps) (simp add: bind_res_def LARGE_PAGE_SIZE_def algebra_simps split: sum.splits)
qed

text \<open>The effect on the mapping of installing \<open>n\<close> entries of level \<open>k\<close>.\<close>

definition range_post ::
  "('s \<Rightarrow> bool) \<Rightarrow> ('s \<Rightarrow> u64 set) \<Rightarrow> u64 \<Rightarrow> nat \<Rightarrow> nat \<Rightarrow> (nat \<Rightarrow> u64) \<Rightarrow> (nat \<Rightarrow> u64) \<Rightarrow> 's vm_state \<Rightarrow> 's vm_state \<Rightarrow> bool" where
  "range_post pinv pfree cr3 k n vas ptes s s' \<longleftrightarrow>
     vm_ok pinv pfree s' 4 cr3 \<and> pte_opt_mask s' = pte_opt_mask s \<and> pfree (palloc s') \<subseteq> pfree (palloc s) \<and>
     (\<forall>va i. i < n \<and> same_path k 4 (vas i) va \<longrightarrow> leaf (vmem s') 4 cr3 va = as_leaf k (ptes i)) \<and>
     (\<forall>va. (\<forall>i < n. \<not> same_path k 4 (vas i) va) \<longrightarrow> leaf (vmem s') 4 cr3 va = leaf (vmem s) 4 cr3 va)"

context page_source
begin

lemma vm_ok_install:
  assumes "vm_ok pinv pfree s l b" "install_post pinv pfree s l b k va pte s'"
  shows "vm_ok pinv pfree s' l b"
  using assms by (auto simp: vm_ok_def install_post_def installed_def)

lemma install_pte_correct:
  assumes "vm_ok pinv pfree s 4 cr3" "1 \<le> k" "k \<le> 4" "\<not> is_table k pte"
    and "\<forall>j e. leaf (vmem s) 4 cr3 va = Some (j, e) \<longrightarrow> j \<le> k"
    and "install_pte alloc s cr3 k va pte 0 = Inr (ptr, s')"
  shows "install_post pinv pfree s 4 cr3 k va pte s'"
  by (rule install_loop_correct) (use assms path_ok_leaf[of k 4] in \<open>auto simp: install_pte_def PAGE_LEVEL_def\<close>)

lemma repeat_correct:
  assumes f: "\<And>s p v. f s p v = install_pte alloc s cr3 k v (p OR (fl OR pte_opt_mask s)) 0" and k: "1 \<le> k" "k \<le> 4"
    and "vm_ok pinv pfree s 4 cr3"
    and "\<forall>i < n. \<forall>j e. leaf (vmem s) 4 cr3 (virt + of_nat i * step) = Some (j, e) \<longrightarrow> j \<le> k"
    and "\<forall>i < n. \<not> is_table k ((phys + of_nat i * step) OR (fl OR pte_opt_mask s))"
    and "\<forall>i < n. \<forall>j < n. same_path k 4 (virt + of_nat i * step) (virt + of_nat j * step) \<longrightarrow> i = j"
    and "repeat_install f n step s phys virt = Inr s'"
  shows "range_post pinv pfree cr3 k n (\<lambda>i. virt + of_nat i * step) (\<lambda>i. (phys + of_nat i * step) OR (fl OR pte_opt_mask s)) s s'"
  using assms(4-)
proof (induction n arbitrary: s phys virt)
  case 0
  then show ?case by (simp add: range_post_def)
next
  case (Suc n)
  obtain ptr s1 where one: "install_pte alloc s cr3 k virt (phys OR (fl OR pte_opt_mask s)) 0 = Inr (ptr, s1)"
    and run: "repeat_install f n step s1 (phys + step) (virt + step) = Inr s'"
    using Suc.prems(5) f[of s phys virt] by (auto simp: res_simps)
  have shift: "x + of_nat (Suc i) * step = x + step + of_nat i * step" for x i by (simp add: algebra_simps)
  have post: "install_post pinv pfree s 4 cr3 k virt (phys OR (fl OR pte_opt_mask s)) s1"
    by (rule install_pte_correct[OF Suc.prems(1) k _ _ one])
      (use Suc.prems(2)[rule_format, of 0] Suc.prems(3)[rule_format, of 0] in auto)
  note ok1 = vm_ok_install[OF Suc.prems(1) post]
  have mask: "pte_opt_mask s1 = pte_opt_mask s" using post by (simp add: install_post_def)
  have l1: "leaf (vmem s1) 4 cr3 va =
      (if same_path k 4 virt va then as_leaf k (phys OR (fl OR pte_opt_mask s)) else leaf (vmem s) 4 cr3 va)" for va
    using post by (simp add: install_post_def installed_def)
  have apart: "\<not> same_path k 4 virt (virt + step + of_nat i * step)" if "i < n" for i
    using Suc.prems(4)[rule_format, of 0 "Suc i", unfolded shift] that by auto
  have rest: "range_post pinv pfree cr3 k n (\<lambda>i. virt + step + of_nat i * step)
      (\<lambda>i. (phys + step + of_nat i * step) OR (fl OR pte_opt_mask s1)) s1 s'"
  proof (rule Suc.IH[OF ok1 _ _ _ run])
    show "\<forall>i<n. \<forall>j e. leaf (vmem s1) 4 cr3 (virt + step + of_nat i * step) = Some (j, e) \<longrightarrow> j \<le> k"
      using apart Suc.prems(2)[rule_format, of "Suc i" for i, unfolded shift] by (auto simp: l1)
    show "\<forall>i<n. \<not> is_table k (phys + step + of_nat i * step OR (fl OR pte_opt_mask s1))"
      using Suc.prems(3)[rule_format, of "Suc i" for i, unfolded shift] by (auto simp: mask)
    show "\<forall>i<n. \<forall>j<n. same_path k 4 (virt + step + of_nat i * step) (virt + step + of_nat j * step) \<longrightarrow> i = j"
      using Suc.prems(4)[rule_format, of "Suc i" "Suc j" for i j, unfolded shift] by auto
  qed
  have eq: "same_path k 4 x y \<longleftrightarrow> region k x = region k y" for x y using same_path_region[OF k] .
  show ?case unfolding range_post_def
  proof (intro conjI allI impI)
    fix va i assume i: "i < Suc n \<and> same_path k 4 (virt + of_nat i * step) va"
    show "leaf (vmem s') 4 cr3 va = as_leaf k ((phys + of_nat i * step) OR (fl OR pte_opt_mask s))"
    proof (cases i)
      case 0
      then have "\<forall>j<n. \<not> same_path k 4 (virt + step + of_nat j * step) va" using i apart eq by fastforce
      then show ?thesis using rest i 0 l1[of va] by (simp add: range_post_def)
    next
      case (Suc j)
      then show ?thesis using rest i by (simp only: shift mask range_post_def) auto
    qed
  next
    fix va assume o: "\<forall>i < Suc n. \<not> same_path k 4 (virt + of_nat i * step) va"
    have "\<not> same_path k 4 virt va" "\<forall>i < n. \<not> same_path k 4 (virt + step + of_nat i * step) va"
      using o[rule_format, of 0] o[rule_format, of "Suc i" for i, unfolded shift] by auto
    then show "leaf (vmem s') 4 cr3 va = leaf (vmem s) 4 cr3 va" using rest l1[of va] by (simp add: range_post_def)
  qed (use rest post in \<open>auto simp: range_post_def install_post_def\<close>)
qed

lemma install_loop_inv:
  "pinv (palloc s) \<Longrightarrow> install_loop alloc l s b k va pte 0 = Inr (ptr, s') \<Longrightarrow> pinv (palloc s')"
proof (induction l arbitrary: s b)
  case (Suc l)
  obtain p a where p: "alloc (palloc s) = Inr (p, a)" using total[OF Suc.prems(1)] by blast
  then have "pinv a" using law[OF Suc.prems(1)] by blast
  then show ?case using Suc.prems p by (auto simp: Let_def split: if_splits elim: Suc.IH[rotated])
qed simp

text \<open>A range is installed completely or the allocator has no page left.\<close>

lemma repeat_total:
  assumes f: "\<And>s p v. f s p v = install_pte alloc s cr3 k v (p OR (fl OR pte_opt_mask s)) 0" and k: "1 \<le> k" "k \<le> 4"
    and "pinv (palloc s)"
  shows "(\<exists>s' m. repeat_install f n step s phys virt = Inr s' \<and> m \<le> n * (4 - k) \<and> drawn alloc m (palloc s) (palloc s')) \<or>
    (\<exists>err. repeat_install f n step s phys virt = Inl err \<and> out_of_pages alloc (n * (4 - k)) (palloc s) err)"
  using assms(4)
proof (induction n arbitrary: s phys virt)
  case 0
  show ?case using drawn_0 by auto
next
  case (Suc n)
  consider ptr s1 m where "f s phys virt = Inr (ptr, s1)" "pinv (palloc s1)" "m \<le> 4 - k" "drawn alloc m (palloc s) (palloc s1)"
    | err where "f s phys virt = Inl err" "out_of_pages alloc (4 - k) (palloc s) err"
    using install_loop_total[OF Suc.prems k(1), of PAGE_LEVEL cr3 virt "phys OR (fl OR pte_opt_mask s)"] k(2)
      install_loop_inv[OF Suc.prems] by (auto simp: f install_pte_def PAGE_LEVEL_def)
  then show ?case
  proof cases
    case 1
    then have "m + n * (4 - k) \<le> Suc n * (4 - k)" by simp
    with 1 Suc.IH[OF 1(2), of "phys + step" "virt + step"] out_of_pages_later[OF 1(4)] drawn_trans[OF 1(4)]
    show ?thesis by (fastforce intro: add_le_mono)
  next
    case 2
    then show ?thesis using out_of_pages_later[OF drawn_0 2(2), of "Suc n * (4 - k)"] by auto
  qed
qed

text \<open>In terms of translation.\<close>

lemma range_translate:
  assumes f: "\<And>s p v. f s p v = install_pte alloc s cr3 k v (p OR (fl OR pte_opt_mask s)) 0" and k: "1 \<le> k" "k \<le> 3"
    and fl: "pt_next fl = 0" "bit fl 0" "k = 1 \<or> bit fl 7"
    and ok: "vm_ok pinv pfree s 4 cr3"
    and virt: "unat virt = 2 ^ PGDIR_BITS k * v" and phys: "unat phys = 2 ^ PGDIR_BITS k * w" "unat phys + n * 2 ^ PGDIR_BITS k \<le> 2 ^ 52"
    and lf: "\<forall>i < n. \<forall>j e. leaf (vmem s) 4 cr3 (virt + of_nat i * of_nat (2 ^ PGDIR_BITS k)) = Some (j, e) \<longrightarrow> j \<le> k"
    and n: "n \<le> 2 ^ (48 - PGDIR_BITS k)"
    and run: "repeat_install f n (of_nat (2 ^ PGDIR_BITS k)) s phys virt = Inr s'"
  shows "vm_ok pinv pfree s' 4 cr3" "pte_opt_mask s' = pte_opt_mask s"
    and "i < n \<Longrightarrow> off < 2 ^ PGDIR_BITS k \<Longrightarrow>
      translate (vmem s') cr3 (virt + of_nat i * of_nat (2 ^ PGDIR_BITS k) + of_nat off) =
        Some (phys + of_nat i * of_nat (2 ^ PGDIR_BITS k) + of_nat off)"
    and "\<forall>i < n. region k va \<noteq> region k (virt + of_nat i * of_nat (2 ^ PGDIR_BITS k)) \<Longrightarrow>
      leaf (vmem s') 4 cr3 va = leaf (vmem s) 4 cr3 va"
proof -
  let ?B = "PGDIR_BITS k"
  let ?st = "of_nat (2 ^ ?B) :: u64"
  let ?f = "fl OR pte_opt_mask s"
  have k4: "k \<le> 4" using k by simp
  note B = PGDIR_BITS_le[OF k(1) k4]
  have opt: "pt_next (pte_opt_mask s) = 0" using ok by (simp add: vm_ok_def table_flags_ok_def)
  have pf: "pt_next ?f = 0" using fl(1) opt by (simp add: pt_next_def bit.conj_disj_distrib2)
  have leafy: "pt_present (p OR ?f)" "\<not> is_table k (p OR ?f)" for p
    using fl k by (auto simp: pt_present_bit is_table_def pt_huge_bit bit_or_iff)
  have eq: "same_path k 4 x y \<longleftrightarrow> region k x = region k y" for x y using same_path_region[OF k(1) k4] .
  have "range_post pinv pfree cr3 k n (\<lambda>i. virt + of_nat i * ?st) (\<lambda>i. (phys + of_nat i * ?st) OR ?f) s s'"
    by (rule repeat_correct[OF f k(1) k4 ok lf _ _ run]) (use leafy region_step_inj[OF k(1) k4 virt _ _ n] eq in blast)+
  note post = this[unfolded range_post_def]
  show "vm_ok pinv pfree s' 4 cr3" "pte_opt_mask s' = pte_opt_mask s" using post by auto
  show "leaf (vmem s') 4 cr3 va = leaf (vmem s) 4 cr3 va" if "\<forall>i < n. region k va \<noteq> region k (virt + of_nat i * ?st)"
    using post that eq by metis
  assume i: "i < n" and off: "off < 2 ^ ?B"
  let ?va = "virt + of_nat i * ?st + of_nat off" and ?pa = "phys + of_nat i * ?st"
  have "same_path k 4 (virt + of_nat i * ?st) ?va"
    using region_step[OF k(1) k4 virt, of 0 i] region_step[OF k(1) k4 virt off, of i] eq by simp
  then have l: "leaf (vmem s') 4 cr3 ?va = Some (k, ?pa OR ?f)"
    using post i leafy by (simp add: as_leaf_def)
  have "phys = of_nat (2 ^ ?B * w)" using phys(1)[symmetric] by simp
  then have pan: "?pa = of_nat (2 ^ ?B * (w + i))" by (simp add: algebra_simps)
  have "i * 2 ^ ?B < n * 2 ^ ?B" using i by simp
  moreover have "2 ^ ?B * (w + i) = unat phys + i * 2 ^ ?B" using phys(1) by (simp add: algebra_simps)
  ultimately have lt: "2 ^ ?B * (w + i) < 2 ^ 52" using phys(2) by linarith
  have pau: "unat ?pa = 2 ^ ?B * (w + i)"
    using lt by (simp only: pan unsigned_of_nat take_bit_eq_mod) simp
  then have addr: "pt_next (?pa OR ?f) AND NOT (mask ?B) = ?pa"
    using page_address[of ?pa ?B ?f] B pf lt by simp
  have "unat (virt + of_nat i * ?st) = 2 ^ ?B * ((v + i) mod 2 ^ (64 - ?B))"
    by (rule aligned_step[OF virt]) (use B in simp)
  then have "take_bit ?B ?va = of_nat off" by (rule aligned_add(1)[OF _ off])
  moreover have "?pa OR of_nat off = ?pa + of_nat off" by (rule aligned_add(2)[OF pau off])
  ultimately show "translate (vmem s') cr3 ?va = Some (?pa + of_nat off)"
    using l addr by (simp add: translate_def PAGE_LEVEL_def)
qed

end

end
