(* ===== verification/X86Split.thy ===== *)
theory X86Split
  imports X86Map
begin

text \<open>
  \<open>split_large_page\<close> and \<open>force_4k_page\<close>: a large page becomes a table of 512 smaller pages,
  and no translation changes.
\<close>

section \<open>Replacing the entry a walk reaches\<close>

lemma find_loop_in_tabs:
  "find_loop m l b va k = Inr r \<Longrightarrow> fst (search_pte r) \<in> tabs m l b \<and> snd (search_pte r) < 512"
proof (induction l arbitrary: b)
  case (Suc l)
  show ?case
  proof (cases "is_table (Suc l) (m b (PGDIR_OFFSET va (Suc l))) \<and> k \<noteq> Suc l")
    case True
    then have "find_loop m l (pt_next (m b (PGDIR_OFFSET va (Suc l)))) va k = Inr r"
      using Suc.prems by (simp add: Let_def is_table_def)
    from Suc.IH[OF this] True PGDIR_OFFSET_less show ?thesis by auto
  next
    case False
    show ?thesis
    proof (cases l)
      case 0
      then show ?thesis using Suc.prems PGDIR_OFFSET_less by (auto simp: Let_def split: if_splits)
    next
      case (Suc l')
      then show ?thesis using Suc.prems False PGDIR_OFFSET_less by (auto simp: Let_def is_table_def split: if_splits)
    qed
  qed
qed simp

lemma subtree_update:
  assumes "tree m l b" "find_loop m l b addr k = Inr r" "search_level r = k" "search_pte r = (pt, i)"
    and "1 \<le> k" "k \<le> l" "N \<inter> tabs m l b = {}"
    and m': "m' pt = (m pt)(i := e)" "\<forall>q. q \<noteq> pt \<and> q \<notin> N \<longrightarrow> m' q = m q"
    and e: "is_table k e \<longrightarrow> tree m' (k - 1) (pt_next e) \<and> tabs m' (k - 1) (pt_next e) \<subseteq> N"
  shows "tree m' l b \<and> tabs m' l b \<subseteq> tabs m l b \<union> N \<and>
    (\<forall>va. leaf m' l b va = (if same_path k l addr va
       then (if is_table k e then leaf m' (k - 1) (pt_next e) va else as_leaf k e) else leaf m l b va))"
  using assms(1-7)
proof (induction l arbitrary: b)
  case (Suc l)
  let ?i = "PGDIR_OFFSET addr (Suc l)"
  have t: "tree m (Suc l) b" and i5: "?i < 512" using Suc.prems(1) PGDIR_OFFSET_less by blast+
  have sub: "tabs m l (pt_next (m b j)) \<subseteq> tabs m (Suc l) b" "b \<notin> tabs m l (pt_next (m b j))"
    if "j < 512" "is_table (Suc l) (m b j)" for j using t that by auto
  have off: "q \<notin> N \<and> q \<noteq> b" if "j < 512" "is_table (Suc l) (m b j)" "q \<in> tabs m l (pt_next (m b j))" for q j
    using sub[OF that(1,2)] that(3) Suc.prems(7) by auto
  have bN: "b \<notin> N" using Suc.prems(7) by auto
  show ?case
  proof (cases "k = Suc l")
    case True
    then have ptr: "pt = b" "i = ?i" using Suc.prems(2,4) by (auto simp: Let_def split: if_splits)
    have mb: "m' b = (m b)(?i := e)" using m'(1) ptr by simp
    have fr: "\<forall>j < 512. j \<noteq> ?i \<and> is_table (Suc l) (m b j) \<longrightarrow> (\<forall>q \<in> tabs m l (pt_next (m b j)). m' q = m q)"
      using m'(2) ptr(1) off by simp
    have new: "is_table (Suc l) e \<longrightarrow> tree m' l (pt_next e) \<and> b \<notin> tabs m' l (pt_next e) \<and>
       (\<forall>j < 512. j \<noteq> ?i \<and> is_table (Suc l) (m b j) \<longrightarrow> tabs m' l (pt_next e) \<inter> tabs m l (pt_next (m b j)) = {})"
      using e True off bN by auto
    note u = entry_update[OF t i5 mb fr new]
    have "same_path (Suc l) (Suc l) addr va \<longleftrightarrow> PGDIR_OFFSET va (Suc l) = ?i" for va by (auto simp: same_path_def)
    then show ?thesis using u True e by (auto simp del: tree.simps tabs.simps leaf.simps split: if_splits)
  next
    case False
    then have k: "k \<le> l" using Suc.prems(6) by simp
    let ?c = "pt_next (m b ?i)"
    have tab: "is_table (Suc l) (m b ?i)" and fl: "find_loop m l ?c addr k = Inr r"
      using Suc.prems(2,3,5) False k by (auto simp: Let_def is_table_def split: if_splits)
    have c: "tree m l ?c" "N \<inter> tabs m l ?c = {}" using t tab i5 sub(1)[OF i5 tab] Suc.prems(7) by auto
    note ih = Suc.IH[OF c(1) fl Suc.prems(3-5) k c(2)]
    have pt: "pt \<in> tabs m l ?c" using find_loop_in_tabs[OF fl] Suc.prems(4) by simp
    have d: "tabs m l ?c \<inter> tabs m l (pt_next (m b j)) = {}" if "j < 512" "j \<noteq> ?i" "is_table (Suc l) (m b j)" for j
      using t i5 tab that by simp
    have mb: "m' b = (m b)(?i := m b ?i)"
      using m'(2) sub(2)[OF i5 tab] pt bN by (metis fun_upd_triv)
    have fr: "\<forall>j < 512. j \<noteq> ?i \<and> is_table (Suc l) (m b j) \<longrightarrow> (\<forall>q \<in> tabs m l (pt_next (m b j)). m' q = m q)"
      using m'(2) off d pt by fastforce
    have new: "is_table (Suc l) (m b ?i) \<longrightarrow> tree m' l ?c \<and> b \<notin> tabs m' l ?c \<and>
       (\<forall>j < 512. j \<noteq> ?i \<and> is_table (Suc l) (m b j) \<longrightarrow> tabs m' l ?c \<inter> tabs m l (pt_next (m b j)) = {})"
      using ih d sub(2)[OF i5 tab] bN off by fastforce
    note u = entry_update[OF t i5 mb fr new]
    have "leaf m' (Suc l) b va = (if same_path k (Suc l) addr va
       then (if is_table k e then leaf m' (k - 1) (pt_next e) va else as_leaf k e) else leaf m (Suc l) b va)" for va
    proof -
      have "leaf m (Suc l) b va = leaf m l ?c va" if "PGDIR_OFFSET va (Suc l) = ?i" using that tab by simp
      then show ?thesis using u(3)[of va] ih tab same_path_Suc[of k l addr va] k by simp
    qed
    moreover have "tabs m' (Suc l) b \<subseteq> tabs m (Suc l) b \<union> N"
      using u(2) ih tab sub(1)[OF i5 tab] by (auto simp del: tabs.simps)
    ultimately show ?thesis using u(1) by blast
  qed
qed simp

section \<open>The new table\<close>

lemma split_loop_eq:
  "split_loop m n p i proto pa step q j =
     (if q = p \<and> i \<le> j \<and> j < i + n then proto OR (pa + of_nat (j - i) * step) else m q j)"
proof (induction n arbitrary: m i pa)
  case (Suc n)
  have "of_nat (j - i) * step = step + of_nat (j - Suc i) * step" if "i < j"
    using that by (simp add: Suc_diff_Suc[symmetric] algebra_simps)
  then show ?case by (auto simp: Suc pt_write_def algebra_simps not_less_eq_eq less_Suc_eq)
qed auto

lemma PGDIR_OFFSET_nat: "PGDIR_OFFSET va k = unat va div 2 ^ PGDIR_BITS k mod 512"
proof -
  have "PGDIR_OFFSET va k = unat (take_bit 9 (drop_bit (PGDIR_BITS k) va))"
    unfolding PGDIR_OFFSET_def PGDIR_MASK_def by (simp add: take_bit_eq_mask mask_eq_exp_minus_1)
  moreover have "take_bit 64 (unat va) = unat va" by (rule take_bit_nat_eq_self) (use unsigned_less[of va] in simp)
  ultimately show ?thesis by (simp only: unat_take_bit unsigned_drop_bit_eq) (simp add: drop_bit_eq_div)
qed

lemma take_bit_split:
  assumes "k = 2 \<or> k = 3"
  shows "unat (take_bit (PGDIR_BITS k) va) =
    2 ^ PGDIR_BITS (k - 1) * PGDIR_OFFSET va (k - 1) + unat (take_bit (PGDIR_BITS (k - 1)) va)"
proof -
  have "(2 :: nat) ^ PGDIR_BITS k = 2 ^ PGDIR_BITS (k - 1) * 512"
    using assms by (auto simp: PGDIR_BITS_def PGDIR_WIDTH_def)
  then show ?thesis by (simp add: unat_take_bit PGDIR_OFFSET_nat mod_mult2_eq)
qed

lemma split_page:
  fixes k :: nat and pa :: u64
  assumes k: "k = 2 \<or> k = 3" and pa: "unat pa = 2 ^ PGDIR_BITS k * w" "unat pa < 2 ^ 52" and j: "j < 512"
  defines "B \<equiv> PGDIR_BITS (k - 1)"
  shows "unat (pa + of_nat j * of_nat (2 ^ B)) = 2 ^ B * (512 * w + j)" "2 ^ B * (512 * w + j) < 2 ^ 52"
proof -
  have Bk: "PGDIR_BITS k = B + 9" "12 \<le> B" "B \<le> 30" using k by (auto simp: B_def PGDIR_BITS_def PGDIR_WIDTH_def)
  have pB: "unat pa = 2 ^ B * (512 * w)" using pa(1) Bk by (simp add: power_add)
  show fit: "2 ^ B * (512 * w + j) < 2 ^ 52"
  proof -
    have p: "(2 :: nat) ^ 52 = 2 ^ (B + 9) * 2 ^ (43 - B)" using Bk by (simp flip: power_add)
    then have "2 ^ (B + 9) * w < 2 ^ (B + 9) * 2 ^ (43 - B)" using pa Bk(1) by simp
    then have "2 ^ (B + 9) * (w + 1) \<le> 2 ^ (B + 9) * 2 ^ (43 - B)" by (intro mult_le_mono2) simp
    moreover have "2 ^ B * (512 * w + j) < 2 ^ B * (512 * (w + 1))" using j by simp
    moreover have "2 ^ B * (512 * (w + 1)) = 2 ^ (B + 9) * (w + 1)" by (simp add: power_add algebra_simps)
    ultimately show ?thesis using p by linarith
  qed
  show "unat (pa + of_nat j * of_nat (2 ^ B)) = 2 ^ B * (512 * w + j)"
  proof -
    have "pa + of_nat j * of_nat (2 ^ B) = of_nat (2 ^ B * (512 * w + j))"
      using pB[symmetric] by (simp add: algebra_simps)
    then show ?thesis using fit by (simp only: unsigned_of_nat take_bit_eq_mod) simp
  qed
qed

text \<open>The address through the new entry is the address through the old one.\<close>

lemma split_address:
  fixes va :: u64 and k :: nat
  assumes k: "k = 2 \<or> k = 3" and pa: "unat pa = 2 ^ PGDIR_BITS k * w" "unat pa < 2 ^ 52" and f: "pt_next f = 0"
  defines "j \<equiv> PGDIR_OFFSET va (k - 1)" and "B \<equiv> PGDIR_BITS (k - 1)"
  shows "(pt_next (f OR (pa + of_nat j * push_bit B 1)) AND NOT (mask B)) OR take_bit B va =
    pa OR take_bit (PGDIR_BITS k) va"
proof -
  have st: "push_bit B (1 :: u64) = of_nat (2 ^ B)" by (simp add: push_bit_eq_mult)
  have Bk: "PGDIR_BITS k = B + 9" "12 \<le> B" "B \<le> 30" using k by (auto simp: B_def PGDIR_BITS_def PGDIR_WIDTH_def)
  have j: "j < 512" unfolding j_def by (rule PGDIR_OFFSET_less)
  note q = split_page(1)[OF k pa j, folded B_def] and fit = split_page(2)[OF k pa j, folded B_def]
  let ?r = "unat (take_bit B va)"
  have r: "?r < 2 ^ B" by (simp add: unat_take_bit)
  have "pt_next (f OR (pa + of_nat j * push_bit B 1)) AND NOT (mask B) = pa + of_nat j * of_nat (2 ^ B)"
    using page_address[of "pa + of_nat j * of_nat (2 ^ B)" B f] q fit Bk f by (simp add: st or.commute)
  moreover have "(pa + of_nat j * of_nat (2 ^ B)) OR of_nat ?r = pa + of_nat j * of_nat (2 ^ B) + of_nat ?r"
    by (rule aligned_add(2)[OF q r])
  moreover have "pa OR of_nat (2 ^ B * j + ?r) = pa + of_nat (2 ^ B * j + ?r)"
  proof (rule aligned_add(2)[OF pa(1)])
    have "2 ^ B * j + ?r < 2 ^ B * (j + 1)" using r by simp
    also have "\<dots> \<le> 2 ^ B * 512" using j by (intro mult_le_mono2) simp
    finally show "2 ^ B * j + ?r < 2 ^ PGDIR_BITS k" by (simp add: Bk power_add)
  qed
  moreover have "take_bit (PGDIR_BITS k) va = of_nat (2 ^ B * j + ?r)"
    using arg_cong[OF take_bit_split[OF k, of va], of "of_nat :: nat \<Rightarrow> u64"] unfolding B_def j_def by simp
  ultimately show ?thesis by (simp add: algebra_simps)
qed

section \<open>The large page and its split\<close>

text \<open>The entries \<open>split_large_page\<close> writes, as functions of the old one.\<close>

definition split_entry :: "nat \<Rightarrow> u64 \<Rightarrow> nat \<Rightarrow> u64" where
  "split_entry k e j =
     (if k = 2 then e AND NOT PT_ADDR_MASK AND NOT PT_PAGE_SIZE_MASK else e AND NOT PT_ADDR_MASK) OR
     (pt_next e + of_nat j * push_bit (PGDIR_BITS (k - 1)) 1)"

definition split_table :: "u64 \<Rightarrow> u64 \<Rightarrow> u64" where
  "split_table e p = (e AND NOT PT_PAGE_SIZE_MASK AND NOT PT_ADDR_MASK) OR p"

definition leaf_aligned :: "nat \<Rightarrow> u64 \<Rightarrow> bool" where
  "leaf_aligned k e \<longleftrightarrow> unat (pt_next e) mod 2 ^ PGDIR_BITS k = 0"

lemma mask_tests: "x AND PT_PRESENT_MASK \<noteq> 0 \<longleftrightarrow> bit x 0" "x AND PT_PAGE_SIZE_MASK \<noteq> 0 \<longleftrightarrow> bit x 7"
  unfolding PT_PRESENT_MASK_def PT_PAGE_SIZE_MASK_def by (rule and_pow2_nonzero)+

lemma bit_PS: "bit PT_PAGE_SIZE_MASK i \<longleftrightarrow> i = 7"
  by (simp only: PT_PAGE_SIZE_MASK_def bit_push_bit_iff bit_1_iff) auto

lemmas pte_bits = bit_and_iff bit_or_iff bit_not_iff bit_PS bit_PT_ADDR_MASK bit_pt_next

lemma unat_pt_next: "unat (pt_next e) < 2 ^ 52"
proof -
  have "take_bit 52 (pt_next e) = pt_next e" by (rule bit_eqI) (auto simp: bit_take_bit_iff bit_pt_next)
  then have "unat (pt_next e) = unat (pt_next e) mod 2 ^ 52" using unat_take_bit[of 52 "pt_next e"] by simp
  then show ?thesis by (metis mod_less_divisor zero_less_numeral zero_less_power)
qed

lemma split_table_props:
  assumes "pt_next p = p" "bit e 0" "k = 2 \<or> k = 3"
  shows "pt_next (split_table e p) = p" "is_table k (split_table e p)"
proof -
  have p: "bit p i \<longleftrightarrow> bit p i \<and> 12 \<le> i \<and> i \<le> 51" for i using bit_pt_next[of p i] assms(1) by simp
  show "pt_next (split_table e p) = p"
    by (rule bit_eqI) (use p in \<open>auto simp: split_table_def pte_bits\<close>)
  show "is_table k (split_table e p)"
    using assms(2,3) p[of 7] by (auto simp: is_table_def pt_present_bit pt_huge_bit split_table_def pte_bits)
qed

lemma split_entry_props:
  assumes k: "k = 2 \<or> k = 3" and e: "bit e 0" "bit e 7"
  shows "pt_present (split_entry k e j)" "\<not> is_table (k - 1) (split_entry k e j)"
  using assms by (auto simp: split_entry_def is_table_def pt_present_bit pt_huge_bit pte_bits)

lemma pt_next_or: "unat p mod 4096 = 0 \<Longrightarrow> unat p < 2 ^ 52 \<Longrightarrow> pt_next f = 0 \<Longrightarrow> pt_next (f OR p) = p"
proof -
  assume a: "unat p mod 4096 = 0" "unat p < 2 ^ 52" "pt_next f = 0"
  have "pt_next (f OR p) AND NOT (mask 12) = pt_next (f OR p)"
    by (rule bit_eqI) (auto simp: pte_bits bit_mask_iff)
  then show ?thesis using page_address[of p 12 f] a by (simp add: or.commute)
qed

lemma split_entry_aligned:
  assumes k: "k = 2 \<or> k = 3" and al: "leaf_aligned k e" and j: "j < 512"
  shows "leaf_aligned (k - 1) (split_entry k e j)"
proof -
  let ?B = "PGDIR_BITS (k - 1)"
  obtain w where w: "unat (pt_next e) = 2 ^ PGDIR_BITS k * w" using al by (auto simp: leaf_aligned_def mod_eq_0_iff_dvd)
  let ?f = "if k = 2 then e AND NOT PT_ADDR_MASK AND NOT PT_PAGE_SIZE_MASK else e AND NOT PT_ADDR_MASK"
  let ?p = "pt_next e + of_nat j * push_bit ?B 1"
  have f: "pt_next ?f = 0" by (rule bit_eqI) (auto simp: pte_bits)
  have p: "unat ?p = 2 ^ ?B * (512 * w + j)" "unat ?p < 2 ^ 52"
    using split_page[OF k w unat_pt_next j] by (simp_all add: push_bit_eq_mult)
  have "(4096 :: nat) dvd 2 ^ ?B" using k by (auto simp: PGDIR_BITS_def PGDIR_WIDTH_def)
  then have "unat ?p mod 4096 = 0" using p(1) by (simp add: mod_eq_0_iff_dvd dvd_mult2)
  from pt_next_or[OF this p(2) f] show ?thesis using p(1) by (simp add: leaf_aligned_def split_entry_def)
qed

lemma split_entry_address:
  assumes k: "k = 2 \<or> k = 3" and al: "leaf_aligned k e"
  shows "(pt_next (split_entry k e (PGDIR_OFFSET va (k - 1))) AND NOT (mask (PGDIR_BITS (k - 1)))) OR take_bit (PGDIR_BITS (k - 1)) va =
    (pt_next e AND NOT (mask (PGDIR_BITS k))) OR take_bit (PGDIR_BITS k) va"
proof -
  obtain w where w: "unat (pt_next e) = 2 ^ PGDIR_BITS k * w" using al by (auto simp: leaf_aligned_def mod_eq_0_iff_dvd)
  let ?f = "if k = 2 then e AND NOT PT_ADDR_MASK AND NOT PT_PAGE_SIZE_MASK else e AND NOT PT_ADDR_MASK"
  have f: "pt_next ?f = 0" by (rule bit_eqI) (auto simp: pte_bits)
  have "pt_next e AND NOT (mask (PGDIR_BITS k)) = pt_next e"
    using page_address[of "pt_next e" "PGDIR_BITS k" 0] w unat_pt_next[of e] PGDIR_BITS_le[of k] k
    by (auto simp: pt_next_def and.assoc)
  with split_address[OF k w unat_pt_next f, of va] show ?thesis by (simp add: split_entry_def)
qed

definition leaves_aligned :: "ptmem \<Rightarrow> u64 \<Rightarrow> bool" where
  "leaves_aligned m cr3 \<longleftrightarrow> (\<forall>va l e. leaf m 4 cr3 va = Some (l, e) \<longrightarrow> leaf_aligned l e)"

lemma same_path_refl: "same_path k l va va"
  by (simp add: same_path_def)

lemma leaf_pos: "leaf m l b va = Some (j, e) \<Longrightarrow> 0 < j"
  by (induction l arbitrary: b) (auto simp: Let_def split: if_splits)

lemma leaf_table:
  assumes "0 < l" "\<And>j. j < 512 \<Longrightarrow> \<not> is_table l (m b j) \<and> pt_present (m b j)"
  shows "tabs m l b \<subseteq> {b}" "tree m l b" "leaf m l b va = Some (l, m b (PGDIR_OFFSET va l))"
  using assms PGDIR_OFFSET_less[of va l] by (cases l; auto simp: Let_def)+

lemma leaf_at:
  assumes "find_loop m l b addr k = Inr r" "search_level r = k" "1 \<le> k" "k \<le> l" "same_path k l addr va"
    and "\<not> is_table k (pt_read m (search_pte r))"
  shows "leaf m l b va = as_leaf k (pt_read m (search_pte r))"
  using assms(1,2,4,5)
proof (induction l arbitrary: b)
  case (Suc l)
  have off: "PGDIR_OFFSET va (Suc l) = PGDIR_OFFSET addr (Suc l)" "same_path k l addr va"
    using same_path_Suc[OF Suc.prems(3)] Suc.prems(4) by auto
  show ?case
  proof (cases "k = Suc l")
    case True
    then show ?thesis using Suc.prems(1) off(1) assms(6) by (auto simp: Let_def as_leaf_def pt_read_def split: if_splits)
  next
    case False
    then have tab: "is_table (Suc l) (m b (PGDIR_OFFSET addr (Suc l)))"
      and fl: "find_loop m l (pt_next (m b (PGDIR_OFFSET addr (Suc l)))) addr k = Inr r"
      using Suc.prems assms(3) by (auto simp: Let_def is_table_def split: if_splits)
    then show ?thesis using Suc.IH[OF fl] Suc.prems(2,3) False off by simp
  qed
qed (use assms(3) in simp)

lemma leaf_below:
  assumes "find_loop m l b addr k = Inr r" "search_level r = k" "1 \<le> k" "k \<le> l"
    and "is_table k (pt_read m (search_pte r))"
  shows "leaf m l b addr = leaf m (k - 1) (pt_next (pt_read m (search_pte r))) addr"
  using assms(1,2,4)
proof (induction l arbitrary: b)
  case (Suc l)
  show ?case
  proof (cases "k = Suc l")
    case True
    then show ?thesis using Suc.prems(1) assms(5) by (auto simp: Let_def pt_read_def is_table_def split: if_splits)
  next
    case False
    then have tab: "is_table (Suc l) (m b (PGDIR_OFFSET addr (Suc l)))"
      and fl: "find_loop m l (pt_next (m b (PGDIR_OFFSET addr (Suc l)))) addr k = Inr r"
      using Suc.prems assms(3) by (auto simp: Let_def is_table_def split: if_splits)
    then show ?thesis using Suc.IH[OF fl] Suc.prems(2,3) False by simp
  qed
qed (use assms(3) in simp)

context page_source
begin

lemma split_page_correct:
  assumes ok: "vm_ok pinv pfree s 4 cr3" and fl: "find_loop (vmem s) 4 cr3 addr k = Inr r" "search_level r = k"
    and k: "k = 2 \<or> k = 3" and run: "split_large_page alloc s (search_pte r) k = Inr s'"
  defines "e \<equiv> pt_read (vmem s) (search_pte r)"
  shows "vm_ok pinv pfree s' 4 cr3 \<and> pte_opt_mask s' = pte_opt_mask s \<and> bit e 0 \<and> bit e 7 \<and>
    (\<forall>va. leaf (vmem s') 4 cr3 va =
      (if same_path k 4 addr va then Some (k - 1, split_entry k e (PGDIR_OFFSET va (k - 1))) else leaf (vmem s) 4 cr3 va))"
proof -
  obtain pt i where pti: "search_pte r = (pt, i)" by force
  have inv: "pinv (palloc s)" and t: "tree (vmem s) 4 cr3" and d: "tabs (vmem s) 4 cr3 \<inter> pfree (palloc s) = {}"
    using ok by (simp_all add: vm_ok_def)
  obtain p a where p: "alloc (palloc s) = Inr (p, a)" using total[OF inv] by blast
  let ?p = "of_nat p :: u64"
  let ?f = "if k = 2 then e AND NOT PT_ADDR_MASK AND NOT PT_PAGE_SIZE_MASK else e AND NOT PT_ADDR_MASK"
  let ?m1 = "split_loop (vmem s) 512 ?p 0 ?f (pt_next e) (push_bit (PGDIR_BITS (k - 1)) 1)"
  let ?m = "pt_write ?m1 (pt, i) (split_table e ?p)"
  have rd: "pt_read (vmem s) (pt, i) = e" by (simp add: e_def pti)
  have bits: "bit e 0" "bit e 7" and p0: "p \<noteq> 0" and s': "s' = s\<lparr>vmem := ?m, palloc := a\<rparr>"
    using run p k rd by (auto simp: split_large_page_def pti Let_def res_simps PGDIR_WIDTH_def pt_next_def split_table_def mask_tests)
  have a: "pinv a" "?p \<in> pfree (palloc s)" "pfree a = pfree (palloc s) - {?p}" using law[OF inv p] p0 by auto
  have pt: "pt \<in> tabs (vmem s) 4 cr3" "i < 512" using find_loop_in_tabs[OF fl(1)] pti by auto
  then have ppt: "?p \<noteq> pt" using a(2) d by auto
  note tb = split_table_props[OF _ bits(1) k, of ?p]
  have pn: "pt_next ?p = ?p" using addressable[OF inv a(2)] by simp
  have m1: "?m pt = (vmem s pt)(i := split_table e ?p)" "\<forall>q. q \<noteq> pt \<and> q \<notin> {?p} \<longrightarrow> ?m q = vmem s q"
    using ppt by (auto simp: pt_write_def split_loop_eq fun_eq_iff)
  have new: "?m ?p j = split_entry k e j" if "j < 512" for j
    using that ppt by (simp add: pt_write_def split_loop_eq split_entry_def)
  define mm where "mm = ?m"
  have sub: "tabs mm (k - 1) ?p \<subseteq> {?p}" "tree mm (k - 1) ?p"
      "leaf mm (k - 1) ?p va = Some (k - 1, mm ?p (PGDIR_OFFSET va (k - 1)))" for va
    by (rule leaf_table; use k new[folded mm_def] split_entry_props[OF k bits] in \<open>force simp del: One_nat_def\<close>)+
  have lf: "leaf mm (k - 1) ?p va = Some (k - 1, split_entry k e (PGDIR_OFFSET va (k - 1)))" for va
    using sub(3)[of va] new[folded mm_def, OF PGDIR_OFFSET_less] by simp
  have u: "tree mm 4 cr3 \<and> tabs mm 4 cr3 \<subseteq> tabs (vmem s) 4 cr3 \<union> {?p} \<and>
      (\<forall>va. leaf mm 4 cr3 va = (if same_path k 4 addr va then (if is_table k (split_table e ?p)
         then leaf mm (k - 1) (pt_next (split_table e ?p)) va else as_leaf k (split_table e ?p)) else leaf (vmem s) 4 cr3 va))"
    by (rule subtree_update[OF t fl pti _ _ _ m1[folded mm_def]]) (use k d a(2) tb[OF pn] sub in auto)
  have "tabs mm 4 cr3 \<inter> pfree a = {}" using u d a by blast
  then show ?thesis using u tb[OF pn] lf bits a(1) ok by (simp add: s'[folded mm_def] vm_ok_def)
qed

lemma split_translate:
  assumes "vm_ok pinv pfree s 4 cr3" "find_loop (vmem s) 4 cr3 addr k = Inr r" "search_level r = k"
    and k: "k = 2 \<or> k = 3" and run: "split_large_page alloc s (search_pte r) k = Inr s'"
    and al: "leaf_aligned k (pt_read (vmem s) (search_pte r))"
  shows "translate (vmem s') cr3 va = translate (vmem s) cr3 va"
proof -
  let ?e = "pt_read (vmem s) (search_pte r)"
  note c = split_page_correct[OF assms(1-5)]
  have nt: "\<not> is_table k ?e" "pt_present ?e" using c k by (auto simp: is_table_def pt_huge_bit pt_present_bit)
  have "leaf (vmem s) 4 cr3 va = Some (k, ?e)" if "same_path k 4 addr va"
    using leaf_at[OF assms(2,3) _ _ that nt(1)] k nt(2) by (auto simp: as_leaf_def)
  then show ?thesis using c split_entry_address[OF k al, of va] by (simp add: translate_def PAGE_LEVEL_def)
qed

lemma split_aligned:
  assumes "vm_ok pinv pfree s 4 cr3" "find_loop (vmem s) 4 cr3 addr k = Inr r" "search_level r = k"
    and k: "k = 2 \<or> k = 3" and run: "split_large_page alloc s (search_pte r) k = Inr s'"
    and al: "leaves_aligned (vmem s) cr3" "leaf_aligned k (pt_read (vmem s) (search_pte r))"
  shows "leaves_aligned (vmem s') cr3"
  using split_page_correct[OF assms(1-5)] split_entry_aligned[OF k al(2) PGDIR_OFFSET_less] al(1) unfolding leaves_aligned_def
  by (auto split: if_splits)

lemma force_split_correct:
  assumes ok: "vm_ok pinv pfree s 4 cr3" and al: "leaves_aligned (vmem s) cr3" and k: "k = 2 \<or> k = 3"
    and run: "force_split alloc s cr3 addr k = Inr s'"
  shows "vm_ok pinv pfree s' 4 cr3" "leaves_aligned (vmem s') cr3" "translate (vmem s') cr3 va = translate (vmem s) cr3 va"
    and "leaf (vmem s') 4 cr3 addr = Some (j, e) \<Longrightarrow> j < k"
proof -
  obtain r where r: "find_loop (vmem s) 4 cr3 addr k = Inr r" "search_level r = k"
    and pr: "bit (pt_read (vmem s) (search_pte r)) 0"
    and s': "if bit (pt_read (vmem s) (search_pte r)) 7 then split_large_page alloc s (search_pte r) k = Inr s' else s' = s"
    using run by (auto simp: force_split_def get_pte_level_def find_pte_level_def PAGE_LEVEL_def res_simps Let_def mask_tests
        split: if_splits)
  let ?e = "pt_read (vmem s) (search_pte r)"
  have "vm_ok pinv pfree s' 4 cr3 \<and> leaves_aligned (vmem s') cr3 \<and> translate (vmem s') cr3 va = translate (vmem s) cr3 va \<and>
      (leaf (vmem s') 4 cr3 addr = Some (j, e) \<longrightarrow> j < k)"
  proof (cases "bit ?e 7")
    case True
    then have sp: "split_large_page alloc s (search_pte r) k = Inr s'" using s' by simp
    have "leaf (vmem s) 4 cr3 addr = Some (k, ?e)"
      using leaf_at[OF r _ _ same_path_refl] k pr True by (auto simp: is_table_def pt_huge_bit as_leaf_def pt_present_bit)
    then have ae: "leaf_aligned k ?e" using al by (simp add: leaves_aligned_def)
    show ?thesis
      using split_page_correct[OF ok r k sp] split_translate[OF ok r k sp ae] split_aligned[OF ok r k sp al ae] k
      by (auto simp: same_path_refl)
  next
    case False
    then have "is_table k ?e" using pr k by (auto simp: is_table_def pt_present_bit pt_huge_bit)
    from leaf_below[OF r _ _ this] have "leaf (vmem s) 4 cr3 addr = leaf (vmem s) (k - 1) (pt_next ?e) addr" using k by auto
    then show ?thesis using False s' ok al k leaf_level[of "vmem s" "k - 1" "pt_next ?e" addr j e] by auto
  qed
  then show "vm_ok pinv pfree s' 4 cr3" "leaves_aligned (vmem s') cr3" "translate (vmem s') cr3 va = translate (vmem s) cr3 va"
    and "leaf (vmem s') 4 cr3 addr = Some (j, e) \<Longrightarrow> j < k" by auto
qed

lemma force_correct:
  assumes "vm_ok pinv pfree s 4 cr3" "leaves_aligned (vmem s) cr3" "force_4k_page alloc s cr3 addr = Inr s'"
  shows "vm_ok pinv pfree s' 4 cr3 \<and> translate (vmem s') cr3 va = translate (vmem s) cr3 va \<and>
    (translate (vmem s) cr3 addr \<noteq> None \<longrightarrow> (\<exists>e. leaf (vmem s') 4 cr3 addr = Some (1, e)))"
proof -
  obtain s1 where run: "force_split alloc s cr3 addr 3 = Inr s1" "force_split alloc s1 cr3 addr 2 = Inr s'"
    using assms(3) by (auto simp: force_4k_page_def res_simps)
  note a = force_split_correct[OF assms(1,2) _ run(1)]
  note b = force_split_correct[OF a(1,2) _ run(2)]
  have tr: "translate (vmem s') cr3 v = translate (vmem s) cr3 v" for v using a(3) b(3) by simp
  have "\<exists>e. leaf (vmem s') 4 cr3 addr = Some (1, e)" if mapped: "translate (vmem s) cr3 addr \<noteq> None"
  proof -
    obtain j e where l: "leaf (vmem s') 4 cr3 addr = Some (j, e)"
      using mapped tr[of addr] by (cases "leaf (vmem s') 4 cr3 addr") (auto simp: translate_def PAGE_LEVEL_def)
    then have "j < 2" "0 < j" using b(4) leaf_pos[of "vmem s'"] by auto
    with l show ?thesis by (cases "j = 1") auto
  qed
  with tr b(1) show ?thesis by blast
qed

end

end
