(* ===== verification/X86Mmu.thy ===== *)
theory X86Mmu
  imports X86Split AllocPageProps
begin

text \<open>
  The page tables with the page allocator of \<open>lib/alloc_page.c\<close> behind them: the properties of
  the functions of \<open>lib/x86/vm.c\<close> on the whole address space.
\<close>

section \<open>The allocator as a source of tables\<close>

definition page_inv :: "alloc_state \<Rightarrow> bool" where
  "page_inv a \<longleftrightarrow> (\<exists>F. alloc_inv F a) \<and> avail a \<subseteq> {..<2 ^ 40}"

definition page_free :: "alloc_state \<Rightarrow> u64 set" where
  "page_free a = (\<lambda>pfn. of_nat (pfn * PAGE_SIZE)) ` avail a"

lemma page_of_nat:
  assumes "p < 2 ^ 40"
  shows "unat (of_nat (p * PAGE_SIZE) :: u64) = p * PAGE_SIZE" "pt_next (of_nat (p * PAGE_SIZE)) = of_nat (p * PAGE_SIZE)"
proof -
  show u: "unat (of_nat (p * PAGE_SIZE) :: u64) = p * PAGE_SIZE"
    using assms by (simp only: unsigned_of_nat take_bit_eq_mod) (simp add: PAGE_SIZE_def)
  then show "pt_next (of_nat (p * PAGE_SIZE)) = of_nat (p * PAGE_SIZE)"
    using pt_next_or[of "of_nat (p * PAGE_SIZE)" 0] assms by (simp add: PAGE_SIZE_def pt_next_def)
qed

lemma alloc_page_cases:
  assumes "alloc_inv F a"
  obtains "alloc_page a = Inr (0, a)"
    | pfn a' F' where "alloc_page a = Inr (pfn * PAGE_SIZE, a')" "alloc_inv F' a'" "0 < pfn" "pfn \<in> avail a" "avail a' = avail a - {pfn}"
        "allocated a' pfn 0" "\<And>q j. allocated a q j \<Longrightarrow> allocated a' q j"
        "\<And>x. x div PAGE_SIZE \<noteq> pfn \<Longrightarrow> contents a' x = contents a x"
proof -
  let ?r = "page_memalign_order_flags a 0 0 AREA_ANY"
  have r: "alloc_page a = ?r" by (simp add: alloc_page_def alloc_pages_def alloc_pages_flags_def)
  have l: "0 < NLISTS" "AREA_ANY AND FLAG_FRESH = 0" by (simp_all add: NLISTS_eq AREA_ANY_def)
  note c = alloc_flags_correct[OF assms l(1) l(1) l(2)]
  show ?thesis
  proof (cases "\<exists>n. selected a AREA_ANY n \<and> can_serve F a (max 0 0) n")
    case True
    with c obtain pfn F' a' where 1: "?r = Inr (pfn * PAGE_SIZE, a')" "alloc_inv F' a'" "grants a a' pfn 0 0"
      and z: "\<And>x. contents a' x = (if AREA_ANY AND FLAG_DONTZERO = 0 \<and> pfn * PAGE_SIZE \<le> x \<and> x < (pfn + 2 ^ 0) * PAGE_SIZE then 0 else contents a x)"
      by (simp only: if_True) blast
    have "contents a' x = contents a x" if "x div PAGE_SIZE \<noteq> pfn" for x
      unfolding z using that div_nat_eqI[of PAGE_SIZE pfn x] by (auto simp: algebra_simps)
    with 1(3) that(2)[of pfn a' F'] 1 r show ?thesis by (simp add: grants_def)
  next
    case False
    then have "?r = Inr (0, a)" using c by (simp only: if_False)
    with that(1) r show ?thesis by simp
  qed
qed

interpretation pt_pages: page_source page_inv page_free alloc_page
proof
  fix a assume "page_inv a"
  then obtain F where "alloc_inv F a" by (auto simp: page_inv_def)
  then show "\<exists>p a'. alloc_page a = Inr (p, a')" by (rule alloc_page_cases) auto
next
  fix a p a' assume i: "page_inv a" and r: "alloc_page a = Inr (p, a')"
  then obtain F where F: "alloc_inv F a" by (auto simp: page_inv_def)
  from F show "page_inv a' \<and> (if p = 0 then a' = a else (of_nat p :: u64) \<in> page_free a \<and> page_free a' = page_free a - {of_nat p})"
  proof (cases rule: alloc_page_cases)
    case 1
    then show ?thesis using r i by simp
  next
    case (2 pfn b F')
    have lt: "q < 2 ^ 40" if "q \<in> avail a" for q using i that by (auto simp: page_inv_def)
    have "inj_on (\<lambda>pfn. of_nat (pfn * PAGE_SIZE) :: u64) (avail a)"
    proof (rule inj_onI)
      fix x y assume xy: "x \<in> avail a" "y \<in> avail a" "(of_nat (x * PAGE_SIZE) :: u64) = of_nat (y * PAGE_SIZE)"
      then have "x * PAGE_SIZE = y * PAGE_SIZE" using page_of_nat(1) lt by metis
      then show "x = y" by (simp add: PAGE_SIZE_def)
    qed
    then have "page_free a' = page_free a - {of_nat p}"
      using 2 r by (auto simp: page_free_def inj_on_image_set_diff[of _ "avail a"])
    moreover have "page_inv a'" using 2 r i by (auto simp: page_inv_def)
    moreover have "of_nat p \<in> page_free a" "p \<noteq> 0" using 2 r by (simp_all add: page_free_def PAGE_SIZE_def)
    ultimately show ?thesis by simp
  qed
next
  fix a and q :: u64 assume "page_inv a" "q \<in> page_free a"
  then obtain F p where p: "alloc_inv F a" "p \<in> avail a" "p < 2 ^ 40" "q = of_nat (p * PAGE_SIZE)"
    by (auto simp: page_inv_def page_free_def)
  have "0 < p" using p(1,2) by (auto simp: avail_def usable_pfns_def dest: alloc_invD(5))
  then have "unat q \<noteq> 0" using page_of_nat(1)[OF p(3)] p(4) by simp
  then show "q \<noteq> 0 \<and> pt_next q = q" using page_of_nat(2)[OF p(3)] p(4) by auto
qed

section \<open>Ranges\<close>

lemma install_page_form:
  "install_page alloc s cr3 p v = install_pte alloc s cr3 1 v (p OR ((PT_PRESENT_MASK OR PT_WRITABLE_MASK) OR pte_opt_mask s)) 0"
  by (simp add: install_page_def or.assoc)

lemma install_large_page_form:
  "install_large_page alloc s cr3 p v =
    install_pte alloc s cr3 2 v (p OR ((PT_PRESENT_MASK OR PT_WRITABLE_MASK OR PT_PAGE_SIZE_MASK) OR pte_opt_mask s)) 0"
  by (simp add: install_large_page_def or.assoc or.commute or.left_commute)

lemma leaf_flags:
  "pt_next (PT_PRESENT_MASK OR PT_WRITABLE_MASK) = 0" "bit (PT_PRESENT_MASK OR PT_WRITABLE_MASK) 0"
  "pt_next (PT_PRESENT_MASK OR PT_WRITABLE_MASK OR PT_PAGE_SIZE_MASK) = 0"
  "bit (PT_PRESENT_MASK OR PT_WRITABLE_MASK OR PT_PAGE_SIZE_MASK) 0" "bit (PT_PRESENT_MASK OR PT_WRITABLE_MASK OR PT_PAGE_SIZE_MASK) 7"
proof -
  have m: "bit PT_PRESENT_MASK i \<longleftrightarrow> i = 0" "bit PT_WRITABLE_MASK i \<longleftrightarrow> i = 1" for i
    by (auto simp: PT_PRESENT_MASK_def PT_WRITABLE_MASK_def bit_simps)
  show "pt_next (PT_PRESENT_MASK OR PT_WRITABLE_MASK) = 0" "pt_next (PT_PRESENT_MASK OR PT_WRITABLE_MASK OR PT_PAGE_SIZE_MASK) = 0"
    by (rule bit_eqI; auto simp: pte_bits m)+
qed (simp_all add: PT_PRESENT_MASK_def PT_WRITABLE_MASK_def bit_or_iff bit_PS)

lemma PGDIR_BITS_simps: "PGDIR_BITS 1 = 12" "PGDIR_BITS 2 = 21" "PGDIR_BITS (Suc 0) = 12"
  by (simp_all add: PGDIR_BITS_def PGDIR_WIDTH_def)

lemma region_page: "unat x < 2 ^ 48 \<Longrightarrow> region 1 x = unat x div 4096"
  by (simp add: region_div PGDIR_BITS_simps)

lemma page_apart: "4096 dvd L \<Longrightarrow> a < L \<Longrightarrow> L \<le> b \<Longrightarrow> a div 4096 \<noteq> b div (4096 :: nat)"
  using less_mult_imp_div_less[of a "L div 4096" 4096] div_le_mono[of L b 4096] by auto

lemma page_outside:
  assumes "4096 dvd lo" "4096 dvd hi" "lo \<le> unat q" "unat q < hi" "unat va < lo \<or> hi \<le> unat va" "unat va < 2 ^ 48" "unat q < 2 ^ 48"
  shows "region 1 va \<noteq> region 1 q"
  using page_apart[of lo "unat va" "unat q"] page_apart[of hi "unat q" "unat va"] assms
    region_page[OF assms(6)] region_page[OF assms(7)] by auto

text \<open>The tables that mapping \<open>len\<close> bytes can take: two for a large page, three for a small one.\<close>

definition setup_tables :: "nat \<Rightarrow> nat" where
  "setup_tables len = len div 0x200000 * 2 + len mod 0x200000 div 4096 * 3"

definition range_mapped :: "ptmem \<Rightarrow> ptmem \<Rightarrow> u64 \<Rightarrow> u64 \<Rightarrow> u64 \<Rightarrow> nat \<Rightarrow> bool" where
  "range_mapped m m' cr3 virt phys len \<longleftrightarrow>
     (\<forall>off < len. translate m' cr3 (virt + of_nat off) = Some (phys + of_nat off)) \<and>
     (\<forall>va. (\<forall>off < len. region 1 va \<noteq> region 1 (virt + of_nat off)) \<longrightarrow> leaf m' 4 cr3 va = leaf m 4 cr3 va)"

context page_source
begin

lemma install_pages_correct:
  assumes ok: "vm_ok pinv pfree s 4 cr3" and al: "unat phys mod 4096 = 0" "unat virt mod 4096 = 0" "unat len mod 4096 = 0"
    and le: "unat phys + unat len \<le> 2 ^ 52" "unat len \<le> 2 ^ 48"
    and lf: "\<forall>off < unat len. \<forall>j e. leaf (vmem s) 4 cr3 (virt + of_nat off) = Some (j, e) \<longrightarrow> j \<le> 1"
  obtains err where "install_pages alloc s cr3 phys len virt = Some (Inl err)" "out_of_pages alloc (unat len div 4096 * 3) (palloc s) err"
    | s' where "install_pages alloc s cr3 phys len virt = Some (Inr s')" "vm_ok pinv pfree s' 4 cr3" "pte_opt_mask s' = pte_opt_mask s"
        "range_mapped (vmem s) (vmem s') cr3 virt phys (unat len)"
proof -
  obtain n v w where n: "unat len = n * 4096" and v: "unat virt = 2 ^ PGDIR_BITS 1 * v" and w: "unat phys = 2 ^ PGDIR_BITS 1 * w"
    using al by (auto simp: PGDIR_BITS_simps mod_eq_0_iff_dvd elim!: dvdE)
  let ?f = "\<lambda>s. install_page alloc s cr3"
  let ?run = "repeat_install ?f n (of_nat (2 ^ PGDIR_BITS 1)) s phys virt"
  have inv: "pinv (palloc s)" using ok by (simp add: vm_ok_def)
  have zero: "x mod 4096 = 0 \<longleftrightarrow> unat x mod 4096 = 0" for x :: u64
    by (simp add: word_unat_eq_iff unat_mod_distrib)
  have max: "unat (len + phys) = unat len + unat phys"
    using le by (subst unat_word_ariths) (simp add: take_bit_eq_mod)
  have ip: "install_pages alloc s cr3 phys len virt = Some ?run"
    using al install_pages_loop_eq[of phys n "len + phys" alloc s cr3 virt] le max n
    by (simp add: install_pages_def zero PGDIR_BITS_simps)
  from repeat_total[where f = ?f and k = 1 and n = n and phys = phys and virt = virt
    and step = "of_nat (2 ^ PGDIR_BITS 1)", OF install_page_form _ _ inv]
  consider s' where "?run = Inr s'" | err where "?run = Inl err" "out_of_pages alloc (n * 3) (palloc s) err" by auto
  then show thesis
  proof cases
    case 1
    have lfi: "\<forall>i<n. \<forall>j e. leaf (vmem s) 4 cr3 (virt + of_nat i * of_nat (2 ^ PGDIR_BITS 1)) = Some (j, e) \<longrightarrow> j \<le> 1"
    proof (intro allI impI)
      fix i j e assume i: "i < n" and l: "leaf (vmem s) 4 cr3 (virt + of_nat i * of_nat (2 ^ PGDIR_BITS 1)) = Some (j, e)"
      show "j \<le> 1" using lf[rule_format, of "i * 4096" j e] i l n by (simp add: PGDIR_BITS_simps)
    qed
    have c: "(1 :: nat) \<le> 1" "(1 :: nat) \<le> 3" "(1 :: nat) = 1 \<or> bit (PT_PRESENT_MASK OR PT_WRITABLE_MASK) 7"
        "unat phys + n * 2 ^ PGDIR_BITS 1 \<le> 2 ^ 52" "n \<le> 2 ^ (48 - PGDIR_BITS 1)"
      using le n by (simp_all add: PGDIR_BITS_simps)
    have st: "(of_nat (2 ^ PGDIR_BITS 1) :: u64) = 4096" "(2 :: nat) ^ PGDIR_BITS 1 = 4096" by (simp_all add: PGDIR_BITS_simps)
    note rt = range_translate[where f = ?f and k = 1, OF install_page_form c(1,2) leaf_flags(1,2) c(3) ok v w c(4) lfi c(5) 1, unfolded st]
    have tr: "translate (vmem s') cr3 (virt + of_nat off) = Some (phys + of_nat off)" if "off < unat len" for off
    proof -
      have "off = off div 4096 * 4096 + off mod 4096" by simp
      then have "(of_nat off :: u64) = of_nat (off div 4096 * 4096 + off mod 4096)" by (rule arg_cong)
      then have "(of_nat off :: u64) = of_nat (off div 4096) * 4096 + of_nat (off mod 4096)"
        by (simp only: of_nat_add of_nat_mult of_nat_numeral)
      moreover have "off div 4096 < n" using that n by (simp add: less_mult_imp_div_less)
      ultimately show ?thesis using rt(3)[of "off div 4096" "off mod 4096"] by (simp only: add.assoc) simp
    qed
    have un: "leaf (vmem s') 4 cr3 va = leaf (vmem s) 4 cr3 va" if o: "\<forall>off < unat len. region 1 va \<noteq> region 1 (virt + of_nat off)" for va
      by (rule rt(4)) (use o[rule_format, of "i * 4096" for i] n in auto)
    show thesis using that(2)[of s'] rt(1,2) tr un ip 1 by (simp add: range_mapped_def)
  next
    case 2
    then show thesis using that(1)[of err] ip n by simp
  qed
qed

lemma large_pages_correct:
  assumes ok: "vm_ok pinv pfree s 4 cr3" and none: "\<forall>va. leaf (vmem s) 4 cr3 va = None"
    and len: "unat len = n * 0x200000 + r" "r < 0x200000" "unat len \<le> 2 ^ 48"
  obtains err where "install_large_loop alloc s cr3 0 len = Some (Inl err)" "out_of_pages alloc (n * 2) (palloc s) err"
    | s' m where "install_large_loop alloc s cr3 0 len = Some (Inr (of_nat (n * 0x200000), s'))" "vm_ok pinv pfree s' 4 cr3"
        "pte_opt_mask s' = pte_opt_mask s" "m \<le> n * 2" "drawn alloc m (palloc s) (palloc s')"
        "\<And>va. unat va < n * 0x200000 \<Longrightarrow> translate (vmem s') cr3 va = Some va"
        "\<And>va. n * 0x200000 \<le> unat va \<Longrightarrow> unat va < 2 ^ 48 \<Longrightarrow> leaf (vmem s') 4 cr3 va = None"
proof -
  let ?f = "\<lambda>s. install_large_page alloc s cr3"
  let ?run = "repeat_install ?f n (of_nat (2 ^ PGDIR_BITS 2)) s 0 0"
  have inv: "pinv (palloc s)" using ok by (simp add: vm_ok_def)
  have lr: "install_large_loop alloc s cr3 0 len = Some (bind_res ?run (\<lambda>s'. Inr (of_nat (n * 0x200000), s')))"
    using install_large_loop_eq[of 0 n r len alloc s cr3] len by (simp add: PGDIR_BITS_simps)
  from repeat_total[where f = ?f and k = 2 and n = n and phys = 0 and virt = 0
    and step = "of_nat (2 ^ PGDIR_BITS 2)", OF install_large_page_form _ _ inv]
  consider s' m where "?run = Inr s'" "m \<le> n * 2" "drawn alloc m (palloc s) (palloc s')"
    | err where "?run = Inl err" "out_of_pages alloc (n * 2) (palloc s) err" by auto
  then show thesis
  proof cases
    case 1
    have c: "(1 :: nat) \<le> 2" "(2 :: nat) \<le> 3" "(2 :: nat) = 1 \<or> bit (PT_PRESENT_MASK OR PT_WRITABLE_MASK OR PT_PAGE_SIZE_MASK) 7"
        "unat (0 :: u64) + n * 2 ^ PGDIR_BITS 2 \<le> 2 ^ 52" "n \<le> 2 ^ (48 - PGDIR_BITS 2)" "unat (0 :: u64) = 2 ^ PGDIR_BITS 2 * 0"
        "\<forall>i<n. \<forall>j e. leaf (vmem s) 4 cr3 (0 + of_nat i * of_nat (2 ^ PGDIR_BITS 2)) = Some (j, e) \<longrightarrow> j \<le> 2"
      using len leaf_flags(5) none by (simp_all add: PGDIR_BITS_simps)
    have st: "(of_nat (2 ^ PGDIR_BITS 2) :: u64) = 0x200000" "(2 :: nat) ^ PGDIR_BITS 2 = 0x200000" by (simp_all add: PGDIR_BITS_simps)
    note rt = range_translate[where f = ?f and k = 2, OF install_large_page_form c(1,2) leaf_flags(3,4) c(3) ok c(6,6,4,7,5) 1(1), unfolded st]
    have tr: "translate (vmem s') cr3 va = Some va" if va: "unat va < n * 0x200000" for va
    proof -
      have "va = of_nat (unat va div 0x200000 * 0x200000 + unat va mod 0x200000)" by simp
      then have e: "of_nat (unat va div 0x200000) * 0x200000 + of_nat (unat va mod 0x200000) = va"
        by (simp only: of_nat_add of_nat_mult of_nat_numeral)
      have "unat va div 0x200000 < n" using va by (simp add: less_mult_imp_div_less)
      from rt(3)[OF this, of "unat va mod 0x200000"] e show ?thesis by simp
    qed
    have un: "leaf (vmem s') 4 cr3 va = None" if va: "n * 0x200000 \<le> unat va" "unat va < 2 ^ 48" for va
    proof -
      have "region 2 va \<noteq> region 2 (0 + of_nat i * 0x200000)" if i: "i < n" for i
      proof -
        have "region 2 (0 + of_nat i * 0x200000) = i mod 2 ^ 27"
          using region_step[of 2 0 0 0 i] by (simp add: PGDIR_BITS_simps)
        moreover have "region 2 va = unat va div 0x200000" using va(2) by (simp add: region_div PGDIR_BITS_simps)
        moreover have "n \<le> unat va div 0x200000" using va(1) by (simp add: less_eq_div_iff_mult_less_eq)
        moreover have "i mod 2 ^ 27 \<le> i" by (rule mod_less_eq_dividend)
        ultimately show ?thesis using i by linarith
      qed
      then show ?thesis using rt(4)[of va] none by simp
    qed
    show thesis using that(2)[of s' m] rt(1,2) tr un lr 1 by simp
  next
    case 2
    then show thesis using that(1)[of err] lr by simp
  qed
qed

lemma setup_range_correct:
  assumes fresh: "pinv (palloc s)" "vmem s cr3 = (\<lambda>_. 0)" "cr3 \<notin> pfree (palloc s)" "table_flags_ok (pte_opt_mask s)"
    and len: "unat len mod 4096 = 0" "unat len \<le> 2 ^ 48"
  obtains err where "setup_mmu_range alloc s cr3 0 len = Some (Inl err)" "out_of_pages alloc (setup_tables (unat len)) (palloc s) err"
    | s' where "setup_mmu_range alloc s cr3 0 len = Some (Inr s')" "vm_ok pinv pfree s' 4 cr3" "pte_opt_mask s' = pte_opt_mask s"
        "\<And>va. unat va < 2 ^ 48 \<Longrightarrow> translate (vmem s') cr3 va = (if va < len then Some va else None)"
proof -
  note clear = clear_table[where m = "vmem s" and b = cr3, OF fresh(2)]
  have ok: "vm_ok pinv pfree s 4 cr3" using fresh clear(1,2)[of 4] by (auto simp: vm_ok_def)
  have none: "\<forall>va. leaf (vmem s) 4 cr3 va = None" using clear(3) by simp
  define n where "n = unat len div 0x200000"
  define r where "r = unat len mod 0x200000"
  have nr: "unat len = n * 0x200000 + r" "r < 0x200000" by (simp_all add: n_def r_def)
  have r4: "r mod 4096 = 0" using len(1) nr(1) by (simp add: mod_eq_0_iff_dvd dvd_add_right_iff[of _ "n * 0x200000"])
  let ?p = "of_nat (n * 0x200000) :: u64"
  have up: "unat ?p = n * 0x200000" using nr(1) len(2) by (simp only: unsigned_of_nat take_bit_eq_mod) simp
  have ur: "unat (len - ?p) = r" using up nr(1) by (simp add: unat_sub word_le_nat_alt)
  note flags = X86_MMU_MAP_USER_def X86_MMU_MAP_HUGE_def
  have none_user: "X86_MMU_MAP_HUGE AND X86_MMU_MAP_USER = 0" "X86_MMU_MAP_HUGE \<noteq> 0"
    by (simp_all add: flags)
  note unf = setup_mmu_range_def setup_mmu_range_flags_def Let_def none_user
  from ok none nr len(2) show thesis
  proof (cases rule: large_pages_correct)
    case (1 err)
    then show thesis using that(1)[of err] out_of_pages_later[OF drawn_0 1(2), of "setup_tables (unat len)"]
      by (simp add: unf setup_tables_def n_def)
  next
    case (2 s1 m)
    have pos: "unat (?p + of_nat off) = n * 0x200000 + off" if "off < r" for off
      using that nr(1) len(2) by (simp only: of_nat_add[symmetric] unsigned_of_nat take_bit_eq_mod) simp
    have lf: "\<forall>off < unat (len - ?p). \<forall>j e. leaf (vmem s1) 4 cr3 (?p + of_nat off) = Some (j, e) \<longrightarrow> j \<le> 1"
      using 2(7) pos ur nr(1) len(2) by simp
    have al: "unat ?p mod 4096 = 0" "unat (len - ?p) mod 4096 = 0" "unat ?p + unat (len - ?p) \<le> 2 ^ 52" "unat (len - ?p) \<le> 2 ^ 48"
      using up ur r4 nr(1) len(2) by (simp_all add: mod_eq_0_iff_dvd)
    from 2(2) al(1,1,2,3,4) lf show thesis
    proof (cases rule: install_pages_correct)
      case (1 err)
      have "m + unat (len - ?p) div 4096 * 3 \<le> setup_tables (unat len)"
        using 2(4) unfolding ur setup_tables_def n_def[symmetric] r_def[symmetric] by simp
      then show thesis using that(1)[of err] 1(1) 2(1) out_of_pages_later[OF 2(5) 1(2)] by (simp add: unf)
    next
      case f: (2 s2)
      let ?s = "s2\<lparr>pte_opt_mask := pte_opt_mask s\<rparr>"
      have "translate (vmem ?s) cr3 va = (if va < len then Some va else None)" if va: "unat va < 2 ^ 48" for va
      proof (cases "n * 0x200000 \<le> unat va \<and> va < len")
        case True
        then have "unat va - n * 0x200000 < unat (len - ?p)" using ur nr(1) by (auto simp: word_less_nat_alt)
        moreover have "?p + of_nat (unat va - n * 0x200000) = va" using True by (simp flip: of_nat_add)
        ultimately show ?thesis using f(4) True by (auto simp: range_mapped_def)
      next
        case False
        have "region 1 va \<noteq> region 1 (?p + of_nat off)" if "off < unat (len - ?p)" for off
          by (rule page_outside[of "n * 0x200000" "unat len"]) (use that False va ur pos nr(1) len in \<open>auto simp: word_less_nat_alt mod_eq_0_iff_dvd\<close>)
        then have "leaf (vmem s2) 4 cr3 va = leaf (vmem s1) 4 cr3 va" using f(4) by (simp add: range_mapped_def)
        then show ?thesis using False 2(6)[of va] 2(7)[of va] va nr(1)
          by (auto simp: translate_def PAGE_LEVEL_def word_less_nat_alt)
      qed
      then show thesis using that(2)[of ?s] 2(1,3) f fresh(4) by (simp add: unf vm_ok_def)
    qed
  qed
qed

end

section \<open>The leaf a walk finds\<close>

lemma find_loop_leaf:
  assumes "1 \<le> l"
  shows "\<exists>r. find_loop m l b va 1 = Inr r \<and> (found_leaf_pte m r \<longrightarrow> leaf m l b va = as_leaf (search_level r) (pt_read m (search_pte r))) \<and>
    (\<not> found_leaf_pte m r \<longrightarrow> leaf m l b va = None)"
  using assms
proof (induction l arbitrary: b)
  case (Suc l)
  let ?e = "m b (PGDIR_OFFSET va (Suc l))"
  show ?case
  proof (cases "is_table (Suc l) ?e")
    case True
    then have "1 \<le> l" "find_loop m (Suc l) b va 1 = find_loop m l (pt_next ?e) va 1" "leaf m (Suc l) b va = leaf m l (pt_next ?e) va"
      by (auto simp: is_table_def Let_def)
    with Suc.IH show ?thesis by simp
  next
    case False
    then show ?thesis
      by (auto simp: Let_def is_table_def found_leaf_pte_def found_huge_pte_def pt_read_def as_leaf_def pt_huge_def)
  qed
qed simp

lemma get_pte_leaf:
  obtains "get_pte m cr3 va = Inr None" "leaf m 4 cr3 va = None"
    | ptr l where "get_pte m cr3 va = Inr (Some ptr)" "leaf m 4 cr3 va = as_leaf l (pt_read m ptr)"
proof -
  obtain r where r: "find_loop m 4 cr3 va 1 = Inr r"
    "found_leaf_pte m r \<longrightarrow> leaf m 4 cr3 va = as_leaf (search_level r) (pt_read m (search_pte r))"
    "\<not> found_leaf_pte m r \<longrightarrow> leaf m 4 cr3 va = None"
    using find_loop_leaf[of 4 m cr3 va] by auto
  have g: "get_pte m cr3 va = Inr (if found_leaf_pte m r then Some (search_pte r) else None)"
    using r(1) by (simp add: get_pte_def find_pte_level_def PAGE_LEVEL_def)
  show ?thesis
  proof (cases "found_leaf_pte m r")
    case True
    with r(2) g that(2) show ?thesis by simp
  next
    case False
    with r(3) g that(1) show ?thesis by simp
  qed
qed

text \<open>One step of \<open>any_present_pages\<close>: stop at a mapped page, go on otherwise.\<close>

lemma any_present_step:
  assumes "cur < maxv"
  shows "any_present_loop m cr3 cur maxv =
    (if leaf m 4 cr3 cur \<noteq> None then Some (Inr True) else any_present_loop m cr3 (cur + 4096) maxv)"
proof (cases rule: get_pte_leaf[of m cr3 cur])
  case 1
  then show ?thesis using assms by (subst any_present_loop.simps) simp
next
  case (2 ptr l)
  then show ?thesis using assms by (subst any_present_loop.simps) (simp add: as_leaf_def)
qed

lemma any_present_loop_eq:
  assumes "unat maxv \<le> unat cur + n * 4096" "unat maxv + 4096 \<le> 2 ^ 64"
  shows "any_present_loop m cr3 cur maxv =
    Some (Inr (\<exists>k. unat cur + k * 4096 < unat maxv \<and> leaf m 4 cr3 (cur + of_nat (k * 4096)) \<noteq> None))"
  using assms(1)
proof (induction n arbitrary: cur)
  case 0
  then have "\<not> cur < maxv" by (simp add: word_less_nat_alt)
  then show ?case using 0 by (subst any_present_loop.simps) auto
next
  case (Suc n)
  show ?case
  proof (cases "cur < maxv")
    case False
    then show ?thesis by (subst any_present_loop.simps) (auto simp: word_less_nat_alt)
  next
    case True
    then have u: "unat (cur + 4096) = unat cur + 4096"
      using assms(2) by (subst unat_word_ariths) (simp add: take_bit_eq_mod word_less_nat_alt)
    let ?P = "\<lambda>c k. unat c + k * 4096 < unat maxv \<and> leaf m 4 cr3 (c + of_nat (k * 4096)) \<noteq> None"
    have shift: "?P cur (Suc k) \<longleftrightarrow> ?P (cur + 4096) k" for k
      using u by (simp add: algebra_simps)
    have "(\<exists>k. ?P cur k) \<longleftrightarrow> ?P cur 0 \<or> (\<exists>k. ?P cur (Suc k))" by (metis not0_implies_Suc)
    also have "\<dots> \<longleftrightarrow> leaf m 4 cr3 cur \<noteq> None \<or> (\<exists>k. ?P (cur + 4096) k)"
      using True shift by (simp add: word_less_nat_alt)
    finally have ex: "(\<exists>k. ?P cur k) \<longleftrightarrow> leaf m 4 cr3 cur \<noteq> None \<or> (\<exists>k. ?P (cur + 4096) k)" .
    have "any_present_loop m cr3 (cur + 4096) maxv = Some (Inr (\<exists>k. ?P (cur + 4096) k))"
      by (rule Suc.IH) (use Suc.prems u in simp)
    then show ?thesis unfolding ex any_present_step[OF True] by simp
  qed
qed

section \<open>Installing one entry\<close>

text \<open>
  C15: on a tree of tables, with the entry to install a leaf (or not present) and no larger page
  in the way, \<open>install_pte\<close> is the update of one region of the mapping: the addresses of the
  region of \<open>va\<close> get the new entry, every other address keeps its leaf, and the tables stay a tree
  apart from the free pages. It fails only when the allocator is exhausted before it has
  supplied the tables of the levels between 4 and that of the entry, one for each at most.
\<close>

theorem install_pte_refines:
  assumes "vm_ok page_inv page_free s 4 cr3" "1 \<le> k" "k \<le> 4" "\<not> is_table k pte"
    and "\<forall>j e. leaf (vmem s) 4 cr3 va = Some (j, e) \<longrightarrow> j \<le> k"
  shows "case install_pte alloc_page s cr3 k va pte 0 of
      Inl err \<Rightarrow> out_of_pages alloc_page (4 - k) (palloc s) err
    | Inr (ptr, s') \<Rightarrow> pt_read (vmem s') ptr = pte \<and> vm_ok page_inv page_free s' 4 cr3 \<and>
        (\<forall>va'. leaf (vmem s') 4 cr3 va' =
          (if region k va' = region k va then as_leaf k pte else leaf (vmem s) 4 cr3 va'))"
proof -
  have inv: "page_inv (palloc s)" using assms(1) by (simp add: vm_ok_def)
  consider e where "install_pte alloc_page s cr3 k va pte 0 = Inl e" | ptr s' where "install_pte alloc_page s cr3 k va pte 0 = Inr (ptr, s')"
    by (cases "install_pte alloc_page s cr3 k va pte 0") auto
  then show ?thesis
  proof cases
    case 1
    then show ?thesis
      using pt_pages.install_loop_total[OF inv assms(2,3), of cr3 va pte] by (auto simp: install_pte_def PAGE_LEVEL_def out_of_pages_def)
  next
    case 2
    have post: "install_post page_inv page_free s 4 cr3 k va pte s'"
      by (rule pt_pages.install_pte_correct[OF assms 2])
    have "pt_read (vmem s') ptr = pte" using 2 by (auto simp: install_pte_def dest: install_loop_ptr)
    with post pt_pages.vm_ok_install[OF assms(1) post] 2 show ?thesis
      using same_path_region[OF assms(2,3)] by (auto simp: install_post_def installed_def)
  qed
qed

text \<open>A machine whose allocator has four pages, with an empty top-level table.\<close>

definition mmu_state :: "alloc_state vm_state" where
  "mmu_state = \<lparr>vmem = (\<lambda>_ _. 0), palloc = small_state, pte_opt_mask = PT_USER_MASK\<rparr>"

lemma small_avail: "avail small_state = {4..<8}"
proof -
  have I: "alloc_inv (\<lambda>_. []) boot_state" and e: "avail boot_state = {}"
    using alloc_inv_empty[of boot_state] by (simp_all add: boot_state_def MAX_AREAS_def)
  have "no_overlap boot_state (new_area boot_state 3 8) 3 8" by (simp add: no_overlap_def boot_state_def)
  moreover have "init_table_size 3 8 = 1" by (simp add: init_table_size_def PAGE_SIZE_def)
  ultimately show ?thesis
    using init_area_correct[OF I, of 0 8 3] e small_state_eq by (auto simp: boot_state_def MAX_AREAS_def NLISTS_eq)
qed

lemma small_page_inv: "page_inv small_state" "q \<in> page_free small_state \<Longrightarrow> 0x4000 \<le> unat q"
proof -
  show "page_inv small_state" using small_state_inv small_avail by (auto simp: page_inv_def)
  assume "q \<in> page_free small_state"
  then obtain p where "q = of_nat (p * PAGE_SIZE)" "p \<in> {4..<8}" by (auto simp: page_free_def small_avail)
  then show "0x4000 \<le> unat q" using page_of_nat(1)[of p] by (simp add: PAGE_SIZE_def)
qed

lemma user_flags_ok: "table_flags_ok PT_USER_MASK"
proof -
  have u: "bit PT_USER_MASK i \<longleftrightarrow> i = 2" for i by (simp only: PT_USER_MASK_def bit_push_bit_iff bit_1_iff) auto
  have "pt_next PT_USER_MASK = 0" by (rule bit_eqI) (auto simp: bit_pt_next u)
  then show ?thesis by (simp add: table_flags_ok_def u)
qed

lemma mmu_state_ok: "vm_ok page_inv page_free mmu_state 4 0x1000" "leaf (vmem mmu_state) 4 0x1000 va = None"
proof -
  note c = clear_table[of "vmem mmu_state" "0x1000" 4]
  have m: "vmem mmu_state 0x1000 = (\<lambda>_. 0)" by (simp add: mmu_state_def)
  have "0x1000 \<notin> page_free small_state" using small_page_inv(2)[of "0x1000"] by auto
  then have "tabs (vmem mmu_state) 4 0x1000 \<inter> page_free small_state = {}" using c(1)[OF m] by blast
  then show "vm_ok page_inv page_free mmu_state 4 0x1000"
    using c(2)[OF m] small_page_inv(1) user_flags_ok by (simp add: mmu_state_def vm_ok_def)
  show "leaf (vmem mmu_state) 4 0x1000 va = None" by (rule c(3)[OF m])
qed

theorem install_pte_refines_witness:
  "case install_pte alloc_page mmu_state 0x1000 2 0x40000000 0x83 0 of
      Inl err \<Rightarrow> out_of_pages alloc_page (4 - 2) (palloc mmu_state) err
    | Inr (ptr, s') \<Rightarrow> pt_read (vmem s') ptr = 0x83 \<and> vm_ok page_inv page_free s' 4 0x1000 \<and>
        (\<forall>va'. leaf (vmem s') 4 0x1000 va' =
          (if region 2 va' = region 2 0x40000000 then as_leaf 2 0x83 else leaf (vmem mmu_state) 4 0x1000 va'))"
proof (rule install_pte_refines[OF mmu_state_ok(1)])
  show "\<not> is_table 2 0x83" by (simp add: is_table_def pt_huge_def PT_PAGE_SIZE_MASK_def)
qed (simp_all add: mmu_state_ok(2))

section \<open>Ranges of pages\<close>

text \<open>
  C18: \<open>install_pages\<close> with aligned arguments, a physical range an entry can hold and no large page
  in the virtual range ends; every address of the virtual range then translates to the address
  at the same distance in the physical range, and addresses on other pages keep their leaf.
  It fails only when the allocator is exhausted before it has supplied three tables a page.
\<close>

theorem install_pages_maps:
  assumes "vm_ok page_inv page_free s 4 cr3" "unat phys mod 4096 = 0" "unat virt mod 4096 = 0" "unat len mod 4096 = 0"
    and "unat phys + unat len \<le> 2 ^ 52" "unat len \<le> 2 ^ 48"
    and "\<forall>off < unat len. \<forall>j e. leaf (vmem s) 4 cr3 (virt + of_nat off) = Some (j, e) \<longrightarrow> j \<le> 1"
  shows "\<exists>r. install_pages alloc_page s cr3 phys len virt = Some r \<and>
    (case r of Inl err \<Rightarrow> out_of_pages alloc_page (unat len div 4096 * 3) (palloc s) err
     | Inr s' \<Rightarrow> vm_ok page_inv page_free s' 4 cr3 \<and> range_mapped (vmem s) (vmem s') cr3 virt phys (unat len))"
  by (rule pt_pages.install_pages_correct[OF assms]) auto

theorem install_pages_maps_witness:
  "\<exists>r. install_pages alloc_page mmu_state 0x1000 0x8000 0x3000 0x7000 = Some r \<and>
    (case r of Inl err \<Rightarrow> out_of_pages alloc_page (unat (0x3000 :: u64) div 4096 * 3) (palloc mmu_state) err
     | Inr s' \<Rightarrow> vm_ok page_inv page_free s' 4 0x1000 \<and>
         range_mapped (vmem mmu_state) (vmem s') 0x1000 0x7000 0x8000 (unat (0x3000 :: u64)))"
  using install_pages_maps[OF mmu_state_ok(1), of "0x8000" "0x7000" "0x3000"] mmu_state_ok(2) by simp

text \<open>
  C17: on a cleared top-level table, \<open>setup_mmu_range\<close> from 0 with a page-aligned length of at most
  the 48-bit address space ends; it maps the addresses below the length to themselves, by large
  pages and by small pages behind the last large one, and no other address. It fails only
  when the allocator is exhausted before it has supplied \<open>setup_tables\<close> many tables.
\<close>

theorem setup_mmu_identity:
  assumes "page_inv (palloc s)" "vmem s cr3 = (\<lambda>_. 0)" "cr3 \<notin> page_free (palloc s)" "table_flags_ok (pte_opt_mask s)"
    and "unat len mod 4096 = 0" "unat len \<le> 2 ^ 48"
  shows "\<exists>r. setup_mmu_range alloc_page s cr3 0 len = Some r \<and>
    (case r of Inl err \<Rightarrow> out_of_pages alloc_page (setup_tables (unat len)) (palloc s) err
     | Inr s' \<Rightarrow> vm_ok page_inv page_free s' 4 cr3 \<and> pte_opt_mask s' = pte_opt_mask s \<and>
         (\<forall>va. unat va < 2 ^ 48 \<longrightarrow> translate (vmem s') cr3 va = (if va < len then Some va else None)))"
  by (rule pt_pages.setup_range_correct[OF assms]) auto

theorem setup_mmu_identity_witness:
  "\<exists>r. setup_mmu_range alloc_page mmu_state 0x1000 0 0x202000 = Some r \<and>
    (case r of Inl err \<Rightarrow> out_of_pages alloc_page (setup_tables (unat (0x202000 :: u64))) (palloc mmu_state) err
     | Inr s' \<Rightarrow> vm_ok page_inv page_free s' 4 0x1000 \<and> pte_opt_mask s' = pte_opt_mask mmu_state \<and>
         (\<forall>va. unat va < 2 ^ 48 \<longrightarrow> translate (vmem s') 0x1000 va = (if va < 0x202000 then Some va else None)))"
  by (rule setup_mmu_identity) (use small_page_inv(1) small_page_inv(2)[of "0x1000"] user_flags_ok in \<open>auto simp: mmu_state_def\<close>)

section \<open>Splitting large pages\<close>

text \<open>
  C16: when \<open>force_4k_page\<close> returns, no address has changed its translation, and an address that was
  mapped is mapped by a 4K page, whatever the size of the page before; the tables stay a tree.
\<close>

theorem force_4k_page_preserves:
  assumes "vm_ok page_inv page_free s 4 cr3" "leaves_aligned (vmem s) cr3" "force_4k_page alloc_page s cr3 addr = Inr s'"
  shows "vm_ok page_inv page_free s' 4 cr3 \<and> (\<forall>va. translate (vmem s') cr3 va = translate (vmem s) cr3 va) \<and>
    (translate (vmem s) cr3 addr \<noteq> None \<longrightarrow> (\<exists>e. leaf (vmem s') 4 cr3 addr = Some (1, e)))"
  using pt_pages.force_correct[OF assms] by blast

text \<open>The small machine with one 2M page at virtual address 0.\<close>

definition huge_mem :: ptmem where
  "huge_mem b i = (if i \<noteq> 0 then 0 else if b = 0x1000 then 0x2003 else if b = 0x2000 then 0x3003 else if b = 0x3000 then 0x83 else 0)"

definition huge_state :: "alloc_state vm_state" where
  "huge_state = mmu_state\<lparr>vmem := huge_mem\<rparr>"

lemma huge_entries:
  "is_table 4 (huge_mem 0x1000 i) \<longleftrightarrow> i = 0" "is_table 3 (huge_mem 0x2000 i) \<longleftrightarrow> i = 0" "\<not> is_table 2 (huge_mem 0x3000 i)"
  "pt_next (huge_mem 0x1000 0) = 0x2000" "pt_next (huge_mem 0x2000 0) = 0x3000"
  "pt_present (huge_mem 0x3000 i) \<longleftrightarrow> i = 0"
  by (auto simp: is_table_def huge_mem_def pt_present_def PT_PRESENT_MASK_def pt_huge_def PT_PAGE_SIZE_MASK_def pt_next_def
      PT_ADDR_MASK_def GENMASK_ULL_def PT_ADDR_UPPER_BOUND_def mask_eq_exp_minus_1)

lemma huge_tree: "tree huge_mem 4 0x1000" "tabs huge_mem 4 0x1000 = {0x1000, 0x2000, 0x3000}"
  "leaf huge_mem 4 0x1000 va = (if region 2 va = 0 then Some (2, 0x83) else None)"
proof -
  have lv: "Suc 1 = 2" "Suc 2 = 3" "Suc 3 = 4" by simp_all
  note at2 = tabs.simps(2)[of huge_mem 1, unfolded lv] tree.simps(2)[of huge_mem 1, unfolded lv] leaf.simps(2)[of huge_mem 1, unfolded lv]
  note at3 = tabs.simps(2)[of huge_mem 2, unfolded lv] tree.simps(2)[of huge_mem 2, unfolded lv] leaf.simps(2)[of huge_mem 2, unfolded lv]
  note at4 = tabs.simps(2)[of huge_mem 3, unfolded lv] tree.simps(2)[of huge_mem 3, unfolded lv] leaf.simps(2)[of huge_mem 3, unfolded lv]
  have 2: "tabs huge_mem 2 0x3000 = {0x3000}" "tree huge_mem 2 0x3000"
    by (simp_all add: at2 huge_entries)
  have 3: "tabs huge_mem 3 0x2000 = {0x2000, 0x3000}" "tree huge_mem 3 0x2000"
    using 2 by (auto simp: at3 huge_entries)
  show "tree huge_mem 4 0x1000" "tabs huge_mem 4 0x1000 = {0x1000, 0x2000, 0x3000}"
    using 3 by (auto simp: at4 huge_entries)
  have "same_path 2 4 0 va \<longleftrightarrow> PGDIR_OFFSET va 4 = 0 \<and> PGDIR_OFFSET va 3 = 0 \<and> PGDIR_OFFSET va 2 = 0"
  proof -
    have "2 \<le> i \<and> i \<le> 4 \<longleftrightarrow> i = 2 \<or> i = 3 \<or> i = 4" for i :: nat by auto
    then show ?thesis by (auto simp: same_path_def PGDIR_OFFSET_def)
  qed
  then have r: "region 2 va = 0 \<longleftrightarrow> PGDIR_OFFSET va 4 = 0 \<and> PGDIR_OFFSET va 3 = 0 \<and> PGDIR_OFFSET va 2 = 0"
    using same_path_region[of 2 0 va] by (auto simp: region_div)
  have z: "huge_mem b i = 0" if "i \<noteq> 0" for b i using that by (simp add: huge_mem_def)
  have nt: "\<not> is_table l 0" "\<not> pt_present 0" for l by (simp_all add: is_table_def pt_present_def)
  have "huge_mem 0x3000 0 = 0x83" by (simp add: huge_mem_def)
  moreover from this have "pt_present 0x83" "\<not> is_table 2 0x83" using huge_entries(3,6)[of 0] by auto
  ultimately show "leaf huge_mem 4 0x1000 va = (if region 2 va = 0 then Some (2, 0x83) else None)"
    unfolding r by (auto simp: at4 at3 at2 Let_def huge_entries nt z)
qed

lemma huge_83: "pt_next 0x83 = 0"
  by (simp add: pt_next_def PT_ADDR_MASK_def GENMASK_ULL_def PT_ADDR_UPPER_BOUND_def mask_eq_exp_minus_1)

lemma huge_state_ok: "vm_ok page_inv page_free huge_state 4 0x1000" "leaves_aligned (vmem huge_state) 0x1000"
proof -
  have "q \<notin> page_free small_state" if "q \<in> {0x1000, 0x2000, 0x3000}" for q
    using that small_page_inv(2)[of q] by auto
  then have "{0x1000, 0x2000, 0x3000} \<inter> page_free small_state = {}" by blast
  then show "vm_ok page_inv page_free huge_state 4 0x1000"
    using huge_tree(1,2) small_page_inv(1) user_flags_ok by (simp add: vm_ok_def huge_state_def mmu_state_def)
  show "leaves_aligned (vmem huge_state) 0x1000"
    using huge_83 by (auto simp: leaves_aligned_def leaf_aligned_def huge_state_def huge_tree(3) split: if_splits)
qed

lemma small_alloc_page: "\<exists>p a. alloc_page small_state = Inr (p, a) \<and> p \<noteq> 0"
proof -
  have "\<not> isl (alloc_page small_state)" by (simp add: alloc_eval cong: eval_cong)
  moreover have "fst (projr (alloc_page small_state)) \<noteq> 0" by (simp add: alloc_eval cong: eval_cong)
  ultimately show ?thesis by (metis prod.collapse sum.collapse(2))
qed

lemma huge_force: "\<exists>s'. force_4k_page alloc_page huge_state 0x1000 0x5000 = Inr s'"
proof -
  obtain p a where p: "alloc_page small_state = Inr (p, a)" "p \<noteq> 0" using small_alloc_page by blast
  have off: "PGDIR_OFFSET 0x5000 4 = 0" "PGDIR_OFFSET 0x5000 3 = 0" "PGDIR_OFFSET 0x5000 2 = 0"
    by (simp_all add: PGDIR_OFFSET_nat PGDIR_BITS_def PGDIR_WIDTH_def)
  have lv: "Suc 1 = 2" "Suc 2 = 3" "Suc 3 = 4" by simp_all
  note fl = find_loop.simps(2)[of huge_mem 3, unfolded lv] find_loop.simps(2)[of huge_mem 2, unfolded lv] find_loop.simps(2)[of huge_mem 1, unfolded lv]
  have e: "huge_mem 0x1000 0 = 0x2003" "huge_mem 0x2000 0 = 0x3003" "huge_mem 0x3000 0 = 0x83" by (simp_all add: huge_mem_def)
  have n: "pt_next 0x2003 = 0x2000" "pt_next 0x3003 = 0x3000" using huge_entries(4,5) e by simp_all
  have b: "pt_present 0x2003" "pt_present 0x3003" "pt_present 0x83" "\<not> pt_huge 4 0x2003" "\<not> pt_huge 3 0x3003"
    by (simp_all add: pt_present_def pt_huge_def PT_PRESENT_MASK_def PT_PAGE_SIZE_MASK_def)
  have f: "find_loop huge_mem 4 0x1000 0x5000 3 = Inr \<lparr>search_level = 3, search_pte = (0x2000, 0)\<rparr>"
      "find_loop huge_mem 4 0x1000 0x5000 2 = Inr \<lparr>search_level = 2, search_pte = (0x3000, 0)\<rparr>"
    by (simp_all add: fl off e n b Let_def)
  show ?thesis
    using p by (simp add: force_4k_page_def force_split_def get_pte_level_def find_pte_level_def PAGE_LEVEL_def huge_state_def
        mmu_state_def f pt_read_def e split_large_page_def Let_def PT_PRESENT_MASK_def PT_PAGE_SIZE_MASK_def)
qed

theorem force_4k_page_preserves_witness:
  "\<exists>s'. force_4k_page alloc_page huge_state 0x1000 0x5000 = Inr s' \<and>
    (\<forall>va. translate (vmem s') 0x1000 va = translate (vmem huge_state) 0x1000 va) \<and> (\<exists>e. leaf (vmem s') 4 0x1000 0x5000 = Some (1, e))"
proof -
  obtain s' where s': "force_4k_page alloc_page huge_state 0x1000 0x5000 = Inr s'" using huge_force by blast
  have "translate (vmem huge_state) 0x1000 0x5000 \<noteq> None"
    by (simp add: translate_def PAGE_LEVEL_def huge_state_def huge_tree(3) region_div PGDIR_BITS_simps)
  with force_4k_page_preserves[OF huge_state_ok s'] s' show ?thesis by blast
qed

section \<open>Looking up an address\<close>

lemma virt_to_pte_phys_leaf:
  assumes "leaf m 4 cr3 va = Some (l, e)" "leaf_aligned l e"
  shows "\<exists>pa. translate m cr3 va = Some pa \<and> virt_to_pte_phys m cr3 va = Inr (pa AND (NOT (mask (PGDIR_BITS l)) OR mask 12)) \<and>
    (l = 1 \<longrightarrow> virt_to_pte_phys m cr3 va = Inr pa)"
proof -
  let ?B = "PGDIR_BITS l" and ?pa = "pt_next e OR take_bit (PGDIR_BITS l) va"
  have l: "1 \<le> l" "l \<le> 4" using leaf_pos[OF assms(1)] leaf_level[OF assms(1)] by auto
  note B = PGDIR_BITS_le[OF l]
  have al: "pt_next e AND NOT (mask ?B) = pt_next e"
    using page_address[of "pt_next e" ?B 0] assms(2) unat_pt_next[of e] B by (simp add: leaf_aligned_def pt_next_def and.assoc)
  then have tr: "translate m cr3 va = Some ?pa" using assms(1) by (simp add: translate_def PAGE_LEVEL_def)
  have hi: "bit (pt_next e) i \<Longrightarrow> ?B \<le> i" for i using arg_cong[OF al, of "\<lambda>w. bit w i"] by (auto simp: bit_simps)
  have "pt_next e AND take_bit 12 va = 0" by (rule bit_eqI) (auto simp: bit_simps bit_pt_next)
  then have add: "pt_next e + take_bit 12 va = pt_next e OR take_bit 12 va" by (simp add: disjunctive_add_eq_or)
  have v: "virt_to_pte_phys m cr3 va = Inr (pt_next e + take_bit 12 va)"
    using assms(1) by (cases rule: get_pte_leaf[of m cr3 va])
      (auto simp: virt_to_pte_phys_def as_leaf_def pt_next_def take_bit_eq_mask mask_eq_exp_minus_1 split: if_splits)
  have "pt_next e OR take_bit 12 va = ?pa AND (NOT (mask ?B) OR mask 12)"
    by (rule bit_eqI) (use B in \<open>auto simp: bit_simps dest: hi\<close>)
  moreover have "pt_next e OR take_bit 12 va = ?pa" if "l = 1" using that by (simp add: PGDIR_BITS_simps)
  ultimately show ?thesis using tr v add by metis
qed

text \<open>
  C32: for a mapped address \<open>virt_to_pte_phys\<close> returns the physical address with the bits between
  the 4K page and the actual page cleared. On a 4K page this is the translation; on a large
  page the part of the offset above 4K is lost, although the declaration in \<open>vmalloc.h\<close>
  promises the physical address.
\<close>

theorem virt_to_pte_phys_offset:
  assumes "leaf m 4 cr3 va = Some (l, e)" "leaf_aligned l e"
  shows "\<exists>pa. translate m cr3 va = Some pa \<and> virt_to_pte_phys m cr3 va = Inr (pa AND (NOT (mask (PGDIR_BITS l)) OR mask 12)) \<and>
    (l = 1 \<longrightarrow> virt_to_pte_phys m cr3 va = Inr pa)"
  by (rule virt_to_pte_phys_leaf[OF assms])

theorem virt_to_pte_phys_offset_witness:
  "\<exists>pa. translate huge_mem 0x1000 0x5123 = Some pa \<and> pa = 0x5123 \<and> virt_to_pte_phys huge_mem 0x1000 0x5123 = Inr 0x123"
proof -
  have l: "leaf huge_mem 4 0x1000 0x5123 = Some (2, 0x83)" by (simp add: huge_tree(3) region_div PGDIR_BITS_simps)
  have "translate huge_mem 0x1000 0x5123 = Some 0x5123"
    using l huge_83 by (simp add: translate_def PAGE_LEVEL_def PGDIR_BITS_simps take_bit_eq_mask mask_eq_exp_minus_1)
  moreover have "leaf_aligned 2 0x83" using huge_83 by (simp add: leaf_aligned_def)
  ultimately show ?thesis
    using virt_to_pte_phys_offset[OF l] by (auto simp: PGDIR_BITS_simps mask_eq_exp_minus_1)
qed

text \<open>
  C31: \<open>any_present_pages\<close> on a range that ends at least a page below the end of the address space
  terminates, and tells whether one of the pages at \<open>virt\<close>, \<open>virt + 4K\<close>, ... is mapped.
\<close>

theorem any_present_pages_terminates:
  assumes "unat virt + unat len + 4096 \<le> 2 ^ 64"
  shows "any_present_pages m cr3 virt len =
    Some (Inr (\<exists>k. k * 4096 < unat len \<and> leaf m 4 cr3 (virt + of_nat (k * 4096)) \<noteq> None))"
proof -
  have u: "unat (virt + len) = unat virt + unat len"
    using assms by (subst unat_word_ariths) (simp add: take_bit_eq_mod)
  have "unat len \<le> Suc (unat len div 4096) * 4096" using div_mult_mod_eq[of "unat len" 4096] mod_less_divisor[of 4096 "unat len"] by simp
  with any_present_loop_eq[of "virt + len" virt "Suc (unat len div 4096)" m cr3] u assms
  show ?thesis by (simp add: any_present_pages_def)
qed

theorem any_present_pages_terminates_witness:
  "any_present_pages huge_mem 0x1000 0x40000000 0x2000 = Some (Inr False) \<and>
   any_present_pages huge_mem 0x1000 0x1ff000 0x2000 = Some (Inr True)"
proof -
  have k: "(\<exists>k. k * 4096 < unat (0x2000 :: u64) \<and> P (k * 4096)) \<longleftrightarrow> P 0 \<or> P 4096" for P :: "nat \<Rightarrow> bool"
  proof -
    have "k * 4096 < unat (0x2000 :: u64) \<longleftrightarrow> k = 0 \<or> k = 1" for k :: nat by auto
    then show ?thesis by (simp add: conj_disj_distribR ex_disj_distrib)
  qed
  have l: "leaf huge_mem 4 0x1000 va \<noteq> None \<longleftrightarrow> region 2 va = 0" for va by (simp add: huge_tree(3))
  note a = any_present_pages_terminates[of _ "0x2000" huge_mem "0x1000", unfolded l k[where P = "\<lambda>n. region 2 (v + of_nat n) = 0" for v]]
  show ?thesis using a[of "0x40000000"] a[of "0x1ff000"] by (simp add: region_div PGDIR_BITS_simps)
qed

end
