(* ===== verification/Vmalloc.thy ===== *)
theory Vmalloc
  imports Alloc X86Mmu
begin

text \<open>
  \<open>lib/vmalloc.c\<close> and \<open>setup_mmu\<close> of \<open>lib/x86/vm.c\<close>: the allocator of virtual memory, on top of the
  page allocator and the page tables, and the steps that enable it. Virtual pages are handed
  out downwards from \<open>vfree_top\<close> and are never reused; each is backed by a page of the page
  allocator. The magic number and the metadata are words in those pages, accessed through the
  page tables that \<open>cr3\<close> points to.
\<close>

section \<open>State\<close>

text \<open>What \<open>alloc_ops\<close> points to.\<close>

datatype ops_ptr = EarlyAllocOps | PageAllocOps | VmallocOps

text \<open>
  \<open>vm\<close> holds the page tables and the page allocator, \<open>phys\<close> the early allocator; \<open>cr0\<close> and \<open>cr3\<close>
  are the registers of the boot processor.
\<close>

record vmalloc_state =
  vm :: "alloc_state vm_state"
  vfree_top :: u64
  page_root :: u64
  alloc_ops_ptr :: ops_ptr
  phys :: phys_state
  cr0 :: u64
  cr3 :: u64

section \<open>Words in memory\<close>

text \<open>An \<open>unsigned long\<close> in the bytes of physical memory, little-endian.\<close>

fun load_bytes :: "nat \<Rightarrow> (nat \<Rightarrow> u8) \<Rightarrow> nat \<Rightarrow> u64" where
  "load_bytes 0 c a = 0"
| "load_bytes (Suc n) c a = ucast (c a) OR push_bit 8 (load_bytes n c (Suc a))"

definition store64 :: "(nat \<Rightarrow> u8) \<Rightarrow> nat \<Rightarrow> u64 \<Rightarrow> nat \<Rightarrow> u8" where
  "store64 c a w = (\<lambda>x. if a \<le> x \<and> x < a + 8 then ucast (drop_bit (8 * (x - a)) w) else c x)"

text \<open>
  Reading and writing at a virtual address; a misaligned access is undefined, an access to an
  address that is not mapped faults.
\<close>

definition vload :: "vmalloc_state \<Rightarrow> u64 \<Rightarrow> u64 res" where
  "vload s va = defined (IS_ALIGNED va 8)
     (case translate (vmem (vm s)) (cr3 s) va of
        None \<Rightarrow> Inl Fault
      | Some pa \<Rightarrow> Inr (load_bytes 8 (contents (palloc (vm s))) (unat pa)))"

definition vstore :: "vmalloc_state \<Rightarrow> u64 \<Rightarrow> u64 \<Rightarrow> vmalloc_state res" where
  "vstore s va w = defined (IS_ALIGNED va 8)
     (case translate (vmem (vm s)) (cr3 s) va of
        None \<Rightarrow> Inl Fault
      | Some pa \<Rightarrow>
          let a = palloc (vm s)
          in Inr (s\<lparr>vm := (vm s)\<lparr>palloc := a\<lparr>contents := store64 (contents a) (unat pa) w\<rparr>\<rparr>\<rparr>))"

section \<open>Virtual pages\<close>

definition VM_MAGIC :: u64 where
  "VM_MAGIC = 0x7E57C0DE"

text \<open>\<open>struct metadata\<close> has the number of pages at offset 0 and the magic number at offset 8.\<close>

definition GET_METADATA :: "u64 \<Rightarrow> u64" where
  "GET_METADATA x = x - 16"

text \<open>The address of \<open>GET_MAGIC(x)\<close>.\<close>

definition GET_MAGIC :: "u64 \<Rightarrow> u64" where
  "GET_MAGIC x = x - 8"

definition do_alloc_vpages :: "vmalloc_state \<Rightarrow> u64 \<Rightarrow> nat \<Rightarrow> bool \<Rightarrow> (u64 \<times> vmalloc_state) res" where
  "do_alloc_vpages s nr align_order metadata = defined (PAGE_SHIFT + align_order < 64)
     (let ptr = vfree_top s;
          ptr = ptr - 4096 * nr;
          ptr = ptr AND GENMASK_ULL 63 (PAGE_SHIFT + align_order);
          ptr = (if metadata then ptr - 4096 else ptr)
      in Inr (ptr, s\<lparr>vfree_top := ptr\<rparr>))"

definition alloc_vpages_aligned :: "vmalloc_state \<Rightarrow> u64 \<Rightarrow> nat \<Rightarrow> (u64 \<times> vmalloc_state) res" where
  "alloc_vpages_aligned s nr align_order = do_alloc_vpages s nr align_order False"

definition alloc_vpages :: "vmalloc_state \<Rightarrow> u64 \<Rightarrow> (u64 \<times> vmalloc_state) res" where
  "alloc_vpages s nr = alloc_vpages_aligned s nr 0"

definition alloc_vpage :: "vmalloc_state \<Rightarrow> (u64 \<times> vmalloc_state) res" where
  "alloc_vpage s = alloc_vpages s 1"

fun vmap_loop :: "nat \<Rightarrow> vmalloc_state \<Rightarrow> u64 \<Rightarrow> u64 \<Rightarrow> vmalloc_state res" where
  "vmap_loop 0 s phy p = Inr s"
| "vmap_loop (Suc pages) s phy p =
     bind_res (install_page alloc_page (vm s) (page_root s) phy p) (\<lambda>(_, v).
     vmap_loop pages (s\<lparr>vm := v\<rparr>) (phy + 4096) (p + 4096))"

definition vmap :: "vmalloc_state \<Rightarrow> u64 \<Rightarrow> u64 \<Rightarrow> (u64 \<times> vmalloc_state) res" where
  "vmap s phy sz =
     (let sz = PAGE_ALIGN sz; pages = sz div 4096 in
      bind_res (alloc_vpages s pages) (\<lambda>(mem, s).
      bind_res (vmap_loop (unat pages) s (phy AND NOT (4096 - 1)) mem) (\<lambda>s.
      Inr (mem, s))))"

section \<open>Allocation\<close>

text \<open>\<open>virt_to_phys\<close> and \<open>phys_to_virt\<close> are the identity; \<open>NULL\<close> is 0.\<close>

definition vm_alloc_one_page :: "vmalloc_state \<Rightarrow> u64 \<Rightarrow> (u64 \<times> vmalloc_state) res" where
  "vm_alloc_one_page s alignment =
     require (alignment \<ge> 8) (require (alignment < 4096)
       (bind_res (alloc_vpage s) (\<lambda>(p, s).
        bind_res (alloc_page (palloc (vm s))) (\<lambda>(pg, a).
        bind_res (install_page alloc_page ((vm s)\<lparr>palloc := a\<rparr>) (page_root s) (of_nat pg) p) (\<lambda>(_, v).
        let p = p + alignment in
        bind_res (vstore (s\<lparr>vm := v\<rparr>) (GET_MAGIC p) VM_MAGIC) (\<lambda>s.
        Inr (p, s)))))))"

text \<open>The loop that backs \<open>n\<close> virtual pages from \<open>p\<close> on.\<close>

fun back_pages :: "nat \<Rightarrow> vmalloc_state \<Rightarrow> u64 \<Rightarrow> vmalloc_state res" where
  "back_pages 0 s p = Inr s"
| "back_pages (Suc n) s p =
     bind_res (alloc_page (palloc (vm s))) (\<lambda>(pg, a).
     let pa = of_nat pg in
     require (pa \<noteq> 0)
       (bind_res (install_page alloc_page ((vm s)\<lparr>palloc := a\<rparr>) (page_root s) pa p) (\<lambda>(_, v).
        back_pages n (s\<lparr>vm := v\<rparr>) (p + 4096))))"

definition vm_memalign :: "vmalloc_state \<Rightarrow> u64 \<Rightarrow> u64 \<Rightarrow> (nat \<times> vmalloc_state) res" where
  "vm_memalign s alignment sz =
     (if sz = 0 then Inr (0, s)
      else require (is_power_of_2 alignment)
        (let alignment = (if alignment < 8 then 8 else alignment) in
         if alignment + sz \<le> 4096 then
           bind_res (vm_alloc_one_page s alignment) (\<lambda>(p, s). Inr (unat p, s))
         else
           let sz = PAGE_ALIGN sz div 4096;
               order = get_order (PAGE_ALIGN alignment div 4096) in
           bind_res (do_alloc_vpages s sz order True) (\<lambda>(p, s).
           let mem = p + 4096 in
           bind_res (back_pages (Suc (unat sz)) s p) (\<lambda>s.
           let m = GET_METADATA mem in
           bind_res (vstore s m sz) (\<lambda>s.
           bind_res (vstore s (m + 8) VM_MAGIC) (\<lambda>s.
           Inr (unat mem, s)))))))"

section \<open>Release\<close>

definition free_vpage :: "vmalloc_state \<Rightarrow> u64 \<Rightarrow> vmalloc_state res" where
  "free_vpage s va =
     bind_res (virt_to_pte_phys (vmem (vm s)) (page_root s) va) (\<lambda>pa.
     let page = pa AND PAGE_MASK in
     require (page \<noteq> 0)
       (bind_res (free_page (palloc (vm s)) (unat page)) (\<lambda>a.
        Inr (s\<lparr>vm := (vm s)\<lparr>palloc := a\<rparr>\<rparr>))))"

text \<open>The loop reads \<open>m->npages\<close> again in every round.\<close>

function vm_free_loop :: "vmalloc_state \<Rightarrow> u64 \<Rightarrow> u64 \<Rightarrow> u64 \<Rightarrow> vmalloc_state res" where
  "vm_free_loop s m i ptr =
     bind_res (vload s m) (\<lambda>npages.
       if i < npages + 1 then bind_res (free_vpage s ptr) (\<lambda>s. vm_free_loop s m (i + 1) (ptr + 4096))
       else Inr s)"
  by pat_completeness auto
termination
proof (relation "measure (\<lambda>(s, m, i, ptr). 2 ^ 64 - unat i)")
  fix s m and i ptr npages :: u64 and s'
  assume "i < npages + 1"
  then have "unat i < unat (npages + 1)" by (simp add: word_less_nat_alt)
  then have "unat i + 1 < 2 ^ 64" using unsigned_less[of "npages + 1", where ?'a = nat] by simp
  then have "unat (i + 1) = unat i + 1" by (simp add: unat_word_ariths)
  then show "((s', m, i + 1, ptr + 4096), (s, m, i, ptr)) \<in> measure (\<lambda>(s, m, i, ptr). 2 ^ 64 - unat i)"
    using \<open>unat i + 1 < 2 ^ 64\<close> by simp
qed simp

declare vm_free_loop.simps [simp del]

definition vm_free :: "vmalloc_state \<Rightarrow> nat \<Rightarrow> vmalloc_state res" where
  "vm_free s mem =
     (let mem = of_nat mem :: u64 in
      if mem = 0 then Inr s
      else if \<not> IS_ALIGNED mem 4096 then
        bind_res (vload s (GET_MAGIC mem)) (\<lambda>magic.
        require (magic = VM_MAGIC) (free_vpage s mem))
      else
        let m = GET_METADATA mem in
        bind_res (vload s (m + 8)) (\<lambda>magic.
        require (magic = VM_MAGIC)
          (bind_res (vload s m) (\<lambda>npages.
           require (npages > 0) (require (npages < push_bit (64 - PAGE_SHIFT) 1)
             (vm_free_loop s m 0 (m AND PAGE_MASK)))))))"

definition vmalloc_ops :: "vmalloc_state alloc_ops" where
  "vmalloc_ops = \<lparr>op_memalign = Some vm_memalign, op_free = Some vm_free\<rparr>"

section \<open>Setup\<close>

definition init_alloc_vpage :: "vmalloc_state \<Rightarrow> u64 \<Rightarrow> vmalloc_state res" where
  "init_alloc_vpage s tp = require (alloc_ops_ptr s \<noteq> VmallocOps) (Inr (s\<lparr>vfree_top := tp\<rparr>))"

text \<open>
  \<open>opt_mask\<close> is the value the pointer refers to, if it is not null. Clearing a page at \<open>NULL\<close> is
  undefined. The output and the copies of the registers to the other processors are left out.
\<close>

definition setup_mmu :: "vmalloc_state \<Rightarrow> u64 \<Rightarrow> u64 option \<Rightarrow> (u64 \<times> vmalloc_state) res option" where
  "setup_mmu s end_of_memory opt_mask =
     (case alloc_page (palloc (vm s)) of
        Inl e \<Rightarrow> Some (Inl e)
      | Inr (pg, a) \<Rightarrow>
          let root = of_nat pg;
              v = (vm s)\<lparr>palloc := a, pte_opt_mask := (case opt_mask of Some f \<Rightarrow> f | None \<Rightarrow> PT_USER_MASK)\<rparr> in
          if root = 0 then Some (Inl Undef)
          else
            let v = v\<lparr>vmem := pt_clear (vmem v) root\<rparr>;
                end_of_memory = (if end_of_memory < push_bit 32 1 then push_bit 32 1 else end_of_memory) in
            (case setup_mmu_range alloc_page v root 0 end_of_memory of
               None \<Rightarrow> None
             | Some r \<Rightarrow> Some (bind_res r (\<lambda>v.
                 bind_res (init_alloc_vpage (s\<lparr>vm := v\<rparr>) (NOT (4096 - 1))) (\<lambda>s.
                 Inr (root, s\<lparr>cr3 := root, cr0 := push_bit 31 1 OR push_bit 0 1 OR push_bit 16 1\<rparr>))))))"

text \<open>A frame range for the page allocator; \<open>AREA_ANY_NUMBER\<close> leaves the choice of the areas to it.\<close>

definition give_pages :: "vmalloc_state \<Rightarrow> u64 \<Rightarrow> u64 \<Rightarrow> vmalloc_state res" where
  "give_pages s b t =
     (let b = drop_bit PAGE_SHIFT (PAGE_ALIGN b); t = drop_bit PAGE_SHIFT t in
      bind_res (page_alloc_init_area (palloc (vm s)) AREA_ANY_NUMBER (unat b) (unat t)) (\<lambda>a.
      Inr (s\<lparr>vm := (vm s)\<lparr>palloc := a\<rparr>\<rparr>)))"

text \<open>
  Up to the call of \<open>setup_mmu\<close>. \<open>vm_available\<close> and \<open>find_highmem\<close> have their weak definitions, which
  x86 does not override: the first is true and the second does nothing.
\<close>

definition setup_vm_low :: "vmalloc_state \<Rightarrow> vmalloc_state res" where
  "setup_vm_low s =
     bind_res (phys_alloc_get_unused (phys s)) (\<lambda>(b, t, ph).
     let s = s\<lparr>phys := ph\<rparr> in
     require (b \<noteq> t \<or> page_alloc_initialized (palloc (vm s)))
       (if \<not> page_alloc_initialized (palloc (vm s)) then
          bind_res (give_pages s b t) (\<lambda>s. Inr (s\<lparr>alloc_ops_ptr := PageAllocOps\<rparr>))
        else Inr s))"

definition setup_vm_high :: "vmalloc_state \<Rightarrow> u64 option \<Rightarrow> vmalloc_state res option" where
  "setup_vm_high s opaque =
     (case phys_alloc_get_unused (phys s) of
        Inl e \<Rightarrow> Some (Inl e)
      | Inr (b, t, ph) \<Rightarrow>
          (case setup_mmu (s\<lparr>phys := ph\<rparr>) t opaque of
             None \<Rightarrow> None
           | Some r \<Rightarrow> Some (bind_res r (\<lambda>(root, s).
               let s = s\<lparr>page_root := root\<rparr> in
               bind_res (if b \<noteq> t then give_pages s b t else Inr s) (\<lambda>s.
               require (alloc_ops_ptr s \<noteq> VmallocOps) (Inr (s\<lparr>alloc_ops_ptr := VmallocOps\<rparr>)))))))"

definition setup_vm_opaque :: "vmalloc_state \<Rightarrow> u64 option \<Rightarrow> vmalloc_state res option" where
  "setup_vm_opaque s opaque =
     (if alloc_ops_ptr s = VmallocOps then Some (Inr s)
      else case setup_vm_low s of
        Inl e \<Rightarrow> Some (Inl e)
      | Inr s \<Rightarrow> setup_vm_high s opaque)"

definition setup_vm :: "vmalloc_state \<Rightarrow> vmalloc_state res option" where
  "setup_vm s = setup_vm_opaque s None"

end
