(* ===== verification/VmallocPages.thy ===== *)
theory VmallocPages
  imports Vmalloc
begin

text \<open>
  Lemmas on the parts of \<open>lib/vmalloc.c\<close>: words in memory, what page requests leave alone,
  installing one page, backing a range of virtual pages and handing out virtual addresses.
\<close>

section \<open>Words in memory\<close>

lemma bit_load_bytes: "bit (load_bytes n c a) i \<longleftrightarrow> i < 8 * n \<and> i < 64 \<and> bit (c (a + i div 8)) (i mod 8)"
proof (induction n arbitrary: a i)
  case (Suc n)
  have b: "bit (c a) i \<Longrightarrow> i < 8" for i using bit_imp_le_length[of "c a" i] by simp
  show ?case
  proof (cases "i < 8")
    case True
    then show ?thesis by (auto simp: bit_simps)
  next
    case False
    then have "a + i div 8 = Suc a + (i - 8) div 8" "i mod 8 = (i - 8) mod 8"
      by (simp_all add: div_if[of i] mod_if[of i])
    then show ?thesis using False Suc.IH[of "Suc a" "i - 8"] b[of i] by (auto simp: bit_simps)
  qed
qed simp

lemma load_store: "load_bytes 8 (store64 c a w) a = w"
proof (rule bit_eqI)
  fix i assume "possible_bit TYPE(u64) i"
  then have "i < 64" by simp
  then obtain k r where i: "i = 8 * k + r" "r < 8" "k < 8"
    using mult_div_mod_eq[of 8 i] by (metis div_less_iff_less_mult mod_less_divisor zero_less_numeral mult_numeral_1 numeral_times_numeral semiring_norm(11,12,13))
  then show "bit (load_bytes 8 (store64 c a w) a) i = bit w i"
    by (simp add: bit_load_bytes store64_def bit_simps)
qed

lemma load_cong: "(\<And>x. a \<le> x \<Longrightarrow> x < a + n \<Longrightarrow> c x = c' x) \<Longrightarrow> load_bytes n c a = load_bytes n c' a"
  by (induction n arbitrary: a) simp_all

lemma load_store_other: "b + 8 \<le> a \<or> a + 8 \<le> b \<Longrightarrow> load_bytes 8 (store64 c a w) b = load_bytes 8 c b"
  by (rule load_cong) (auto simp: store64_def)

text \<open>An aligned word lies in one page.\<close>

lemma word_in_page:
  assumes "pa mod 8 = 0" "pa \<le> x" "x < pa + 8"
  shows "x div PAGE_SIZE = pa div PAGE_SIZE"
proof -
  have "8 * (pa div 8) = pa" using assms(1) by (simp add: mod_eq_0_iff_dvd)
  then have "x div 8 = pa div 8" using assms(2,3) by (intro div_nat_eqI) auto
  then show ?thesis using div_mult2_eq[of x 8 512] div_mult2_eq[of pa 8 512] by (simp only: PAGE_SIZE_def) simp
qed

section \<open>What page requests leave alone\<close>

definition keeps :: "alloc_state \<Rightarrow> alloc_state \<Rightarrow> bool" where
  "keeps a a' \<longleftrightarrow> avail a' \<subseteq> avail a \<and> (\<forall>q j. allocated a q j \<longrightarrow> allocated a' q j) \<and>
     (\<forall>x. x div PAGE_SIZE \<notin> avail a \<longrightarrow> contents a' x = contents a x)"

lemma keeps_refl: "keeps a a"
  by (simp add: keeps_def)

lemma keeps_trans: "keeps a b \<Longrightarrow> keeps b c \<Longrightarrow> keeps a c"
  unfolding keeps_def by (metis subsetD subset_trans)

lemma alloc_page_step:
  assumes "page_inv a" "alloc_page a = Inr (p, b)"
  obtains "p = 0" "b = a"
    | pfn where "p = pfn * PAGE_SIZE" "p \<noteq> 0" "keeps a b" "page_inv b" "0 < pfn" "pfn < 2 ^ 40" "pfn \<in> avail a"
        "avail b = avail a - {pfn}" "allocated b pfn 0"
proof -
  obtain F where "alloc_inv F a" using assms(1) by (auto simp: page_inv_def)
  then show thesis
  proof (cases rule: alloc_page_cases)
    case 1
    then show thesis using that(1) assms(2) by simp
  next
    case (2 pfn a' F')
    then have "a' = b" "p = pfn * PAGE_SIZE" using assms(2) by auto
    moreover have "keeps a a'" unfolding keeps_def using 2 by (metis Diff_subset)
    ultimately show thesis
      using 2 assms(1) by (intro that(2)[of pfn]) (auto simp: page_inv_def PAGE_SIZE_def)
  qed
qed

lemma drawn_keeps: "drawn alloc_page n a b \<Longrightarrow> page_inv a \<Longrightarrow> keeps a b \<and> page_inv b"
proof (induction rule: drawn.induct)
  case (drawn_Suc a p b n c)
  from drawn_Suc.prems drawn_Suc.hyps(1) show ?case
    by (cases rule: alloc_page_step) (use drawn_Suc keeps_trans in auto)
qed (simp add: keeps_refl)

section \<open>Addresses\<close>

text \<open>The addresses of the two halves of the address space that a walk tells apart.\<close>

abbreviation high_half :: nat where
  "high_half \<equiv> 2 ^ 64 - 2 ^ 47"

definition canonical :: "u64 \<Rightarrow> bool" where
  "canonical va \<longleftrightarrow> unat va < 2 ^ 47 \<or> high_half \<le> unat va"

definition vpn :: "u64 \<Rightarrow> nat" where
  "vpn va = unat va div 4096"

lemma canonical_mod: "canonical va \<Longrightarrow> unat va mod 2 ^ 48 = (if unat va < 2 ^ 47 then unat va else unat va - (2 ^ 64 - 2 ^ 48))"
proof (cases "unat va < 2 ^ 47")
  case False
  moreover assume "canonical va"
  ultimately have v: "high_half \<le> unat va" by (simp add: canonical_def)
  then have "unat va = (unat va - (2 ^ 64 - 2 ^ 48)) + (2 ^ 16 - 1) * 2 ^ 48" by simp
  then have "unat va mod 2 ^ 48 = (unat va - (2 ^ 64 - 2 ^ 48)) mod 2 ^ 48" by (metis mod_mult_self1)
  then show ?thesis using False v unat_lt64[of va] by simp
qed simp

lemma region_canonical:
  assumes "canonical x" "canonical y"
  shows "region 1 x = region 1 y \<longleftrightarrow> vpn x = vpn y"
proof -
  have r: "region 1 z = (if unat z < 2 ^ 47 then vpn z else vpn z - (2 ^ 52 - 2 ^ 36)) \<and> (unat z < 2 ^ 47 \<longrightarrow> vpn z < 2 ^ 35) \<and>
      (\<not> unat z < 2 ^ 47 \<longrightarrow> 2 ^ 52 - 2 ^ 35 \<le> vpn z)" if "canonical z" for z
    using that canonical_mod[OF that] by (auto simp: region_div PGDIR_BITS_simps vpn_def canonical_def)
  show ?thesis using r[OF assms(1)] r[OF assms(2)] by (auto split: if_splits)
qed

section \<open>Installing a page\<close>

definition page_entry :: "'s vm_state \<Rightarrow> nat \<Rightarrow> u64" where
  "page_entry v pfn = of_nat (pfn * PAGE_SIZE) OR ((PT_PRESENT_MASK OR PT_WRITABLE_MASK) OR pte_opt_mask v)"

lemma pt_next_page: "unat (pt_next e) mod 4096 = 0"
proof -
  have "take_bit 12 (pt_next e) = 0" by (rule bit_eqI) (auto simp: bit_take_bit_iff bit_pt_next)
  then have "unat (take_bit 12 (pt_next e)) = 0" by simp
  then show ?thesis by (simp add: take_bit_eq_mod unat_mod_distrib)
qed

lemma page_entry_translate:
  assumes "leaf m 4 root va = Some (1, page_entry v pfn)" "pfn < 2 ^ 40" "table_flags_ok (pte_opt_mask v)"
  shows "translate m root va = Some (of_nat (pfn * PAGE_SIZE + unat va mod 4096))"
    and "virt_to_pte_phys m root va = Inr (of_nat (pfn * PAGE_SIZE + unat va mod 4096))"
proof -
  let ?p = "of_nat (pfn * PAGE_SIZE) :: u64"
  have p: "unat ?p = 2 ^ 12 * pfn" using page_of_nat(1)[OF assms(2)] by (simp add: PAGE_SIZE_def)
  have "pt_next ((PT_PRESENT_MASK OR PT_WRITABLE_MASK) OR pte_opt_mask v) = 0"
    using leaf_flags(1) assms(3) by (simp add: pt_next_def bit.conj_disj_distrib2 table_flags_ok_def)
  then have a: "pt_next (page_entry v pfn) AND NOT (mask 12) = ?p"
    unfolding page_entry_def by (intro page_address) (use p assms(2) in simp_all)
  have t: "take_bit 12 va = of_nat (unat va mod 4096)" by (simp add: word_unat_eq_iff unat_take_bit take_bit_eq_mod unsigned_of_nat unat_mod_distrib)
  have "?p OR of_nat (unat va mod 4096) = ?p + of_nat (unat va mod 4096)" by (rule aligned_add(2)[OF p]) simp
  then show tr: "translate m root va = Some (of_nat (pfn * PAGE_SIZE + unat va mod 4096))"
    using assms(1) a t by (simp add: translate_def PAGE_LEVEL_def PGDIR_BITS_simps)
  have "leaf_aligned 1 (page_entry v pfn)"
    by (simp add: leaf_aligned_def PGDIR_BITS_simps pt_next_page)
  from virt_to_pte_phys_leaf[OF assms(1) this] tr
  show "virt_to_pte_phys m root va = Inr (of_nat (pfn * PAGE_SIZE + unat va mod 4096))" by auto
qed

text \<open>What operations on the tables and the allocator keep.\<close>

definition vm_step :: "u64 \<Rightarrow> alloc_state vm_state \<Rightarrow> alloc_state vm_state \<Rightarrow> bool" where
  "vm_step root v v' \<longleftrightarrow> vm_ok page_inv page_free v' 4 root \<and> pte_opt_mask v' = pte_opt_mask v \<and> keeps (palloc v) (palloc v') \<and>
     tabs (vmem v') 4 root \<subseteq> tabs (vmem v) 4 root \<union> page_free (palloc v)"

lemma page_free_mono: "avail a \<subseteq> avail b \<Longrightarrow> page_free a \<subseteq> page_free b"
  by (auto simp: page_free_def)

lemma vm_step_trans:
  assumes "vm_step root u v" "vm_step root v w"
  shows "vm_step root u w"
proof -
  have "page_free (palloc v) \<subseteq> page_free (palloc u)" using assms(1) page_free_mono by (simp add: vm_step_def keeps_def)
  then show ?thesis using assms by (auto simp: vm_step_def intro: keeps_trans)
qed

lemma install_page_step:
  assumes "vm_ok page_inv page_free v 4 root" "\<forall>j e. leaf (vmem v) 4 root va = Some (j, e) \<longrightarrow> j \<le> 1"
    and "install_page alloc_page v root (of_nat (pfn * PAGE_SIZE)) va = Inr (ptr, v')"
  shows "vm_step root v v'"
    and "\<And>va'. leaf (vmem v') 4 root va' = (if region 1 va' = region 1 va then Some (1, page_entry v pfn) else leaf (vmem v) 4 root va')"
proof -
  note run = assms(3)[unfolded install_page_form page_entry_def[symmetric]]
  have pres: "pt_present (page_entry v pfn)" using leaf_flags(2) by (simp add: page_entry_def pt_present_bit bit_or_iff)
  have nt: "\<not> is_table 1 (page_entry v pfn)" by (simp add: is_table_def)
  have post: "install_post page_inv page_free v 4 root 1 va (page_entry v pfn) v'"
    by (rule pt_pages.install_pte_correct[OF assms(1) _ _ nt assms(2) run]) simp_all
  have inv: "page_inv (palloc v)" using assms(1) by (simp add: vm_ok_def)
  from pt_pages.install_loop_total[OF inv, of 1 4 root va "page_entry v pfn"] run
  obtain m where "drawn alloc_page m (palloc v) (palloc v')" by (auto simp: install_pte_def PAGE_LEVEL_def)
  then have "keeps (palloc v) (palloc v')" using drawn_keeps inv by blast
  then show "vm_step root v v'"
    using post pt_pages.vm_ok_install[OF assms(1) post] by (auto simp: vm_step_def install_post_def installed_def)
  show "leaf (vmem v') 4 root va' = (if region 1 va' = region 1 va then Some (1, page_entry v pfn) else leaf (vmem v) 4 root va')" for va'
    using post pres same_path_region[of 1 va va'] by (auto simp: install_post_def installed_def as_leaf_def)
qed

lemma install_page_error:
  assumes "page_inv (palloc v)" "install_page alloc_page v root pa va = Inl err"
  shows "out_of_pages alloc_page 3 (palloc v) err"
  using pt_pages.install_loop_total[OF assms(1), of 1 4 root va "pa OR ((PT_PRESENT_MASK OR PT_WRITABLE_MASK) OR pte_opt_mask v)"] assms(2)
  by (auto simp: install_page_form install_pte_def PAGE_LEVEL_def)

section \<open>Backing virtual pages\<close>

text \<open>
  Virtual pages from number \<open>P\<close> on are mapped to the frames \<open>ps\<close>, which have been taken from the
  allocator and are not tables; every other canonical address keeps its leaf.
\<close>

definition owned :: "u64 \<Rightarrow> alloc_state vm_state \<Rightarrow> nat \<Rightarrow> bool" where
  "owned root v q \<longleftrightarrow> 0 < q \<and> q < 2 ^ 40 \<and> allocated (palloc v) q 0 \<and> of_nat (q * PAGE_SIZE) \<notin> tabs (vmem v) 4 root"

definition back_post :: "u64 \<Rightarrow> alloc_state vm_state \<Rightarrow> nat \<Rightarrow> nat list \<Rightarrow> alloc_state vm_state \<Rightarrow> bool" where
  "back_post root v P ps v' \<longleftrightarrow> vm_step root v v' \<and> distinct ps \<and> set ps \<subseteq> avail (palloc v) \<and>
     (\<forall>q \<in> set ps. owned root v' q) \<and>
     (\<forall>va. canonical va \<longrightarrow> leaf (vmem v') 4 root va =
        (if P \<le> vpn va \<and> vpn va < P + length ps then Some (1, page_entry v (ps ! (vpn va - P))) else leaf (vmem v) 4 root va))"

lemma page_entry_cong: "pte_opt_mask v = pte_opt_mask v' \<Longrightarrow> page_entry v = page_entry v'"
  by (simp add: page_entry_def fun_eq_iff)

lemma page_free_iff: "page_inv a \<Longrightarrow> q < 2 ^ 40 \<Longrightarrow> of_nat (q * PAGE_SIZE) \<in> page_free a \<longleftrightarrow> q \<in> avail a"
proof
  assume a: "page_inv a" "q < 2 ^ 40" "of_nat (q * PAGE_SIZE) \<in> page_free a"
  then obtain r where r: "r \<in> avail a" "(of_nat (q * PAGE_SIZE) :: u64) = of_nat (r * PAGE_SIZE)" "r < 2 ^ 40"
    by (auto simp: page_free_def page_inv_def)
  then have "q * PAGE_SIZE = r * PAGE_SIZE" using page_of_nat(1)[OF a(2)] page_of_nat(1)[OF r(3)] by metis
  then show "q \<in> avail a" using r(1) by (simp add: PAGE_SIZE_def)
qed (auto simp: page_free_def)

lemma owned_not_avail: "vm_ok page_inv page_free v 4 root \<Longrightarrow> owned root v q \<Longrightarrow> q \<notin> avail (palloc v)"
  using allocated_not_avail[of _ "palloc v" q 0] by (auto simp: vm_ok_def page_inv_def owned_def)

text \<open>Pages that have been handed out stay so.\<close>

lemma owned_step:
  assumes "vm_ok page_inv page_free v 4 root" "owned root v q" "vm_step root v v'"
  shows "owned root v' q"
proof -
  have "of_nat (q * PAGE_SIZE) \<notin> page_free (palloc v)"
    using assms(1,2) page_free_iff owned_not_avail by (auto simp: vm_ok_def owned_def)
  then show ?thesis using assms(2,3) by (auto simp: owned_def vm_step_def keeps_def)
qed

lemma back_one:
  assumes ok: "vm_ok page_inv page_free v 4 root" and "canonical p" "\<forall>j e. leaf (vmem v) 4 root p = Some (j, e) \<longrightarrow> j \<le> 1"
    and al: "alloc_page (palloc v) = Inr (pg, a)" "pg \<noteq> 0"
    and run: "install_page alloc_page (v\<lparr>palloc := a\<rparr>) root (of_nat pg) p = Inr (ptr, v')"
  obtains q where "pg = q * PAGE_SIZE" "back_post root v (vpn p) [q] v'"
proof -
  have inv: "page_inv (palloc v)" using ok by (simp add: vm_ok_def)
  from inv al(1) show thesis
  proof (cases rule: alloc_page_step)
    case (2 q)
    let ?v = "v\<lparr>palloc := a\<rparr>"
    have fr: "page_free a \<subseteq> page_free (palloc v)" using 2(8) by (intro page_free_mono) blast
    have ok': "vm_ok page_inv page_free ?v 4 root" using ok 2(4) fr by (auto simp: vm_ok_def)
    have lf: "\<forall>j e. leaf (vmem ?v) 4 root p = Some (j, e) \<longrightarrow> j \<le> 1" using assms(3) by simp
    note st = install_page_step[OF ok' lf run[unfolded 2(1)]]
    have nt: "of_nat (q * PAGE_SIZE) \<notin> tabs (vmem v') 4 root"
      using st(1) ok page_free_iff[OF inv 2(6)] page_free_iff[OF 2(4) 2(6)] 2(7,8) by (auto simp: vm_step_def vm_ok_def)
    have "vm_step root v ?v" using ok' 2(3) by (simp add: vm_step_def)
    then have step: "vm_step root v v'" using st(1) by (rule vm_step_trans)
    have al': "allocated (palloc v') q 0" using st(1) 2(9) by (simp add: vm_step_def keeps_def)
    have "leaf (vmem v') 4 root va = (if vpn p \<le> vpn va \<and> vpn va < vpn p + length [q]
        then Some (1, page_entry v ([q] ! (vpn va - vpn p))) else leaf (vmem v) 4 root va)" if "canonical va" for va
      using st(2)[of va] region_canonical[OF that assms(2)] page_entry_cong[of ?v v] by (auto simp: le_less_Suc_eq)
    then have "back_post root v (vpn p) [q] v'" using step nt al' 2(5-7) by (simp add: back_post_def owned_def)
    then show thesis using that 2(1) by blast
  qed (use al in simp)
qed

lemma back_post_append:
  assumes ok: "vm_ok page_inv page_free v 4 root" and 1: "back_post root v P [q] v1" and 2: "back_post root v1 (Suc P) ps v2"
  shows "back_post root v P (q # ps) v2"
proof -
  have ok1: "vm_ok page_inv page_free v1 4 root" and own: "owned root v1 q" using 1 by (simp_all add: back_post_def vm_step_def)
  have s: "vm_step root v v1" "vm_step root v1 v2" using 1 2 by (simp_all add: back_post_def)
  have "q \<notin> avail (palloc v1)" by (rule owned_not_avail[OF ok1 own])
  then have d: "distinct (q # ps)" "set (q # ps) \<subseteq> avail (palloc v)" using 1 2 s(1) by (auto simp: back_post_def vm_step_def keeps_def)
  have e: "page_entry v1 = page_entry v" using s(1) by (intro page_entry_cong) (simp add: vm_step_def)
  have "leaf (vmem v2) 4 root va = (if P \<le> vpn va \<and> vpn va < P + length (q # ps)
      then Some (1, page_entry v ((q # ps) ! (vpn va - P))) else leaf (vmem v) 4 root va)" if "canonical va" for va
    using that 1 2 e by (auto simp: back_post_def nth_Cons' Suc_diff_Suc)
  then show ?thesis using vm_step_trans[OF s] d owned_step[OF ok1 own s(2)] 2 by (simp add: back_post_def)
qed

lemma page_next:
  assumes "unat p mod 4096 = 0" "unat p + 4096 < 2 ^ 64"
  shows "unat (p + 4096) = unat p + 4096" "vpn (p + 4096) = Suc (vpn p)"
  using assms by (simp_all add: unat_word_ariths vpn_def)

lemma back_pages_correct:
  assumes "vm_ok page_inv page_free (vm s) 4 (page_root s)" "unat p mod 4096 = 0" "high_half \<le> unat p" "unat p + n * 4096 < 2 ^ 64"
    and "\<And>va. canonical va \<Longrightarrow> vpn p \<le> vpn va \<Longrightarrow> vpn va < vpn p + n \<Longrightarrow> leaf (vmem (vm s)) 4 (page_root s) va = None"
    and "back_pages n s p = Inr s'"
  shows "\<exists>v ps. s' = s\<lparr>vm := v\<rparr> \<and> length ps = n \<and> back_post (page_root s) (vm s) (vpn p) ps v"
  using assms
proof (induction n arbitrary: s p)
  case 0
  then show ?case
    by (intro exI[of _ "vm s"] exI[of _ "[]"]) (auto simp: back_post_def vm_step_def keeps_refl)
next
  case (Suc n)
  let ?r = "page_root s"
  obtain pg a ptr v1 where al: "alloc_page (palloc (vm s)) = Inr (pg, a)" and nz: "(of_nat pg :: u64) \<noteq> 0"
    and run: "install_page alloc_page ((vm s)\<lparr>palloc := a\<rparr>) ?r (of_nat pg) p = Inr (ptr, v1)"
    and rest: "back_pages n (s\<lparr>vm := v1\<rparr>) (p + 4096) = Inr s'"
    using Suc.prems(6) by (auto simp: res_simps Let_def)
  have pg: "pg \<noteq> 0" using nz by (cases pg) auto
  have c: "canonical p" using Suc.prems(3) by (simp add: canonical_def)
  have nx: "unat (p + 4096) = unat p + 4096" "vpn (p + 4096) = Suc (vpn p)" using page_next[of p] Suc.prems(2,4) by auto
  obtain q where q: "back_post ?r (vm s) (vpn p) [q] v1"
    using back_one[OF Suc.prems(1) c _ al pg run] Suc.prems(5)[OF c] by auto
  have ok1: "vm_ok page_inv page_free v1 4 ?r" using q by (simp add: back_post_def vm_step_def)
  have lf: "leaf (vmem v1) 4 ?r va = None" if "canonical va" "Suc (vpn p) \<le> vpn va" "vpn va < Suc (vpn p) + n" for va
    using q Suc.prems(5)[of va] that by (simp add: back_post_def)
  have "\<exists>v ps. s' = s\<lparr>vm := v1\<rparr>\<lparr>vm := v\<rparr> \<and> length ps = n \<and> back_post ?r v1 (vpn (p + 4096)) ps v"
    using Suc.IH[of "s\<lparr>vm := v1\<rparr>" "p + 4096"] ok1 nx lf rest Suc.prems(2-4) by simp
  then obtain v ps where v: "s' = s\<lparr>vm := v\<rparr>" "length ps = n" "back_post ?r v1 (Suc (vpn p)) ps v" using nx by auto
  show ?case using v back_post_append[OF Suc.prems(1) q v(3)] by (intro exI[of _ v] exI[of _ "q # ps"]) simp
qed

text \<open>A page takes at most three tables besides itself.\<close>

lemma back_pages_error:
  assumes "page_inv (palloc (vm s))" "back_pages n s p = Inl err"
  shows "err \<in> {Undef, AssertFail} \<and> out_of_pages alloc_page (4 * n) (palloc (vm s)) Undef"
  using assms
proof (induction n arbitrary: s p)
  case (Suc n)
  obtain pg a where al: "alloc_page (palloc (vm s)) = Inr (pg, a)" using pt_pages.total[OF Suc.prems(1)] by blast
  from Suc.prems(1) al show ?case
  proof (cases rule: alloc_page_step)
    case 1
    then show ?thesis using Suc.prems(2) al by (auto simp: out_of_pages_def intro!: exI[of _ 0] drawn_0)
  next
    case (2 q)
    let ?v = "(vm s)\<lparr>palloc := a\<rparr>"
    have one: "drawn alloc_page 1 (palloc (vm s)) a" using drawn_Suc[of alloc_page, OF al 2(2) drawn_0] by simp
    have nz: "(of_nat pg :: u64) \<noteq> 0" using page_of_nat(1)[OF 2(6)] 2(1,2) by (metis unsigned_0)
    note l = pt_pages.install_loop_total[of ?v 1 4 "page_root s" p "of_nat pg OR ((PT_PRESENT_MASK OR PT_WRITABLE_MASK) OR pte_opt_mask (vm s))"]
    consider "install_page alloc_page ?v (page_root s) (of_nat pg) p = Inl err" |
      ptr v1 m where "install_page alloc_page ?v (page_root s) (of_nat pg) p = Inr (ptr, v1)" "m \<le> 3" "drawn alloc_page m a (palloc v1)"
        "back_pages n (s\<lparr>vm := v1\<rparr>) (p + 4096) = Inl err"
      using Suc.prems(2) al nz l 2(4) by (auto simp: res_simps install_page_form install_pte_def PAGE_LEVEL_def)
    then show ?thesis
    proof cases
      case 1
      have "out_of_pages alloc_page 3 a err" using install_page_error[of ?v, OF _ 1] 2(4) by simp
      moreover from this have "err = Undef" by (simp add: out_of_pages_def)
      ultimately show ?thesis using out_of_pages_later[OF one, of 3 err "4 * Suc n"] by simp
    next
      case (2 ptr v1 m)
      have "page_inv (palloc v1)" using drawn_keeps[OF 2(3)] \<open>page_inv a\<close> by simp
      then have "err \<in> {Undef, AssertFail} \<and> out_of_pages alloc_page (4 * n) (palloc v1) Undef"
        using Suc.IH[of "s\<lparr>vm := v1\<rparr>" "p + 4096"] 2(4) by simp
      then show ?thesis using out_of_pages_later[OF drawn_trans[OF one 2(3)], of "4 * n" Undef "4 * Suc n"] 2(2) by simp
    qed
  qed
qed simp

end
