(* ===== verification/VmallocInv.thy ===== *)
theory VmallocInv
  imports VmallocPages
begin

text \<open>
  The invariant of the virtual allocator and the blocks it has handed out: what both depend on,
  and that allocating and releasing virtual memory keep them.
\<close>

section \<open>Invariant and blocks\<close>

definition vm_inv :: "vmalloc_state \<Rightarrow> bool" where
  "vm_inv s \<longleftrightarrow> vm_ok page_inv page_free (vm s) 4 (page_root s) \<and> cr3 s = page_root s \<and>
     unat (vfree_top s) mod 4096 = 0 \<and> high_half \<le> unat (vfree_top s) \<and>
     (\<forall>va. high_half \<le> unat va \<and> vpn va < vpn (vfree_top s) \<longrightarrow> leaf (vmem (vm s)) 4 (page_root s) va = None)"

definition page_word :: "vmalloc_state \<Rightarrow> nat \<Rightarrow> nat \<Rightarrow> u64" where
  "page_word s q off = load_bytes 8 (contents (palloc (vm s))) (q * PAGE_SIZE + off)"

text \<open>
  A block at \<open>mem\<close>: its pages from the one that holds the magic number on, mapped to the frames \<open>ps\<close>.
  A page-aligned block has a page for its metadata first; any other block is a single page.
\<close>

definition vblock :: "vmalloc_state \<Rightarrow> nat \<Rightarrow> nat list \<Rightarrow> bool" where
  "vblock s mem ps \<longleftrightarrow>
     (let b = (mem - 1) div 4096 in
      ps \<noteq> [] \<and> distinct ps \<and> (\<forall>q \<in> set ps. owned (page_root s) (vm s) q) \<and>
      mem mod 8 = 0 \<and> 0 < mem \<and> vpn (vfree_top s) \<le> b \<and> (b + length ps) * 4096 < 2 ^ 64 \<and>
      (\<forall>va. b \<le> vpn va \<and> vpn va < b + length ps \<longrightarrow>
         leaf (vmem (vm s)) 4 (page_root s) va = Some (1, page_entry (vm s) (ps ! (vpn va - b)))) \<and>
      page_word s (hd ps) ((mem - 8) mod 4096) = VM_MAGIC \<and>
      (if mem mod 4096 = 0 then 2 \<le> length ps \<and> page_word s (hd ps) ((mem - 16) mod 4096) = of_nat (length ps - 1)
       else length ps = 1))"

lemma vblockD:
  assumes "vblock s mem ps"
  shows "ps \<noteq> []" "distinct ps" "\<And>q. q \<in> set ps \<Longrightarrow> owned (page_root s) (vm s) q" "mem mod 8 = 0" "0 < mem"
    "vpn (vfree_top s) \<le> (mem - 1) div 4096" "((mem - 1) div 4096 + length ps) * 4096 < 2 ^ 64"
    "\<And>va. (mem - 1) div 4096 \<le> vpn va \<Longrightarrow> vpn va < (mem - 1) div 4096 + length ps \<Longrightarrow>
       leaf (vmem (vm s)) 4 (page_root s) va = Some (1, page_entry (vm s) (ps ! (vpn va - (mem - 1) div 4096)))"
    "page_word s (hd ps) ((mem - 8) mod 4096) = VM_MAGIC"
    "if mem mod 4096 = 0 then 2 \<le> length ps \<and> page_word s (hd ps) ((mem - 16) mod 4096) = of_nat (length ps - 1) else length ps = 1"
  using assms unfolding vblock_def Let_def by blast+

text \<open>Neither depends on the contents of other pages.\<close>

lemma page_inv_contents [simp]: "page_inv (a\<lparr>contents := c\<rparr>) = page_inv a" "page_free (a\<lparr>contents := c\<rparr>) = page_free a"
  "avail (a\<lparr>contents := c\<rparr>) = avail a" "allocated (a\<lparr>contents := c\<rparr>) = allocated a"
proof -
  show *: "avail (a\<lparr>contents := c\<rparr>) = avail a" by (simp add: avail_def active_def)
  show "allocated (a\<lparr>contents := c\<rparr>) = allocated a" by (simp add: allocated_def active_def fun_eq_iff)
  have "alloc_inv F (a\<lparr>contents := c\<rparr>) = alloc_inv F a" for F
    by (simp add: alloc_inv_def heads_def active_def on_area_def)
  then show "page_inv (a\<lparr>contents := c\<rparr>) = page_inv a" by (simp add: page_inv_def *)
  show "page_free (a\<lparr>contents := c\<rparr>) = page_free a" by (simp add: page_free_def *)
qed

lemma vm_contents [simp]:
  "vm_ok page_inv page_free (v\<lparr>palloc := (palloc v)\<lparr>contents := c\<rparr>\<rparr>) l root = vm_ok page_inv page_free v l root"
  "owned root (v\<lparr>palloc := (palloc v)\<lparr>contents := c\<rparr>\<rparr>) q = owned root v q"
  "page_entry (v\<lparr>palloc := a\<rparr>) = page_entry v"
  by (simp_all add: vm_ok_def owned_def page_entry_def fun_eq_iff)

lemma high_canonical: "high_half \<le> unat va \<Longrightarrow> canonical va"
  by (simp add: canonical_def)

lemma high_up: "high_half \<le> unat x \<Longrightarrow> vpn x \<le> vpn y \<Longrightarrow> high_half \<le> unat y"
  using div_le_mono[of high_half "unat x" 4096] div_times_less_eq_dividend[of "unat y" 4096] by (simp add: vpn_def)

text \<open>
  A step of the allocator: the tables grow above the new top only, and of the pages in use at most
  page \<open>z\<close>, which belongs to no block, is written.
\<close>

lemma vm_inv_step:
  assumes inv: "vm_inv s" and st: "vm_step (page_root s) (vm s) v"
    and ptr: "unat ptr mod 4096 = 0" "high_half \<le> unat ptr" "ptr \<le> vfree_top s"
    and lf: "\<And>va. canonical va \<Longrightarrow> vpn va < vpn ptr \<or> vpn (vfree_top s) \<le> vpn va \<Longrightarrow>
      leaf (vmem v) 4 (page_root s) va = leaf (vmem (vm s)) 4 (page_root s) va"
    and c: "\<And>x. x div PAGE_SIZE \<noteq> z \<Longrightarrow> c x = contents (palloc v) x" and z: "\<not> owned (page_root s) (vm s) z"
    and s': "s' = s\<lparr>vfree_top := ptr, vm := v\<lparr>palloc := (palloc v)\<lparr>contents := c\<rparr>\<rparr>\<rparr>"
  shows "vm_inv s'" and "vblock s mem ps \<Longrightarrow> vblock s' mem ps"
proof -
  have ok: "vm_ok page_inv page_free (vm s) 4 (page_root s)" using inv by (simp add: vm_inv_def)
  have le: "vpn ptr \<le> vpn (vfree_top s)" using ptr(3) by (simp add: vpn_def word_le_nat_alt div_le_mono)
  show "vm_inv s'"
    unfolding vm_inv_def using inv st ptr le lf high_canonical by (auto simp: s' vm_inv_def vm_step_def)
  assume b: "vblock s mem ps"
  let ?b = "(mem - 1) div 4096"
  note B = vblockD[OF b]
  have own: "owned (page_root s) v q" if "q \<in> set ps" for q by (rule owned_step[OF ok B(3)[OF that] st])
  have e: "page_entry v = page_entry (vm s)" using st by (intro page_entry_cong) (simp add: vm_step_def)
  have lf': "leaf (vmem v) 4 (page_root s) va = Some (1, page_entry v (ps ! (vpn va - ?b)))" if "?b \<le> vpn va" "vpn va < ?b + length ps" for va
  proof -
    have "vpn (vfree_top s) \<le> vpn va" using B(6) that(1) by (rule order_trans)
    moreover from this have "canonical va" using inv high_up[of "vfree_top s" va] high_canonical by (simp add: vm_inv_def)
    ultimately show ?thesis using lf[of va] B(8)[OF that] e by simp
  qed
  have w: "page_word s' (hd ps) off = page_word s (hd ps) off" if "off mod 8 = 0" "off < 4096" for off
    unfolding page_word_def
  proof (rule load_cong)
    fix x assume x: "hd ps * PAGE_SIZE + off \<le> x" "x < hd ps * PAGE_SIZE + off + 8"
    have "(hd ps * PAGE_SIZE + off) mod 8 = 0" "(hd ps * PAGE_SIZE + off) div PAGE_SIZE = hd ps"
      using that by (simp_all add: PAGE_SIZE_def mod_eq_0_iff_dvd)
    then have d: "x div PAGE_SIZE = hd ps" using word_in_page[of "hd ps * PAGE_SIZE + off" x] x by simp
    have o: "owned (page_root s) (vm s) (hd ps)" using B(1,3) by simp
    then have "hd ps \<noteq> z" "hd ps \<notin> avail (palloc (vm s))" using z owned_not_avail[OF ok] by auto
    then show "contents (palloc (vm s')) x = contents (palloc (vm s)) x"
      using c[of x] st d by (simp add: s' vm_step_def keeps_def)
  qed
  have "(mem - 8) mod 4096 mod 8 = 0" "mem mod 4096 = 0 \<Longrightarrow> (mem - 16) mod 4096 mod 8 = 0"
    using B(4) by (simp_all add: mod_mod_cancel mod_eq_0_iff_dvd dvd_diff_nat)
  then have "page_word s' (hd ps) ((mem - 8) mod 4096) = page_word s (hd ps) ((mem - 8) mod 4096)"
      "mem mod 4096 = 0 \<Longrightarrow> page_word s' (hd ps) ((mem - 16) mod 4096) = page_word s (hd ps) ((mem - 16) mod 4096)"
    by (intro w; simp)+
  then show "vblock s' mem ps" unfolding vblock_def Let_def using B(1,2,4,5,7,9,10) own lf' order_trans[OF le B(6)] by (simp add: s' del: length_greater_0_conv)
qed

section \<open>Access through the page tables\<close>

lemma page_offset:
  assumes "q < 2 ^ 40" "off < 4096"
  shows "unat (of_nat (q * PAGE_SIZE + off) :: u64) = q * PAGE_SIZE + off"
  using assms by (simp only: unsigned_of_nat take_bit_eq_mod) (simp add: PAGE_SIZE_def)

lemma vload_page:
  assumes "vm_inv s" "leaf (vmem (vm s)) 4 (page_root s) va = Some (1, page_entry (vm s) q)" "q < 2 ^ 40" "unat va mod 8 = 0"
  shows "vload s va = Inr (page_word s q (unat va mod 4096))"
proof -
  have "IS_ALIGNED va (2 ^ 3)" using assms(4) IS_ALIGNED_iff[of 3 va] by simp
  moreover have "translate (vmem (vm s)) (cr3 s) va = Some (of_nat (q * PAGE_SIZE + unat va mod 4096))"
    using page_entry_translate(1)[OF assms(2,3)] assms(1) by (simp add: vm_inv_def vm_ok_def)
  ultimately show ?thesis using page_offset[OF assms(3), of "unat va mod 4096"] by (simp add: vload_def page_word_def del: of_nat_add)
qed

definition poke :: "vmalloc_state \<Rightarrow> nat \<Rightarrow> u64 \<Rightarrow> vmalloc_state" where
  "poke s pa w = s\<lparr>vm := (vm s)\<lparr>palloc := (palloc (vm s))\<lparr>contents := store64 (contents (palloc (vm s))) pa w\<rparr>\<rparr>\<rparr>"

lemma vstore_page:
  assumes "cr3 s = root" "table_flags_ok (pte_opt_mask (vm s))" "leaf (vmem (vm s)) 4 root va = Some (1, page_entry (vm s) q)"
    and "q < 2 ^ 40" "unat va mod 8 = 0"
  shows "vstore s va w = Inr (poke s (q * PAGE_SIZE + unat va mod 4096) w)"
proof -
  have "IS_ALIGNED va (2 ^ 3)" using assms(5) IS_ALIGNED_iff[of 3 va] by simp
  moreover have "translate (vmem (vm s)) (cr3 s) va = Some (of_nat (q * PAGE_SIZE + unat va mod 4096))"
    using page_entry_translate(1)[OF assms(3,4,2)] assms(1) by simp
  ultimately show ?thesis using page_offset[OF assms(4), of "unat va mod 4096"]
    by (simp add: vstore_def poke_def Let_def del: of_nat_add)
qed

section \<open>Virtual addresses\<close>

lemma unat_and_GENMASK: "k < 64 \<Longrightarrow> unat (x AND GENMASK_ULL 63 k) = unat x div 2 ^ k * 2 ^ k"
proof -
  assume k: "k < 64"
  have "x AND GENMASK_ULL 63 k = push_bit k (drop_bit k x)"
    by (rule bit_eqI) (auto simp: GENMASK_ULL_def bit_simps)
  moreover have d: "unat (drop_bit k x) = unat x div 2 ^ k" using unat_drop_bit_eq[of k x] by (simp only: drop_bit_eq_div)
  moreover have "unat x div 2 ^ k * 2 ^ k \<le> unat x" by simp
  then have "unat (drop_bit k x) * 2 ^ k < 2 ^ 64" unfolding d using unat_lt64[of x] by (rule order_le_less_trans)
  ultimately show ?thesis using unat_push_bit[of "drop_bit k x" k] by simp
qed

lemma do_alloc_vpages_eq:
  assumes "12 + ord < 64" "4096 * unat nr + 2 ^ (12 + ord) + 4096 \<le> unat (vfree_top s)"
  obtains ptr where "do_alloc_vpages s nr ord md = Inr (ptr, s\<lparr>vfree_top := ptr\<rparr>)"
    "unat ptr + (if md then 4096 else 0) = (unat (vfree_top s) - 4096 * unat nr) div 2 ^ (12 + ord) * 2 ^ (12 + ord)"
proof -
  let ?k = "12 + ord" and ?R = "unat (vfree_top s) - 4096 * unat nr"
  let ?x = "vfree_top s - 4096 * nr"
  have n: "unat (4096 * nr) = 4096 * unat nr" using assms(2) unat_lt64[of "vfree_top s"] by (simp add: unat_word_ariths)
  then have x: "unat ?x = ?R" using assms(2) by (simp add: unat_sub word_le_nat_alt)
  let ?p = "?x AND GENMASK_ULL 63 ?k"
  have p: "unat ?p = ?R div 2 ^ ?k * 2 ^ ?k" using unat_and_GENMASK[OF assms(1), of ?x] x by simp
  have "?R < ?R div 2 ^ ?k * 2 ^ ?k + 2 ^ ?k" by (metis add.commute dividend_less_div_times zero_less_numeral zero_less_power)
  then have big: "4096 \<le> unat ?p" using p assms(2) by linarith
  show thesis
    by (rule that[of "if md then ?p - 4096 else ?p"])
      (use p big assms(1) in \<open>auto simp: do_alloc_vpages_def Let_def PAGE_SHIFT_def unat_sub word_le_nat_alt\<close>)
qed

end
