(* ===== verification/VmallocCorrect.thy ===== *)
theory VmallocCorrect
  imports VmallocInv
begin

text \<open>
  Correctness of \<open>lib/vmalloc.c\<close>: requests are served with fresh, backed blocks, releases give the
  pages back, and the setup establishes the invariant both rely on.
\<close>

section \<open>Serving a request\<close>

text \<open>
  From \<open>s\<close> to \<open>s'\<close> the virtual pages between the new and the old top have been mapped to the frames
  \<open>ps\<close>; blocks handed out before and addresses outside keep everything.
\<close>

definition mapped :: "vmalloc_state \<Rightarrow> nat list \<Rightarrow> vmalloc_state \<Rightarrow> bool" where
  "mapped s ps s' \<longleftrightarrow> vm_inv s' \<and> page_root s' = page_root s \<and>
     (\<forall>mem qs. vblock s mem qs \<longrightarrow> vblock s' mem qs) \<and>
     (\<forall>va. vpn (vfree_top s') \<le> vpn va \<and> vpn va < vpn (vfree_top s') + length ps \<longrightarrow>
        translate (vmem (vm s')) (page_root s') va =
          Some (of_nat (ps ! (vpn va - vpn (vfree_top s')) * PAGE_SIZE + unat va mod 4096))) \<and>
     (\<forall>va. canonical va \<and> (vpn va < vpn (vfree_top s') \<or> vpn (vfree_top s) \<le> vpn va) \<longrightarrow>
        translate (vmem (vm s')) (page_root s') va = translate (vmem (vm s)) (page_root s) va)"

lemma mapped_intro:
  assumes inv: "vm_inv s" and st: "vm_step (page_root s) (vm s) v"
    and ptr: "unat ptr mod 4096 = 0" "high_half \<le> unat ptr" "vpn ptr + length ps \<le> vpn (vfree_top s)"
    and lf: "\<And>va. canonical va \<Longrightarrow> leaf (vmem v) 4 (page_root s) va =
      (if vpn ptr \<le> vpn va \<and> vpn va < vpn ptr + length ps then Some (1, page_entry (vm s) (ps ! (vpn va - vpn ptr)))
       else leaf (vmem (vm s)) 4 (page_root s) va)"
    and ps: "\<And>q. q \<in> set ps \<Longrightarrow> q < 2 ^ 40" "\<not> owned (page_root s) (vm s) z"
    and c: "\<And>x. x div PAGE_SIZE \<noteq> z \<Longrightarrow> c x = contents (palloc v) x"
    and s': "s' = s\<lparr>vfree_top := ptr, vm := v\<lparr>palloc := (palloc v)\<lparr>contents := c\<rparr>\<rparr>\<rparr>"
  shows "mapped s ps s'"
proof -
  have "unat ptr = vpn ptr * 4096" "vpn (vfree_top s) * 4096 \<le> unat (vfree_top s)" using ptr(1) by (auto simp: vpn_def)
  then have le: "ptr \<le> vfree_top s" using ptr(3) by (simp add: word_le_nat_alt)
  have same: "leaf (vmem v) 4 (page_root s) va = leaf (vmem (vm s)) 4 (page_root s) va"
    if "canonical va" "vpn va < vpn ptr \<or> vpn (vfree_top s) \<le> vpn va" for va
    using lf[OF that(1)] that(2) ptr(3) by auto
  note keep = vm_inv_step[OF inv st ptr(1,2) le same c ps(2) s']
  have fl: "table_flags_ok (pte_opt_mask (vm s))" using inv by (simp add: vm_inv_def vm_ok_def)
  have "translate (vmem v) (page_root s) va = Some (of_nat (ps ! (vpn va - vpn ptr) * PAGE_SIZE + unat va mod 4096))"
    if va: "vpn ptr \<le> vpn va" "vpn va < vpn ptr + length ps" for va
  proof (rule page_entry_translate(1)[OF _ _ fl])
    show "leaf (vmem v) 4 (page_root s) va = Some (1, page_entry (vm s) (ps ! (vpn va - vpn ptr)))"
      using lf[of va] va high_canonical[OF high_up[OF ptr(2) va(1)]] by simp
    show "ps ! (vpn va - vpn ptr) < 2 ^ 40" using va ps(1) by simp
  qed
  then show ?thesis using keep same by (simp add: mapped_def s' translate_def PAGE_LEVEL_def)
qed

text \<open>A page of the block is the one that holds the metadata.\<close>

lemma store_page:
  assumes "off mod 8 = 0" "off < 4096" "x div PAGE_SIZE \<noteq> q"
  shows "store64 c (q * PAGE_SIZE + off) w x = c x"
proof -
  have "(q * PAGE_SIZE + off) mod 8 = 0" "(q * PAGE_SIZE + off) div PAGE_SIZE = q"
    using assms(1,2) by (simp_all add: PAGE_SIZE_def mod_eq_0_iff_dvd)
  then show ?thesis using word_in_page[of "q * PAGE_SIZE + off" x] assms(3) by (auto simp: store64_def)
qed

lemma page_plus:
  assumes "unat p mod 4096 = 0" "unat p + off < 2 ^ 64" "off < 4096"
  shows "unat (p + of_nat off) = unat p + off" "vpn (p + of_nat off) = vpn p" "unat (p + of_nat off) mod 4096 = off"
proof -
  show u: "unat (p + of_nat off) = unat p + off"
    using assms(2) by (simp add: unat_word_ariths unsigned_of_nat take_bit_eq_mod mod_add_right_eq)
  obtain k where "unat p = 4096 * k" using assms(1) by (auto simp: mod_eq_0_iff_dvd)
  then show "vpn (p + of_nat off) = vpn p" "unat (p + of_nat off) mod 4096 = off"
    unfolding vpn_def u using assms(3) by simp_all
qed

lemma one_page_install:
  assumes inv: "vm_inv s" and p: "unat p mod 4096 = 0" "high_half \<le> unat p" "vpn p < vpn (vfree_top s)"
    and al: "alloc_page (palloc (vm s)) = Inr (pg, a)"
    and run: "install_page alloc_page ((vm s)\<lparr>palloc := a\<rparr>) (page_root s) (of_nat pg) p = Inr (ptr, v)"
  obtains q where "vm_step (page_root s) (vm s) v" "q < 2 ^ 40" "\<not> owned (page_root s) (vm s) q"
    "\<And>va. canonical va \<Longrightarrow> leaf (vmem v) 4 (page_root s) va =
      (if vpn va = vpn p then Some (1, page_entry (vm s) q) else leaf (vmem (vm s)) 4 (page_root s) va)"
    "owned (page_root s) v q \<and> q \<in> avail (palloc (vm s)) \<or> q = 0 \<and> alloc_page (palloc (vm s)) = Inr (0, palloc (vm s))"
proof -
  have ok: "vm_ok page_inv page_free (vm s) 4 (page_root s)" using inv by (simp add: vm_inv_def)
  have c: "canonical p" using p(2) by (rule high_canonical)
  have none: "leaf (vmem (vm s)) 4 (page_root s) p = None" using inv p(2,3) by (simp add: vm_inv_def)
  show thesis
  proof (cases "pg = 0")
    case True
    then have a: "a = palloc (vm s)" using ok al pt_pages.law by (fastforce simp: vm_ok_def)
    have "install_page alloc_page (vm s) (page_root s) (of_nat (0 * PAGE_SIZE)) p = Inr (ptr, v)" using run True a by simp
    from install_page_step[OF ok _ this] none have st: "vm_step (page_root s) (vm s) v"
      and lf: "\<And>va. leaf (vmem v) 4 (page_root s) va = (if region 1 va = region 1 p then Some (1, page_entry (vm s) 0) else leaf (vmem (vm s)) 4 (page_root s) va)"
      by auto
    show thesis by (rule that[of 0]) (use st lf region_canonical[OF _ c] al True a in \<open>auto simp: owned_def\<close>)
  next
    case False
    from back_one[OF ok c _ al this run] none obtain q where b: "back_post (page_root s) (vm s) (vpn p) [q] v" by auto
    have sing: "(vpn p \<le> x \<and> x < vpn p + length [q]) = (x = vpn p)" for x by auto
    have "leaf (vmem v) 4 (page_root s) va = (if vpn va = vpn p then Some (1, page_entry (vm s) q) else leaf (vmem (vm s)) 4 (page_root s) va)"
      if "canonical va" for va using b that unfolding back_post_def sing by auto
    moreover have o: "owned (page_root s) v q" "q \<in> avail (palloc (vm s))" using b by (simp_all add: back_post_def)
    ultimately show thesis using b that[of q] owned_not_avail[OF ok, of q] by (auto simp: back_post_def owned_def)
  qed
qed

lemma alloc_vpage_eq:
  assumes inv: "vm_inv s" and room: "high_half + 4096 \<le> unat (vfree_top s)"
  obtains p where "alloc_vpage s = Inr (p, s\<lparr>vfree_top := p\<rparr>)" "unat p + 4096 = unat (vfree_top s)"
    "unat p mod 4096 = 0" "high_half \<le> unat p" "vpn (vfree_top s) = Suc (vpn p)" "unat p + 4096 < 2 ^ 64"
proof -
  let ?t = "unat (vfree_top s)"
  have t: "?t mod 4096 = 0" using inv by (simp add: vm_inv_def)
  obtain p where p: "do_alloc_vpages s 1 0 False = Inr (p, s\<lparr>vfree_top := p\<rparr>)" "unat p = (?t - 4096) div 4096 * 4096"
    using do_alloc_vpages_eq[of 0 1 s False] room by auto
  have "4096 dvd ?t - 4096" using t by (simp add: dvd_diff_nat mod_eq_0_iff_dvd)
  then have up: "unat p + 4096 = ?t" using p(2) room by simp
  have "vpn (vfree_top s) = Suc (vpn p)" unfolding vpn_def up[symmetric] by simp
  moreover have "high_half \<le> unat p" using up room by linarith
  moreover have "unat p + 4096 < 2 ^ 64" unfolding up by (rule unat_lt64)
  ultimately show thesis
    using that[of p] p up by (simp add: alloc_vpage_def alloc_vpages_def alloc_vpages_aligned_def)
qed

lemma one_page_block:
  assumes inv: "vm_inv s" and p: "unat p mod 4096 = 0" "high_half \<le> unat p" "vpn (vfree_top s) = Suc (vpn p)" "unat p + 4096 < 2 ^ 64"
    and al: "8 \<le> unat al" "unat al < 4096" "unat al mod 8 = 0"
    and st: "vm_step (page_root s) (vm s) v" and q: "q < 2 ^ 40" "\<not> owned (page_root s) (vm s) q"
    and lf: "\<And>va. canonical va \<Longrightarrow> leaf (vmem v) 4 (page_root s) va =
      (if vpn va = vpn p then Some (1, page_entry (vm s) q) else leaf (vmem (vm s)) 4 (page_root s) va)"
  obtains s' where "vstore (s\<lparr>vfree_top := p, vm := v\<rparr>) (p + al - 8) VM_MAGIC = Inr s'" "vfree_top s' = p" "mapped s [q] s'"
    "unat (p + al) = unat p + unat al" "owned (page_root s) v q \<Longrightarrow> vblock s' (unat p + unat al) [q]"
proof -
  let ?off = "unat al - 8" and ?s = "s\<lparr>vfree_top := p, vm := v\<rparr>" and ?r = "page_root s"
  let ?c = "store64 (contents (palloc v)) (q * PAGE_SIZE + ?off) VM_MAGIC"
  let ?s' = "s\<lparr>vfree_top := p, vm := v\<lparr>palloc := (palloc v)\<lparr>contents := ?c\<rparr>\<rparr>\<rparr>"
  have off: "?off mod 8 = 0" "?off < 4096" using al by (simp_all add: mod_eq_0_iff_dvd dvd_diff_nat)
  have va: "p + al - 8 = p + of_nat ?off" using al(1) by (simp add: of_nat_diff)
  have pl: "unat (p + of_nat ?off) = unat p + ?off" "vpn (p + of_nat ?off) = vpn p" "unat (p + of_nat ?off) mod 4096 = ?off"
    using page_plus[of p ?off] p(1,4) off(2) by simp_all
  have e: "page_entry v = page_entry (vm s)" using st by (intro page_entry_cong) (simp add: vm_step_def)
  have pg: "leaf (vmem v) 4 ?r va = Some (1, page_entry (vm s) q)" if "vpn va = vpn p" for va
    using lf[of va] that high_canonical[OF high_up[OF p(2)], of va] by simp
  obtain k j where d: "unat p = 4096 * k" "unat al = 8 * j" using p(1) al(3) by (auto simp: mod_eq_0_iff_dvd elim!: dvdE)
  have k: "vpn p = k" by (simp add: vpn_def d(1))
  have "unat (p + of_nat ?off) mod 8 = 0" unfolding pl(1) using d al(1) by (simp add: mod_eq_0_iff_dvd dvd_add dvd_diff_nat)
  then have "vstore ?s (p + of_nat ?off) VM_MAGIC = Inr (poke ?s (q * PAGE_SIZE + ?off) VM_MAGIC)"
    using vstore_page[of ?s ?r "p + of_nat ?off" q VM_MAGIC] pg[OF pl(2)] q(1) pl(3) e inv st
    by (simp add: vm_inv_def vm_step_def vm_ok_def)
  then have r: "vstore ?s (p + al - 8) VM_MAGIC = Inr ?s'" unfolding va by (simp add: poke_def)
  have lf': "\<And>va. canonical va \<Longrightarrow> leaf (vmem v) 4 ?r va = (if vpn p \<le> vpn va \<and> vpn va < vpn p + length [q]
      then Some (1, page_entry (vm s) ([q] ! (vpn va - vpn p))) else leaf (vmem (vm s)) 4 ?r va)"
    using lf by auto
  have mp: "mapped s [q] ?s'"
    by (rule mapped_intro[OF inv st p(1,2) _ lf' _ q(2) _ refl]) (use p(3) q(1) store_page[OF off] in auto)
  have b: "(unat p + unat al - 1) div 4096 = vpn p" unfolding k using d al by (intro div_nat_eqI) auto
  have m0: "unat p + unat al - 8 = ?off + 4096 * k" using d(1) al(1) by simp
  have "(unat p + unat al - 8) mod 4096 = ?off" unfolding m0 mod_mult_self2 using off(2) by (rule mod_less)
  moreover have "(unat p + unat al) mod 8 = 0" "(unat p + unat al) mod 4096 \<noteq> 0"
    using d al by (auto simp: mod_eq_0_iff_dvd dvd_add)
  ultimately have m: "(unat p + unat al - 8) mod 4096 = ?off" "(unat p + unat al) mod 8 = 0" "(unat p + unat al) mod 4096 \<noteq> 0" .
  have "vblock ?s' (unat p + unat al) [q]" if o: "owned ?r v q"
    unfolding vblock_def Let_def b using o m al(1) load_store e pg p(4) d(1) k by (auto simp: page_word_def le_less_Suc_eq)
  then show thesis using that[OF r _ mp] page_plus(1)[of p "unat al"] p(1,4) al(2) by simp
qed

lemma vm_alloc_one_page_correct:
  assumes inv: "vm_inv s" and al: "8 \<le> unat al" "unat al < 4096" "unat al mod 8 = 0"
    and room: "high_half + 4096 \<le> unat (vfree_top s)"
  shows "case vm_alloc_one_page s al of
      Inl err \<Rightarrow> out_of_pages alloc_page 4 (palloc (vm s)) err
    | Inr (p, s') \<Rightarrow> unat p = unat (vfree_top s') + unat al \<and> unat (vfree_top s') + 4096 = unat (vfree_top s) \<and>
        (\<exists>q. mapped s [q] s' \<and> (vblock s' (unat p) [q] \<and> q \<in> avail (palloc (vm s)) \<or>
           q = 0 \<and> alloc_page (palloc (vm s)) = Inr (0, palloc (vm s))))"
proof -
  obtain p where vp: "alloc_vpage s = Inr (p, s\<lparr>vfree_top := p\<rparr>)" and up: "unat p + 4096 = unat (vfree_top s)"
    and p: "unat p mod 4096 = 0" "high_half \<le> unat p" "vpn (vfree_top s) = Suc (vpn p)" "unat p + 4096 < 2 ^ 64"
    by (rule alloc_vpage_eq[OF inv room])
  have pinv: "page_inv (palloc (vm s))" using inv by (simp add: vm_inv_def vm_ok_def)
  obtain pg a where a: "alloc_page (palloc (vm s)) = Inr (pg, a)" using pt_pages.total[OF pinv] by blast
  have al': "8 \<le> al" "al < 4096" using al by (simp_all add: word_le_nat_alt word_less_nat_alt)
  let ?i = "install_page alloc_page ((vm s)\<lparr>palloc := a\<rparr>) (page_root s) (of_nat pg) p"
  show ?thesis
  proof (cases ?i)
    case (Inl err)
    obtain m where m: "m \<le> 1" "drawn alloc_page m (palloc (vm s)) a" "page_inv a"
      using pinv a
    proof (cases rule: alloc_page_step)
      case 1 then show thesis using that[of 0] drawn.drawn_0[of alloc_page a] pinv by simp
    next
      case (2 q) then show thesis using that[of 1] drawn_Suc[of alloc_page, OF a _ drawn_0] by simp
    qed
    have "out_of_pages alloc_page 3 a err" using install_page_error[OF _ Inl] m(3) by simp
    then have "out_of_pages alloc_page 4 (palloc (vm s)) err" using out_of_pages_later[OF m(2)] m(1) by simp
    then show ?thesis using vp a Inl al' by (simp add: vm_alloc_one_page_def)
  next
    case (Inr r)
    then obtain ptr v where run: "?i = Inr (ptr, v)" by (cases r) auto
    have lt: "vpn p < vpn (vfree_top s)" using p(3) by simp
    obtain q where st: "vm_step (page_root s) (vm s) v" and q: "q < 2 ^ 40" "\<not> owned (page_root s) (vm s) q"
      and lf: "\<And>va. canonical va \<Longrightarrow> leaf (vmem v) 4 (page_root s) va =
        (if vpn va = vpn p then Some (1, page_entry (vm s) q) else leaf (vmem (vm s)) 4 (page_root s) va)"
      and own: "owned (page_root s) v q \<and> q \<in> avail (palloc (vm s)) \<or> q = 0 \<and> alloc_page (palloc (vm s)) = Inr (0, palloc (vm s))"
      by (rule one_page_install[OF inv p(1,2) lt a run]) (rule that; assumption)
    obtain s' where s': "vstore (s\<lparr>vfree_top := p, vm := v\<rparr>) (p + al - 8) VM_MAGIC = Inr s'" "vfree_top s' = p" "mapped s [q] s'"
      "unat (p + al) = unat p + unat al" "owned (page_root s) v q \<Longrightarrow> vblock s' (unat p + unat al) [q]"
      by (rule one_page_block[OF inv p al st q lf]) (assumption, (rule that; assumption))
    have "vm_alloc_one_page s al = Inr (p + al, s')"
      using vp a run al' s'(1) by (simp add: vm_alloc_one_page_def GET_MAGIC_def)
    then show ?thesis using s' own up by auto
  qed
qed

section \<open>Blocks of several pages\<close>

lemma many_pages_block:
  assumes inv: "vm_inv s" and p: "unat p mod 4096 = 0" "high_half \<le> unat p" "vpn p + Suc n \<le> vpn (vfree_top s)" and n: "0 < n"
    and run: "back_pages (Suc n) (s\<lparr>vfree_top := p\<rparr>) p = Inr s1"
  obtains s2 s' ps where "vstore s1 (GET_METADATA (p + 4096)) (of_nat n) = Inr s2"
    "vstore s2 (GET_METADATA (p + 4096) + 8) VM_MAGIC = Inr s'" "vfree_top s' = p" "length ps = Suc n" "mapped s ps s'"
    "vblock s' (unat p + 4096) ps" "set ps \<subseteq> avail (palloc (vm s))"
proof -
  let ?r = "page_root s"
  obtain k where k: "unat p = 4096 * k" "vpn p = k" using p(1) by (auto simp: mod_eq_0_iff_dvd vpn_def elim!: dvdE)
  have "vpn (vfree_top s) * 4096 \<le> unat (vfree_top s)" by (simp add: vpn_def)
  then have "(k + Suc n) * 4096 \<le> unat (vfree_top s)" using p(3) k(2) mult_le_mono1 order_trans by blast
  then have fit: "unat p + Suc n * 4096 < 2 ^ 64" using k(1) unat_lt64[of "vfree_top s"] by (simp add: algebra_simps)
  have none: "leaf (vmem (vm s)) 4 ?r va = None" if "vpn p \<le> vpn va" "vpn va < vpn p + Suc n" for va
    using inv that p(3) high_up[OF p(2) that(1)] by (simp add: vm_inv_def)
  have ok: "vm_ok page_inv page_free (vm s) 4 ?r" using inv by (simp add: vm_inv_def)
  obtain v ps where s1: "s1 = s\<lparr>vfree_top := p, vm := v\<rparr>" and ps: "length ps = Suc n" and b: "back_post ?r (vm s) (vpn p) ps v"
    using back_pages_correct[of "s\<lparr>vfree_top := p\<rparr>" p "Suc n" s1] ok p(1,2) fit none run by auto
  obtain q qs where q: "ps = q # qs" using ps by (cases ps) auto
  have st: "vm_step ?r (vm s) v" and own: "\<And>q. q \<in> set ps \<Longrightarrow> owned ?r v q" "set ps \<subseteq> avail (palloc (vm s))" "distinct ps"
    and lf: "\<And>va. canonical va \<Longrightarrow> leaf (vmem v) 4 ?r va =
      (if vpn p \<le> vpn va \<and> vpn va < vpn p + length ps then Some (1, page_entry (vm s) (ps ! (vpn va - vpn p)))
       else leaf (vmem (vm s)) 4 ?r va)"
    using b unfolding back_post_def by auto
  have e: "page_entry v = page_entry (vm s)" using st by (intro page_entry_cong) (simp add: vm_step_def)
  have pg: "leaf (vmem v) 4 ?r va = Some (1, page_entry (vm s) (ps ! (vpn va - vpn p)))"
    if "vpn p \<le> vpn va" "vpn va < vpn p + length ps" for va
    using lf[of va] that high_canonical[OF high_up[OF p(2) that(1)]] by simp
  have q40: "q < 2 ^ 40" and nq: "\<not> owned ?r (vm s) q" using own(1,2) q owned_not_avail[OF ok, of q] by (auto simp: owned_def)
  have fl: "table_flags_ok (pte_opt_mask v)" "cr3 s = ?r" using st inv by (auto simp: vm_step_def vm_ok_def vm_inv_def)
  have at: "vpn (p + of_nat off) = vpn p" "unat (p + of_nat off) mod 4096 = off" "unat (p + of_nat off) mod 8 = 0"
      "leaf (vmem v) 4 ?r (p + of_nat off) = Some (1, page_entry v q)" if "off mod 8 = 0" "off < 4096" for off
  proof -
    have u: "unat (p + of_nat off) = 4096 * k + off" using page_plus(1)[of p off] p(1) fit that(2) k(1) by simp
    show a: "vpn (p + of_nat off) = vpn p" "unat (p + of_nat off) mod 4096 = off" using page_plus(2,3)[of p off] p(1) fit that(2) by simp_all
    show "unat (p + of_nat off) mod 8 = 0" unfolding u using that(1) by (simp add: mod_eq_0_iff_dvd dvd_add)
    show "leaf (vmem v) 4 ?r (p + of_nat off) = Some (1, page_entry v q)" using pg[of "p + of_nat off"] a(1) e q by simp
  qed
  let ?c = "store64 (contents (palloc v)) (q * PAGE_SIZE + 4080) (of_nat n)"
  let ?c' = "store64 ?c (q * PAGE_SIZE + 4088) VM_MAGIC"
  let ?st = "\<lambda>c. s\<lparr>vfree_top := p, vm := v\<lparr>palloc := (palloc v)\<lparr>contents := c\<rparr>\<rparr>\<rparr>"
  have v1: "vstore s1 (p + of_nat 4080) (of_nat n) = Inr (?st ?c)"
    using vstore_page[of s1 ?r "p + of_nat 4080" q "of_nat n"] at[of 4080] fl q40 by (simp add: s1 poke_def)
  have v2: "vstore (?st ?c) (p + of_nat 4088) VM_MAGIC = Inr (?st ?c')"
    using vstore_page[of "?st ?c" ?r "p + of_nat 4088" q VM_MAGIC] at[of 4088] fl q40 by (simp add: poke_def)
  have mp: "mapped s ps (?st ?c')"
    by (rule mapped_intro[OF inv st p(1,2) _ lf _ nq _ refl]) (use p(3) ps own(1) store_page in \<open>auto simp: owned_def\<close>)
  have w: "load_bytes 8 ?c' (q * PAGE_SIZE + 4088) = VM_MAGIC" "load_bytes 8 ?c' (q * PAGE_SIZE + 4080) = of_nat n"
    using load_store load_store_other[of "q * PAGE_SIZE + 4080" "q * PAGE_SIZE + 4088" ?c VM_MAGIC] by simp_all
  have m: "(unat p + 4096 - 1) div 4096 = vpn p" "(unat p + 4096 - 8) mod 4096 = 4088" "(unat p + 4096 - 16) mod 4096 = 4080"
    "(unat p + 4096) mod 8 = 0" "(unat p + 4096) mod 4096 = 0" unfolding k by (auto intro!: div_nat_eqI simp: mod_eq_0_iff_dvd)
  have "vblock (?st ?c') (unat p + 4096) ps"
    unfolding vblock_def Let_def m(1)
  proof (intro conjI)
    show "if (unat p + 4096) mod 4096 = 0 then 2 \<le> length ps \<and> page_word (?st ?c') (hd ps) ((unat p + 4096 - 16) mod 4096) = of_nat (length ps - 1)
        else length ps = 1" using m w(2) ps n q by (simp add: page_word_def)
    show "\<forall>va. vpn p \<le> vpn va \<and> vpn va < vpn p + length ps \<longrightarrow> leaf (vmem (vm (?st ?c'))) 4 (page_root (?st ?c')) va =
        Some (1, page_entry (vm (?st ?c')) (ps ! (vpn va - vpn p)))" using pg e by simp
    show "(vpn p + length ps) * 4096 < 2 ^ 64" unfolding ps using fit k by (simp add: algebra_simps)
    show "page_word (?st ?c') (hd ps) ((unat p + 4096 - 8) mod 4096) = VM_MAGIC" using m w(1) q by (simp add: page_word_def)
  qed (use m own(1,3) ps in auto)
  then show thesis using that[of "?st ?c" "?st ?c'" ps] v1 v2 mp ps own(2) by (simp add: GET_METADATA_def add.commute)
qed

section \<open>Requests\<close>

lemma page_count:
  assumes "sz \<noteq> 0" "unat sz + 4096 < 2 ^ 64"
  shows "0 < unat (PAGE_ALIGN sz div 4096)" "unat sz \<le> 4096 * unat (PAGE_ALIGN sz div 4096)"
    "4096 * unat (PAGE_ALIGN sz div 4096) \<le> unat sz + 4095"
proof -
  have "unat (PAGE_ALIGN sz) = (unat sz + 4095) div 4096 * 4096" using ALIGN_pow2[of 12 sz] assms(2) by (simp add: PAGE_ALIGN_def)
  then have n: "unat (PAGE_ALIGN sz div 4096) = (unat sz + 4095) div 4096" by (simp add: unat_div_distrib)
  have "0 < unat sz" using assms(1) by (simp add: unat_gt_0)
  then show "0 < unat (PAGE_ALIGN sz div 4096)" "unat sz \<le> 4096 * unat (PAGE_ALIGN sz div 4096)"
    "4096 * unat (PAGE_ALIGN sz div 4096) \<le> unat sz + 4095" unfolding n by linarith+
qed

lemma alignment_order:
  assumes "is_power_of_2 al" "unat al < 2 ^ 60"
  shows "2 ^ (12 + get_order (PAGE_ALIGN al div 4096)) \<le> 2 * unat al + 2 * 4096" "12 + get_order (PAGE_ALIGN al div 4096) < 64"
    "4096 * (2 ^ get_order (PAGE_ALIGN al div 4096) * k) mod unat al = 0"
proof -
  let ?w = "PAGE_ALIGN al div 4096"
  have nz: "al \<noteq> 0" using assms(1) by (simp add: is_power_of_2_def)
  have c: "0 < unat ?w" "4096 * unat ?w \<le> unat al + 4095" using page_count[OF nz] assms(2) by auto
  then have w: "?w \<noteq> 0" by (metis less_irrefl unat_0)
  have "2 ^ get_order ?w \<le> 2 * unat ?w"
  proof (cases "get_order ?w")
    case (Suc j)
    then show ?thesis using get_order_correct(2)[OF w] by simp
  qed (use c(1) in simp)
  then have "4096 * 2 ^ get_order ?w \<le> 2 * (4096 * unat ?w)" by simp
  also have "\<dots> \<le> 2 * unat al + 2 * 4096" using c(2) by simp
  finally show le: "2 ^ (12 + get_order ?w) \<le> 2 * unat al + 2 * 4096" by (simp add: power_add)
  then have "(2 :: nat) ^ (12 + get_order ?w) < 2 ^ 62" using assms(2) by simp
  then show "12 + get_order ?w < 64" using power_strict_increasing_iff[of "2 :: nat"] by fastforce
  have "drop_bit PAGE_SHIFT (PAGE_ALIGN al) = ?w" by (simp add: PAGE_SHIFT_def drop_bit_eq_div)
  then show "4096 * (2 ^ get_order ?w * k) mod unat al = 0"
    using memalign_alignment[OF assms(1), of "2 ^ get_order ?w * k"] by (simp add: PAGE_SIZE_def mult.commute)
qed

text \<open>The alignment in use is a multiple of the one asked for and of the size of a word.\<close>

lemma word_alignment:
  assumes "is_power_of_2 al"
  shows "is_power_of_2 (if al < 8 then 8 else al)" "8 dvd unat (if al < 8 then 8 else al)" "unat al dvd unat (if al < 8 then 8 else al)"
    "unat (if al < 8 then 8 else al) \<le> unat al + 8" "unat (if al < 8 then 8 else al) < 4096 \<Longrightarrow> unat al dvd 4096"
proof -
  obtain j where j: "j < 64" "unat al = 2 ^ j" using assms by (auto simp: is_power_of_2_iff)
  have lt: "al < 8 \<longleftrightarrow> (2 :: nat) ^ j < 2 ^ 3" using j(2) by (simp add: word_less_nat_alt)
  then have l3: "al < 8 \<longleftrightarrow> j < 3" using power_strict_increasing_iff[of "2 :: nat" j 3] by simp
  have d: "8 dvd unat al \<longleftrightarrow> 3 \<le> j" "unat al dvd 8 \<longleftrightarrow> j \<le> 3" "unat al dvd 4096 \<longleftrightarrow> j \<le> 12"
    using dvd_power_iff_le[of 2 3 j] dvd_power_iff_le[of 2 j 3] dvd_power_iff_le[of 2 j 12] j(2) by simp_all
  have "is_power_of_2 8" by (simp add: is_power_of_2_def)
  then show "is_power_of_2 (if al < 8 then 8 else al)" using assms by simp
  show "8 dvd unat (if al < 8 then 8 else al)" "unat al dvd unat (if al < 8 then 8 else al)" using d l3 by auto
  show "unat (if al < 8 then 8 else al) \<le> unat al + 8" by simp
  assume "unat (if al < 8 then 8 else al) < 4096"
  then have "(2 :: nat) ^ j < 2 ^ 12" using j(2) lt by (auto split: if_splits)
  then have "j < 12" using power_strict_increasing_iff[of "2 :: nat" j 12] by simp
  then show "unat al dvd 4096" using d(3) by simp
qed

text \<open>
  What a request gets: aligned memory below the old top, backed by frames that were available and
  make up a block; or, for a block within a page and an allocator without pages, memory backed by
  frame 0.
\<close>

definition granted :: "vmalloc_state \<Rightarrow> u64 \<Rightarrow> u64 \<Rightarrow> nat \<Rightarrow> vmalloc_state \<Rightarrow> bool" where
  "granted s al sz mem s' \<longleftrightarrow> mem mod unat al = 0 \<and> unat (vfree_top s') < mem \<and> mem + unat sz \<le> unat (vfree_top s) \<and>
     (\<exists>ps. mapped s ps s' \<and> mem + unat sz \<le> (vpn (vfree_top s') + length ps) * 4096 \<and>
        (vblock s' mem ps \<and> set ps \<subseteq> avail (palloc (vm s)) \<or>
         ps = [0] \<and> alloc_page (palloc (vm s)) = Inr (0, palloc (vm s))))"

definition has_room :: "vmalloc_state \<Rightarrow> u64 \<Rightarrow> u64 \<Rightarrow> bool" where
  "has_room s al sz \<longleftrightarrow> high_half + unat sz + 2 * unat al + 8 * 4096 \<le> unat (vfree_top s)"

lemma one_page_granted:
  assumes inv: "vm_inv s" and al: "is_power_of_2 al" "al' = (if al < 8 then 8 else al)" and sz: "sz \<noteq> 0" "unat al' + unat sz \<le> 4096"
    and room: "has_room s al sz" and run: "vm_alloc_one_page s al' = Inr (p, s')"
  shows "granted s al sz (unat p) s'"
proof -
  note w = word_alignment[OF al(1), folded al(2)]
  have pos: "0 < unat sz" using sz(1) by (simp add: unat_gt_0)
  have "0 < unat al'" using w(1) by (auto simp: is_power_of_2_iff)
  then have a: "8 \<le> unat al'" "unat al' < 4096" "unat al' mod 8 = 0" using w(2) pos sz(2) by (auto simp: dvd_imp_le)
  obtain q where p: "unat p = unat (vfree_top s') + unat al'" "unat (vfree_top s') + 4096 = unat (vfree_top s)" "mapped s [q] s'"
    and q: "vblock s' (unat p) [q] \<and> q \<in> avail (palloc (vm s)) \<or> q = 0 \<and> alloc_page (palloc (vm s)) = Inr (0, palloc (vm s))"
    using vm_alloc_one_page_correct[OF inv a] room run by (auto simp: has_room_def)
  have t: "4096 dvd unat (vfree_top s')" using p(3) by (simp add: mapped_def vm_inv_def mod_eq_0_iff_dvd)
  then have "unat al dvd unat (vfree_top s')" using w(5) a(2) dvd_trans by blast
  then have "unat p mod unat al = 0" using p(1) w(3) by (simp add: mod_eq_0_iff_dvd)
  moreover have "unat (vfree_top s') = vpn (vfree_top s') * 4096" using t by (simp add: vpn_def)
  then have "unat p + unat sz \<le> (vpn (vfree_top s') + length [q]) * 4096" using p(1) sz(2) by simp
  ultimately show ?thesis unfolding granted_def using p sz(2) a(1) q by auto
qed

lemma many_pages_place:
  assumes inv: "vm_inv s" and al: "is_power_of_2 al" and sz: "sz \<noteq> 0" and room: "has_room s al sz"
  obtains p where "do_alloc_vpages s (PAGE_ALIGN sz div 4096) (get_order (PAGE_ALIGN (if al < 8 then 8 else al) div 4096)) True =
      Inr (p, s\<lparr>vfree_top := p\<rparr>)" "unat p mod 4096 = 0" "high_half \<le> unat p"
    "vpn p + Suc (unat (PAGE_ALIGN sz div 4096)) \<le> vpn (vfree_top s)" "(unat p + 4096) mod unat al = 0"
proof -
  define al' where "al' = (if al < 8 then 8 else al)"
  let ?n = "PAGE_ALIGN sz div 4096" and ?t = "unat (vfree_top s)"
  let ?o = "get_order (PAGE_ALIGN al' div 4096)"
  note w = word_alignment[OF al, folded al'_def]
  have r: "high_half + unat sz + 2 * unat al + 8 * 4096 \<le> ?t" using room by (simp add: has_room_def)
  then have lim: "unat sz + 4096 < 2 ^ 64" "unat al' < 2 ^ 60" using unat_lt64[of "vfree_top s"] w(4) by simp_all
  note c = page_count[OF sz lim(1)]
  note o = alignment_order[OF w(1) lim(2)]
  have need: "4096 * unat ?n + 2 ^ (12 + ?o) + 4096 + high_half \<le> ?t" using c(3) o(1) w(4) r by linarith
  obtain p where p: "do_alloc_vpages s ?n ?o True = Inr (p, s\<lparr>vfree_top := p\<rparr>)"
    "unat p + 4096 = (?t - 4096 * unat ?n) div 2 ^ (12 + ?o) * 2 ^ (12 + ?o)"
    using do_alloc_vpages_eq[OF o(2), of ?n s True] need by auto
  let ?R = "?t - 4096 * unat ?n" and ?D = "2 ^ (12 + ?o) :: nat"
  have m: "unat p + 4096 = 4096 * (2 ^ ?o * (?R div ?D))" using p(2) by (simp add: power_add)
  have "?R < ?R div ?D * ?D + ?D" by (metis add.commute dividend_less_div_times zero_less_numeral zero_less_power)
  then have hi: "high_half \<le> unat p" using p(2) need by linarith
  have "unat p + 4096 \<le> ?R" unfolding p(2) by simp
  then have le: "unat p + 4096 * Suc (unat ?n) \<le> ?t" using need by simp
  have z: "unat p mod 4096 = 0" using m by (metis mod_add_self2 mod_mult_self1_is_0)
  then have "unat p = vpn p * 4096" by (auto simp: vpn_def)
  then have "vpn p + Suc (unat ?n) \<le> vpn (vfree_top s)"
    using le unfolding vpn_def[of "vfree_top s"] by (simp add: less_eq_div_iff_mult_less_eq algebra_simps)
  moreover have "(unat p + 4096) mod unat al = 0"
    using o(3)[of "?R div ?D"] w(3) unfolding m by (meson dvd_eq_mod_eq_0 dvd_trans)
  ultimately show thesis by (rule that[folded al'_def, OF p(1) z hi])
qed

lemma vm_memalign_correct:
  assumes inv: "vm_inv s" and al: "is_power_of_2 al" and sz: "sz \<noteq> 0" and room: "has_room s al sz"
  shows "case vm_memalign s al sz of
      Inl err \<Rightarrow> err \<in> {Undef, AssertFail} \<and> out_of_pages alloc_page (4 * (unat sz div 4096 + 2)) (palloc (vm s)) Undef
    | Inr (mem, s') \<Rightarrow> granted s al sz mem s'"
proof -
  define al' where "al' = (if al < 8 then 8 else al)"
  note w = word_alignment[OF al, folded al'_def]
  have r: "high_half + unat sz + 2 * unat al + 8 * 4096 \<le> unat (vfree_top s)" using room by (simp add: has_room_def)
  have lim: "unat sz + 4096 < 2 ^ 64" "unat al' + unat sz < 2 ^ 64" using r unat_lt64[of "vfree_top s"] w(4) by linarith+
  have sum: "unat (al' + sz) = unat al' + unat sz" using lim(2) by (simp add: unat_word_ariths)
  have pinv: "page_inv (palloc (vm s))" using inv by (simp add: vm_inv_def vm_ok_def)
  show ?thesis
  proof (cases "al' + sz \<le> 4096")
    case True
    then have le: "unat al' + unat sz \<le> 4096" using sum by (simp add: word_le_nat_alt)
    have e: "vm_memalign s al sz = bind_res (vm_alloc_one_page s al') (\<lambda>(p, s). Inr (unat p, s))"
      using True al sz by (simp add: vm_memalign_def Let_def flip: al'_def)
    have "0 < unat al'" "0 < unat sz" using w(1) sz by (auto simp: is_power_of_2_iff unat_gt_0)
    then have a: "8 \<le> unat al'" "unat al' < 4096" "unat al' mod 8 = 0" using w(2) le by (auto simp: dvd_imp_le)
    show ?thesis
    proof (cases "vm_alloc_one_page s al'")
      case (Inl err)
      then have "out_of_pages alloc_page 4 (palloc (vm s)) err" using vm_alloc_one_page_correct[OF inv a] r by simp
      moreover from this have "err = Undef" by (simp add: out_of_pages_def)
      ultimately show ?thesis using e Inl out_of_pages_mono[of alloc_page 4] by simp
    next
      case (Inr b)
      then obtain p s' where b: "vm_alloc_one_page s al' = Inr (p, s')" by (cases b) auto
      show ?thesis using e b one_page_granted[OF inv al al'_def sz le room b] by simp
    qed
  next
    case False
    let ?n = "PAGE_ALIGN sz div 4096"
    note c = page_count[OF sz lim(1)]
    obtain p where p: "do_alloc_vpages s ?n (get_order (PAGE_ALIGN al' div 4096)) True = Inr (p, s\<lparr>vfree_top := p\<rparr>)"
      "unat p mod 4096 = 0" "high_half \<le> unat p" "vpn p + Suc (unat ?n) \<le> vpn (vfree_top s)" "(unat p + 4096) mod unat al = 0"
      by (rule many_pages_place[OF inv al sz room, folded al'_def])
    have e: "vm_memalign s al sz = bind_res (back_pages (Suc (unat ?n)) (s\<lparr>vfree_top := p\<rparr>) p) (\<lambda>s.
        bind_res (vstore s (GET_METADATA (p + 4096)) ?n) (\<lambda>s. bind_res (vstore s (GET_METADATA (p + 4096) + 8) VM_MAGIC) (\<lambda>s.
        Inr (unat (p + 4096), s))))"
      using False al sz p(1) by (simp add: vm_memalign_def Let_def del: back_pages.simps flip: al'_def)
    show ?thesis
    proof (cases "back_pages (Suc (unat ?n)) (s\<lparr>vfree_top := p\<rparr>) p")
      case (Inl err)
      have "unat ?n = 4096 * unat ?n div 4096" by simp
      also have "\<dots> \<le> (unat sz + 4096) div 4096" using c(3) by (intro div_le_mono) simp
      also have "\<dots> = unat sz div 4096 + 1" by simp
      finally have "4 * Suc (unat ?n) \<le> 4 * (unat sz div 4096 + 2)" by simp
      then show ?thesis using e back_pages_error[OF _ Inl] pinv out_of_pages_mono[of alloc_page "4 * Suc (unat ?n)"] Inl by simp
    next
      case (Inr s1)
      obtain s2 s' ps where s': "vstore s1 (GET_METADATA (p + 4096)) (of_nat (unat ?n)) = Inr s2"
        "vstore s2 (GET_METADATA (p + 4096) + 8) VM_MAGIC = Inr s'" "vfree_top s' = p" "length ps = Suc (unat ?n)" "mapped s ps s'"
        "vblock s' (unat p + 4096) ps" "set ps \<subseteq> avail (palloc (vm s))"
        by (rule many_pages_block[OF inv p(2-4) c(1) Inr])
      have d: "unat p = vpn p * 4096" using p(2) by (auto simp: vpn_def)
      have top: "vpn (vfree_top s) * 4096 \<le> unat (vfree_top s)" by (simp add: vpn_def)
      have len: "unat p + 4096 + unat sz \<le> (vpn p + length ps) * 4096" using d c(2) s'(4) by simp
      also have "\<dots> \<le> vpn (vfree_top s) * 4096" using p(4) s'(4) by simp
      finally have fit: "unat p + 4096 + unat sz \<le> unat (vfree_top s)" using top by simp
      have "unat p + 4096 < 2 ^ 64" using fit unat_lt64[of "vfree_top s"] by linarith
      then have "unat (p + 4096) = unat p + 4096" using page_next(1)[OF p(2)] by simp
      then have "vm_memalign s al sz = Inr (unat p + 4096, s')" using e Inr s'(1,2) by simp
      moreover have "granted s al sz (unat p + 4096) s'"
        unfolding granted_def using s' fit len p(5) by auto
      ultimately show ?thesis by simp
    qed
  qed
qed

end
