(* ===== verification/VmallocFree.thy ===== *)
theory VmallocFree
  imports VmallocCorrect
begin

text \<open>
  \<open>vm_free\<close>: the frames of a block go back to the page allocator and nothing else changes.
\<close>

section \<open>Giving frames back\<close>

definition released :: "alloc_state \<Rightarrow> nat list \<Rightarrow> alloc_state \<Rightarrow> bool" where
  "released a qs a' \<longleftrightarrow> page_inv a' \<and> avail a' = avail a \<union> set qs \<and> contents a' = contents a \<and>
     (\<forall>q j. allocated a q j \<and> \<not> (q \<in> set qs \<and> j = 0) \<longrightarrow> allocated a' q j)"

lemma released_inv:
  assumes inv: "vm_inv s" and r: "released (palloc (vm s)) qs a" and own: "\<And>q. q \<in> set qs \<Longrightarrow> owned (page_root s) (vm s) q"
    and s': "s' = s\<lparr>vm := (vm s)\<lparr>palloc := a\<rparr>\<rparr>"
  shows "vm_inv s'" and "owned (page_root s) (vm s) q \<Longrightarrow> q \<notin> set qs \<Longrightarrow> owned (page_root s) (vm s') q"
    and "vblock s mem ps \<Longrightarrow> set ps \<inter> set qs = {} \<Longrightarrow> vblock s' mem ps"
proof -
  have "page_free a = page_free (palloc (vm s)) \<union> (\<lambda>q. of_nat (q * PAGE_SIZE)) ` set qs"
    using r by (auto simp: released_def page_free_def)
  moreover have "of_nat (q * PAGE_SIZE) \<notin> tabs (vmem (vm s)) 4 (page_root s)" if "q \<in> set qs" for q
    using own[OF that] by (simp add: owned_def)
  ultimately show "vm_inv s'" using inv r unfolding vm_inv_def vm_ok_def released_def s' by auto
  show o: "owned (page_root s) (vm s') q" if "owned (page_root s) (vm s) q" "q \<notin> set qs" for q
    using that r by (auto simp: owned_def released_def s')
  assume b: "vblock s mem ps" and d: "set ps \<inter> set qs = {}"
  note B = vblockD[OF b]
  have "owned (page_root s) (vm s') q" if "q \<in> set ps" for q using o[OF B(3)[OF that]] that d by blast
  moreover have "contents a = contents (palloc (vm s))" using r by (simp add: released_def)
  then have "page_word s' = page_word s" by (intro ext) (simp add: page_word_def s')
  ultimately show "vblock s' mem ps"
    unfolding vblock_def Let_def using B(1,2,4-10) by (simp add: s' del: length_greater_0_conv)
qed

lemma PAGE_MASK_GENMASK: "PAGE_MASK = GENMASK_ULL 63 12"
  by (simp add: PAGE_MASK_def GENMASK_ULL_def mask_eq_exp_minus_1)

lemma free_vpage_correct:
  assumes inv: "vm_inv s" and lf: "leaf (vmem (vm s)) 4 (page_root s) va = Some (1, page_entry (vm s) q)"
    and own: "owned (page_root s) (vm s) q"
  obtains a where "free_vpage s va = Inr (s\<lparr>vm := (vm s)\<lparr>palloc := a\<rparr>\<rparr>)" "released (palloc (vm s)) [q] a"
proof -
  have q: "0 < q" "q < 2 ^ 40" "allocated (palloc (vm s)) q 0" using own by (simp_all add: owned_def)
  have fl: "table_flags_ok (pte_opt_mask (vm s))" and pinv: "page_inv (palloc (vm s))" using inv by (simp_all add: vm_inv_def vm_ok_def)
  let ?off = "unat va mod 4096" and ?p = "of_nat (q * PAGE_SIZE) :: u64"
  have u: "unat ?p = q * PAGE_SIZE" by (rule page_of_nat(1)[OF q(2)])
  have "(of_nat (q * PAGE_SIZE + ?off) :: u64) AND PAGE_MASK = ?p"
  proof -
    have "(of_nat (q * PAGE_SIZE + ?off) :: u64) AND PAGE_MASK = of_nat (q * PAGE_SIZE + ?off) AND GENMASK_ULL 63 12"
      by (simp only: PAGE_MASK_GENMASK)
    moreover have "unat (of_nat (q * PAGE_SIZE + ?off) AND GENMASK_ULL 63 12) = q * PAGE_SIZE"
      using unat_and_GENMASK[of 12 "of_nat (q * PAGE_SIZE + ?off)"] page_offset[OF q(2), of ?off] by (simp add: PAGE_SIZE_def)
    ultimately show ?thesis using u by (metis word_unat_eq_iff)
  qed
  then have pg: "bind_res (virt_to_pte_phys (vmem (vm s)) (page_root s) va) f = f (of_nat (q * PAGE_SIZE + ?off))"
      "(of_nat (q * PAGE_SIZE + ?off) :: u64) AND PAGE_MASK = ?p" for f :: "u64 \<Rightarrow> vmalloc_state res"
    using page_entry_translate(2)[OF lf q(2) fl] by (simp_all del: of_nat_add)
  obtain F where F: "alloc_inv F (palloc (vm s))" using pinv by (auto simp: page_inv_def)
  obtain a F' where a: "free_pages (palloc (vm s)) (q * PAGE_SIZE) = Inr a" "alloc_inv F' a" "avail a = avail (palloc (vm s)) \<union> {q}"
    "contents a = contents (palloc (vm s))" "\<forall>r j. allocated (palloc (vm s)) r j \<and> \<not> (r = q \<and> j = 0) \<longrightarrow> allocated a r j"
    using free_pages_correct[OF F q(3)] by auto
  have "released (palloc (vm s)) [q] a" using a q(2) pinv by (auto simp: released_def page_inv_def)
  moreover have "?p \<noteq> 0" using u q(1) by (metis PAGE_SIZE_def mult_is_0 neq0_conv unsigned_0 zero_neq_numeral)
  then have "free_vpage s va = Inr (s\<lparr>vm := (vm s)\<lparr>palloc := a\<rparr>\<rparr>)"
    unfolding free_vpage_def pg(1) Let_def pg(2) using a(1) u by (simp add: free_page_def)
  ultimately show thesis using that by blast
qed

lemma vload_palloc: "contents a = contents (palloc (vm s)) \<Longrightarrow> vload (s\<lparr>vm := (vm s)\<lparr>palloc := a\<rparr>\<rparr>) va = vload s va"
  by (cases "translate (vmem (vm s)) (cr3 s) va") (simp_all add: vload_def)

lemma released_trans: "released a [q] b \<Longrightarrow> released b qs c \<Longrightarrow> released a (q # qs) c"
  unfolding released_def by auto

lemma free_loop_correct:
  assumes "vm_inv s" "vload s m = Inr N" "unat i + length qs = unat N + 1" "unat N + 1 < 2 ^ 64"
    and "unat p mod 4096 = 0" "unat p + length qs * 4096 < 2 ^ 64" "distinct qs"
    and "\<And>j va. j < length qs \<Longrightarrow> vpn va = vpn p + j \<Longrightarrow> leaf (vmem (vm s)) 4 (page_root s) va = Some (1, page_entry (vm s) (qs ! j))"
    and "\<And>q. q \<in> set qs \<Longrightarrow> owned (page_root s) (vm s) q"
  shows "\<exists>a. vm_free_loop s m i p = Inr (s\<lparr>vm := (vm s)\<lparr>palloc := a\<rparr>\<rparr>) \<and> released (palloc (vm s)) qs a"
  using assms
proof (induction qs arbitrary: s i p)
  case Nil
  have "unat (N + 1) = unat N + 1" using Nil.prems(4) by (simp add: unat_word_ariths)
  then have "\<not> i < N + 1" using Nil.prems(3) by (simp add: word_less_nat_alt)
  moreover have "released (palloc (vm s)) [] (palloc (vm s))" using Nil.prems(1) by (simp add: released_def vm_inv_def vm_ok_def)
  ultimately show ?case using Nil.prems(2) by (subst vm_free_loop.simps) (auto intro!: exI[of _ "palloc (vm s)"])
next
  case (Cons q qs)
  have N: "unat (N + 1) = unat N + 1" using Cons.prems(4) by (simp add: unat_word_ariths)
  then have lt: "i < N + 1" using Cons.prems(3) by (simp add: word_less_nat_alt)
  have i: "unat (i + 1) = unat i + 1" using Cons.prems(3,4) by (simp add: unat_word_ariths)
  have nx: "unat (p + 4096) = unat p + 4096" "vpn (p + 4096) = Suc (vpn p)" using page_next[OF Cons.prems(5)] Cons.prems(6) by auto
  obtain a where a: "free_vpage s p = Inr (s\<lparr>vm := (vm s)\<lparr>palloc := a\<rparr>\<rparr>)" "released (palloc (vm s)) [q] a"
    using free_vpage_correct[OF Cons.prems(1), of p q] Cons.prems(8)[of 0 p] Cons.prems(9)[of q] by auto
  let ?s = "s\<lparr>vm := (vm s)\<lparr>palloc := a\<rparr>\<rparr>"
  note ri = released_inv[OF Cons.prems(1) a(2) _ refl]
  have inv: "vm_inv ?s" using ri(1) Cons.prems(9) by simp
  have own: "owned (page_root ?s) (vm ?s) r" if "r \<in> set qs" for r
    using ri(2)[of r] Cons.prems(7,9) that by auto
  have ld: "vload ?s m = Inr N" using vload_palloc a(2) Cons.prems(2) by (simp add: released_def)
  have lf: "leaf (vmem (vm ?s)) 4 (page_root ?s) va = Some (1, page_entry (vm ?s) (qs ! j))"
    if "j < length qs" "vpn va = vpn (p + 4096) + j" for j va
    using Cons.prems(8)[of "Suc j" va] that nx(2) by simp
  have "\<exists>b. vm_free_loop ?s m (i + 1) (p + 4096) = Inr (?s\<lparr>vm := (vm ?s)\<lparr>palloc := b\<rparr>\<rparr>) \<and> released (palloc (vm ?s)) qs b"
  proof (rule Cons.IH[OF inv ld _ Cons.prems(4) _ _ _ lf own])
    show "unat (i + 1) + length qs = unat N + 1" using Cons.prems(3) i by simp
    show "unat (p + 4096) mod 4096 = 0" unfolding nx(1) using Cons.prems(5) by simp
    show "unat (p + 4096) + length qs * 4096 < 2 ^ 64" unfolding nx(1) using Cons.prems(6) by simp
    show "distinct qs" using Cons.prems(7) by simp
  qed
  then obtain b where b: "vm_free_loop ?s m (i + 1) (p + 4096) = Inr (?s\<lparr>vm := (vm ?s)\<lparr>palloc := b\<rparr>\<rparr>)" "released (palloc (vm ?s)) qs b"
    by blast
  then have "vm_free_loop s m i p = Inr (s\<lparr>vm := (vm s)\<lparr>palloc := b\<rparr>\<rparr>)"
    using Cons.prems(2) lt a(1) by (subst vm_free_loop.simps) simp
  moreover have "released (palloc (vm s)) (q # qs) b" using released_trans[OF a(2)] b(2) by simp
  ultimately show ?case by blast
qed

section \<open>Releasing a block\<close>

lemma multiple_Suc: "m mod d = 0 \<Longrightarrow> 0 < m \<Longrightarrow> \<exists>j. m = d * Suc (j :: nat)"
  by (metis dvdE gr0_implies_Suc mod_0_imp_dvd mult_is_0 neq0_conv)

text \<open>The words before a block lie in its first page.\<close>

lemma block_address:
  assumes b: "vblock s mem ps"
  shows "unat (of_nat mem :: u64) = mem" "mem < 2 ^ 64"
    and "k \<in> {8, 16} \<Longrightarrow> k \<le> mem \<Longrightarrow> unat (of_nat mem - of_nat k :: u64) = mem - k"
    and "vpn (of_nat mem - 8) = (mem - 1) div 4096" "8 \<le> mem"
proof -
  note B = vblockD[OF b]
  have "mem - 1 < ((mem - 1) div 4096 + 1) * 4096" by (metis add.commute dividend_less_div_times mult.commute mult_Suc_right plus_1_eq_Suc zero_less_numeral)
  also have "\<dots> \<le> ((mem - 1) div 4096 + length ps) * 4096" using B(1) by (simp add: Suc_leI)
  finally show lt: "mem < 2 ^ 64" using B(7) by linarith
  then show u: "unat (of_nat mem :: u64) = mem" by (simp add: unsigned_of_nat take_bit_eq_mod)
  show d: "unat (of_nat mem - of_nat k :: u64) = mem - k" if "k \<in> {8, 16}" "k \<le> mem" for k
    using that lt by (simp add: of_nat_diff[symmetric] unsigned_of_nat take_bit_eq_mod del: of_nat_diff)
  obtain j where j: "mem = 8 * Suc j" using multiple_Suc[OF B(4,5)] by blast
  then show "8 \<le> mem" by simp
  have "(mem - 8) div 4096 = (mem - 1) div 4096"
    using div_mult2_eq[of "mem - 8" 8 512] div_mult2_eq[of "mem - 1" 8 512] div_nat_eqI[of 8 j "mem - 1"] j by simp
  then show "vpn (of_nat mem - 8) = (mem - 1) div 4096" using d[of 8] j by (simp add: vpn_def)
qed

lemma block_word:
  assumes inv: "vm_inv s" and b: "vblock s mem ps" and k: "k = 8 \<or> k = 16 \<and> mem mod 4096 = 0"
  shows "vload s (of_nat mem - of_nat k) = Inr (page_word s (hd ps) ((mem - k) mod 4096))"
    and "vpn (of_nat mem - of_nat k) = (mem - 1) div 4096"
proof -
  note B = vblockD[OF b] and A = block_address[OF b]
  have kl: "k \<in> {8, 16}" "k \<le> mem" using k A(5) B(5) by (auto simp: mod_eq_0_iff_dvd dvd_imp_le dest: dvd_imp_le)
  have u: "unat (of_nat mem - of_nat k :: u64) = mem - k" by (rule A(3)[OF kl])
  have "(mem - 16) div 4096 = (mem - 1) div 4096" if z: "mem mod 4096 = 0"
  proof -
    obtain j where "mem = 4096 * Suc j" using multiple_Suc[OF z B(5)] by blast
    then show ?thesis using div_nat_eqI[of 4096 j "mem - 16"] div_nat_eqI[of 4096 j "mem - 1"] by simp
  qed
  then show v: "vpn (of_nat mem - of_nat k) = (mem - 1) div 4096" using k A(4) u by (auto simp: vpn_def)
  have "8 dvd mem - k" using k B(4) by (auto simp: mod_eq_0_iff_dvd dvd_diff_nat)
  moreover have "hd ps = ps ! 0" "hd ps < 2 ^ 40" using B(1,3) by (simp_all add: hd_conv_nth owned_def)
  ultimately show "vload s (of_nat mem - of_nat k) = Inr (page_word s (hd ps) ((mem - k) mod 4096))"
    using vload_page[OF inv, of "of_nat mem - of_nat k" "hd ps"] B(1) B(8)[of "of_nat mem - of_nat k"] v u by simp
qed

lemma vm_free_correct:
  assumes inv: "vm_inv s" and b: "vblock s mem ps"
  obtains a where "vm_free s mem = Inr (s\<lparr>vm := (vm s)\<lparr>palloc := a\<rparr>\<rparr>)" "released (palloc (vm s)) ps a"
proof -
  note B = vblockD[OF b] and A = block_address[OF b] and W = block_word[OF inv b]
  let ?m = "of_nat mem :: u64"
  have nz: "?m \<noteq> 0" using A(1) B(5) by (metis less_irrefl unsigned_0)
  have al: "IS_ALIGNED ?m 4096 \<longleftrightarrow> mem mod 4096 = 0" using IS_ALIGNED_iff[of 12 ?m] A(1) by simp
  have magic: "vload s (?m - 8) = Inr VM_MAGIC" using W(1)[of 8] B(9) by simp
  show thesis
  proof (cases "mem mod 4096 = 0")
    case False
    then obtain q where q: "ps = [q]" using B(10) by (auto simp: length_Suc_conv)
    have "(mem - 1) div 4096 = mem div 4096" using False by (metis Suc_diff_1 B(5) div_Suc)
    then have "leaf (vmem (vm s)) 4 (page_root s) ?m = Some (1, page_entry (vm s) q)"
      using B(8)[of ?m] q A(1) by (simp add: vpn_def)
    then obtain a where "free_vpage s ?m = Inr (s\<lparr>vm := (vm s)\<lparr>palloc := a\<rparr>\<rparr>)" "released (palloc (vm s)) [q] a"
      using free_vpage_correct[OF inv] B(3) q by auto
    then show thesis using that[of a] False nz al magic q by (simp add: vm_free_def GET_MAGIC_def)
  next
    case True
    let ?b = "(mem - 1) div 4096" and ?N = "of_nat (length ps - 1) :: u64" and ?p = "(?m - 16) AND PAGE_MASK"
    have len: "2 \<le> length ps" using B(10) True by simp
    have np: "vload s (?m - 16) = Inr ?N" using W(1)[of 16] B(10) True by simp
    have N: "unat ?N = length ps - 1" "length ps < 2 ^ 52" using B(7) by (simp_all add: unsigned_of_nat take_bit_eq_mod)
    have p: "unat ?p = ?b * 4096"
      unfolding PAGE_MASK_GENMASK using unat_and_GENMASK[of 12 "?m - 16"] W(2)[of 16] True by (simp add: vpn_def)
    then have vp: "vpn ?p = ?b" by (simp add: vpn_def)
    have "\<exists>a. vm_free_loop s (?m - 16) 0 ?p = Inr (s\<lparr>vm := (vm s)\<lparr>palloc := a\<rparr>\<rparr>) \<and> released (palloc (vm s)) ps a"
    proof (rule free_loop_correct[OF inv np _ _ _ _ B(2) _ B(3)])
      show "unat (0 :: u64) + length ps = unat ?N + 1" "unat ?N + 1 < 2 ^ 64" unfolding N(1) using len N(2) by simp_all
      show "unat ?p mod 4096 = 0" "unat ?p + length ps * 4096 < 2 ^ 64" unfolding p using B(7) by (simp_all add: algebra_simps)
      show "leaf (vmem (vm s)) 4 (page_root s) va = Some (1, page_entry (vm s) (ps ! j))" if "j < length ps" "vpn va = vpn ?p + j" for j va
        using B(8)[of va] that vp by simp
    qed
    then obtain a where a: "vm_free_loop s (?m - 16) 0 ?p = Inr (s\<lparr>vm := (vm s)\<lparr>palloc := a\<rparr>\<rparr>)" "released (palloc (vm s)) ps a"
      by blast
    have "0 < ?N" "?N < push_bit 52 1" using N len by (simp_all add: word_less_nat_alt)
    then show thesis
      using that[OF _ a(2)] a(1) True nz al magic np by (simp add: vm_free_def GET_METADATA_def Let_def PAGE_SHIFT_def)
  qed
qed

end
