(* ===== verification/VmallocSetup.thy ===== *)
theory VmallocSetup
  imports VmallocFree
begin

text \<open>
  \<open>setup_vm\<close>: the memory of the early allocator goes to the page allocator, \<open>setup_mmu\<close> maps it one to
  one, and the virtual allocator starts in its invariant.
\<close>

section \<open>Memory for the page allocator\<close>

lemma init_locked_inv:
  assumes "alloc_inv F a" "page_alloc_init_area_locked a n b t = Inr a'"
  shows "\<exists>F'. alloc_inv F' a' \<and> avail a' \<subseteq> avail a \<union> {..<t}"
  using init_area_correct[OF assms(1) init_area_checks[OF assms(2)]] assms(2) by auto

lemma init_cutoff_inv:
  assumes "alloc_inv F a" "page_alloc_init_area_cutoff a n c b t = Inr (t', a')"
  shows "t' \<le> t \<and> (\<exists>F'. alloc_inv F' a' \<and> avail a' \<subseteq> avail a \<union> {..<t})"
proof (cases "c < t")
  case True
  then obtain d where "page_alloc_init_area_locked a n d t = Inr a'" "t' \<le> t"
    using assms(2) by (auto simp: page_alloc_init_area_cutoff_def res_simps split: if_splits)
  then show ?thesis using init_locked_inv[OF assms(1)] by blast
next
  case False
  then show ?thesis using assms by (auto simp: page_alloc_init_area_cutoff_def)
qed

lemma init_cutoff_page_inv:
  assumes "page_inv a" "page_alloc_init_area_cutoff a n c b t = Inr (t', a')" "t \<le> 2 ^ 40"
  shows "page_inv a'" "t' \<le> 2 ^ 40"
proof -
  obtain F where F: "alloc_inv F a" "avail a \<subseteq> {..<2 ^ 40}" using assms(1) by (auto simp: page_inv_def)
  from init_cutoff_inv[OF F(1) assms(2)] obtain F' where r: "t' \<le> t" "alloc_inv F' a'" "avail a' \<subseteq> avail a \<union> {..<t}" by blast
  have "{..<t} \<subseteq> {..<2 ^ 40}" using assms(3) by (simp only: lessThan_subset_iff)
  then have "avail a' \<subseteq> {..<2 ^ 40}" by (rule subset_trans[OF r(3) Un_least[OF F(2)]])
  then show "page_inv a'" unfolding page_inv_def using r(2) by blast
  show "t' \<le> 2 ^ 40" using r(1) assms(3) by (rule order_trans)
qed

lemma init_area_inv:
  assumes "page_inv a" "page_alloc_init_area a AREA_ANY_NUMBER b t = Inr a'" "t \<le> 2 ^ 40"
  shows "page_inv a'"
proof -
  obtain t1 a1 t2 a2 t3 a3 t4 where
    1: "page_alloc_init_area_cutoff a AREA_HIGH_NUMBER AREA_HIGH_PFN b t = Inr (t1, a1)"
    and 2: "page_alloc_init_area_cutoff a1 AREA_NORMAL_NUMBER AREA_NORMAL_PFN b t1 = Inr (t2, a2)"
    and 3: "page_alloc_init_area_cutoff a2 AREA_LOW_NUMBER AREA_LOW_PFN b t2 = Inr (t3, a3)"
    and 4: "page_alloc_init_area_cutoff a3 AREA_LOWEST_NUMBER AREA_LOWEST_PFN b t3 = Inr (t4, a')"
    using assms(2) by (auto simp: page_alloc_init_area_def res_simps)
  note c1 = init_cutoff_page_inv[OF assms(1) 1 assms(3)]
  note c2 = init_cutoff_page_inv[OF c1(1) 2 c1(2)]
  note c3 = init_cutoff_page_inv[OF c2(1) 3 c2(2)]
  show ?thesis by (rule init_cutoff_page_inv(1)[OF c3(1) 4 c3(2)])
qed

section \<open>The first page tables\<close>

lemma leaf_cong: "same_path 1 l va va' \<Longrightarrow> leaf m l b va = leaf m l b va'"
proof (induction l arbitrary: b)
  case (Suc l)
  have "PGDIR_OFFSET va (Suc l) = PGDIR_OFFSET va' (Suc l)" "same_path 1 l va va'"
    using Suc.prems by (auto simp: same_path_def)
  then show ?case using Suc.IH by (simp add: Let_def)
qed simp

lemma leaf_low:
  assumes "canonical va" "high_half \<le> unat va"
  obtains va' where "2 ^ 47 \<le> unat va'" "unat va' < 2 ^ 48" "leaf m 4 b va = leaf m 4 b va'"
proof -
  let ?n = "unat va mod 2 ^ 48" and ?va = "of_nat (unat va mod 2 ^ 48) :: u64"
  have n: "?n = unat va - (2 ^ 64 - 2 ^ 48)" using canonical_mod[OF assms(1)] assms(2) by simp
  have u: "unat ?va = ?n" by (simp add: unsigned_of_nat take_bit_eq_mod)
  have "region 1 va = region 1 ?va" by (simp only: region_div u) simp
  then have "leaf m 4 b va = leaf m 4 b ?va" by (intro leaf_cong) (simp add: same_path_region)
  moreover have "2 ^ 47 \<le> ?n" using n assms(2) by simp
  ultimately show thesis using that[of ?va] u by simp
qed

text \<open>The end of the mapping, and the tables it can take, with the top-level one.\<close>

definition map_end :: "u64 \<Rightarrow> u64" where
  "map_end e = (if e < 0x100000000 then 0x100000000 else e)"

definition identity_mapped :: "vmalloc_state \<Rightarrow> u64 \<Rightarrow> bool" where
  "identity_mapped s e \<longleftrightarrow>
     (\<forall>va. unat va < 2 ^ 47 \<longrightarrow> translate (vmem (vm s)) (page_root s) va = (if va < e then Some va else None))"

lemma setup_mmu_correct:
  assumes inv: "page_inv (palloc (vm s))" and ops: "alloc_ops_ptr s \<noteq> VmallocOps"
    and e: "unat e mod 4096 = 0" "unat e \<le> 2 ^ 47" and opt: "\<forall>f. opt = Some f \<longrightarrow> table_flags_ok f"
  obtains err where "setup_mmu s e opt = Some (Inl err)" "out_of_pages alloc_page (Suc (setup_tables (unat (map_end e)))) (palloc (vm s)) err"
    | root s' where "setup_mmu s e opt = Some (Inr (root, s'))" "vm_inv (s'\<lparr>page_root := root\<rparr>)"
        "identity_mapped (s'\<lparr>page_root := root\<rparr>) (map_end e)" "vfree_top s' = 0xFFFFFFFFFFFFF000" "alloc_ops_ptr s' = alloc_ops_ptr s"
proof -
  obtain pg a where al: "alloc_page (palloc (vm s)) = Inr (pg, a)" using pt_pages.total[OF inv] by blast
  let ?f = "case opt of Some f \<Rightarrow> f | None \<Rightarrow> PT_USER_MASK" and ?root = "of_nat pg :: u64"
  let ?v = "(vm s)\<lparr>palloc := a, pte_opt_mask := ?f, vmem := pt_clear (vmem (vm s)) ?root\<rparr>"
  have fl: "table_flags_ok ?f" using opt user_flags_ok by (cases opt) auto
  have end32: "(if e < push_bit 32 1 then push_bit 32 1 else e) = map_end e" by (simp add: map_end_def)
  have len: "unat (map_end e) mod 4096 = 0" "unat (map_end e) \<le> 2 ^ 47" using e by (simp_all add: map_end_def)
  from inv al show thesis
  proof (cases rule: alloc_page_step)
    case 1
    then have "setup_mmu s e opt = Some (Inl Undef)" using al by (simp add: setup_mmu_def)
    moreover have "out_of_pages alloc_page (Suc (setup_tables (unat (map_end e)))) (palloc (vm s)) Undef"
      using al 1 by (auto simp: out_of_pages_def intro!: exI[of _ 0] drawn_0)
    ultimately show thesis by (rule that(1))
  next
    case (2 q)
    have nz: "?root \<noteq> 0" using page_of_nat(1)[OF 2(6)] 2(1,2) by (metis unsigned_0)
    have one: "drawn alloc_page 1 (palloc (vm s)) a" using drawn_Suc[of alloc_page, OF al 2(2) drawn_0] by simp
    have nf: "?root \<notin> page_free a" using page_free_iff[OF 2(4,6)] 2(1,8) by simp
    have c: "vmem ?v ?root = (\<lambda>_. 0)" by (simp add: pt_clear_def)
    have pre: "page_inv (palloc ?v)" "?root \<notin> page_free (palloc ?v)" "table_flags_ok (pte_opt_mask ?v)" "unat (map_end e) \<le> 2 ^ 48"
      using 2(4) nf fl len(2) by simp_all
    have unf: "setup_mmu s e opt = (case setup_mmu_range alloc_page ?v ?root 0 (map_end e) of None \<Rightarrow> None
        | Some r \<Rightarrow> Some (bind_res r (\<lambda>v. bind_res (init_alloc_vpage (s\<lparr>vm := v\<rparr>) (NOT (4096 - 1))) (\<lambda>s.
            Inr (?root, s\<lparr>cr3 := ?root, cr0 := push_bit 31 1 OR push_bit 0 1 OR push_bit 16 1\<rparr>)))))"
      unfolding setup_mmu_def Let_def end32 using al nz by simp
    from pre(1) c pre(2,3) len(1) pre(4) show thesis
    proof (cases rule: pt_pages.setup_range_correct)
      case (1 err)
      then show thesis using that(1)[of err] out_of_pages_later[OF one 1(2)[simplified]] by (simp add: unf)
    next
      case (2 v)
      let ?s = "s\<lparr>vm := v, vfree_top := 0xFFFFFFFFFFFFF000, cr3 := ?root, cr0 := push_bit 31 1 OR push_bit 0 1 OR push_bit 16 1\<rparr>"
      have r: "setup_mmu s e opt = Some (Inr (?root, ?s))" using ops 2(1) by (simp add: unf init_alloc_vpage_def)
      have id: "identity_mapped (?s\<lparr>page_root := ?root\<rparr>) (map_end e)" using 2(4) by (simp add: identity_mapped_def)
      have "leaf (vmem v) 4 ?root va = None" if h: "high_half \<le> unat va" for va
      proof -
        obtain va' where l: "2 ^ 47 \<le> unat va'" "unat va' < 2 ^ 48" "leaf (vmem v) 4 ?root va = leaf (vmem v) 4 ?root va'"
          by (rule leaf_low[OF high_canonical[OF h] h])
        have "\<not> va' < map_end e" using l(1) len(2) by (simp add: word_less_nat_alt)
        then show ?thesis using 2(4)[OF l(2)] l(3) by (auto simp: translate_def PAGE_LEVEL_def split: option.splits)
      qed
      then have "vm_inv (?s\<lparr>page_root := ?root\<rparr>)" using 2(2) by (simp add: vm_inv_def)
      then show thesis using that(2)[OF r _ id] by simp
    qed
  qed
qed

section \<open>Setup\<close>

lemma setup_vm_low_eq:
  assumes "phys_inv (phys s)" "nr_regions (phys s) < PHYS_ALLOC_NR_REGIONS" "phys_base (phys s) \<noteq> phys_top (phys s)"
    and "\<not> page_alloc_initialized (palloc (vm s))"
  obtains ph where "phys_base ph = phys_top (phys s)" "phys_top ph = phys_top (phys s)"
    "setup_vm_low s = bind_res (page_alloc_init_area (palloc (vm s)) AREA_ANY_NUMBER
        (unat (drop_bit PAGE_SHIFT (PAGE_ALIGN (phys_base (phys s))))) (unat (drop_bit PAGE_SHIFT (phys_top (phys s)))))
      (\<lambda>a. Inr (s\<lparr>phys := ph, vm := (vm s)\<lparr>palloc := a\<rparr>, alloc_ops_ptr := PageAllocOps\<rparr>))"
proof -
  obtain ph where ph: "phys_alloc_get_unused (phys s) = Inr (phys_base (phys s), phys_top (phys s), ph)"
    "phys_base ph = phys_top (phys s)" "phys_top ph = phys_top (phys s)"
    using phys_alloc_get_unused_correct[OF assms(1,2)] by blast
  show thesis
    by (rule that[OF ph(2,3)]) (use ph(1) assms(3,4) in \<open>simp add: setup_vm_low_def give_pages_def Let_def bind_res_assoc\<close>)
qed

lemma setup_vm_high_eq:
  assumes "phys_base (phys s) = phys_top (phys s)"
  shows "setup_vm_high s opaque = (case setup_mmu s (phys_top (phys s)) opaque of None \<Rightarrow> None
    | Some r \<Rightarrow> Some (bind_res r (\<lambda>(root, s). require (alloc_ops_ptr s \<noteq> VmallocOps)
        (Inr (s\<lparr>page_root := root, alloc_ops_ptr := VmallocOps\<rparr>)))))"
proof -
  have "phys_alloc_get_unused (phys s) = Inr (phys_top (phys s), phys_top (phys s), phys s)"
    using assms by (simp add: phys_alloc_get_unused_def)
  then show ?thesis by (simp add: setup_vm_high_def Let_def split: option.splits)
qed

lemma vm_inv_ops: "vm_inv (s\<lparr>alloc_ops_ptr := x\<rparr>) = vm_inv s" "identity_mapped (s\<lparr>alloc_ops_ptr := x\<rparr>) e = identity_mapped s e"
  by (simp_all add: vm_inv_def identity_mapped_def)


text \<open>A machine with the frames 3 to 31 in the early allocator.\<close>

definition boot_machine :: vmalloc_state where
  "boot_machine = \<lparr>vm = \<lparr>vmem = (\<lambda>_ _. 0), palloc = boot_state, pte_opt_mask = 0\<rparr>, vfree_top = 0, page_root = 0,
     alloc_ops_ptr = EarlyAllocOps, phys = early_state\<lparr>phys_base := 0x3000, phys_top := 0x20000\<rparr>, cr0 = 0, cr3 = 0\<rparr>"


end
