(* ===== verification/VmallocProps.thy ===== *)
theory VmallocProps
  imports VmallocSetup
begin

text \<open>
  The properties of \<open>lib/vmalloc.c\<close>, on a small machine where they have hypotheses.
\<close>

definition vm_machine :: vmalloc_state where
  "vm_machine = boot_machine\<lparr>vm := mmu_state, vfree_top := 0xFFFFFFFFFFFFF000, page_root := 0x1000, cr3 := 0x1000,
     alloc_ops_ptr := VmallocOps\<rparr>"

lemma vm_machine_inv: "vm_inv vm_machine"
  using mmu_state_ok by (simp add: vm_inv_def vm_machine_def)

lemma small_pages:
  "bind_res (alloc_page small_state) (\<lambda>(p1, a). bind_res (alloc_page a) (\<lambda>(p2, a). bind_res (alloc_page a) (\<lambda>(p3, a).
     bind_res (alloc_page a) (\<lambda>(p4, a). Inr [p1, p2, p3, p4])))) = Inr [0x4000, 0x5000, 0x6000, 0x7000]"
  by (simp add: alloc_eval cong: eval_cong)

lemma small_not_exhausted: "\<not> out_of_pages alloc_page 4 small_state err"
proof -
  obtain a1 a2 a3 a4 where a: "alloc_page small_state = Inr (0x4000, a1)" "alloc_page a1 = Inr (0x5000, a2)"
    "alloc_page a2 = Inr (0x6000, a3)" "alloc_page a3 = Inr (0x7000, a4)"
    using small_pages by (auto simp: res_simps)
  have *: "drawn alloc_page (Suc n) a b \<Longrightarrow> alloc_page a = Inr (p, a') \<Longrightarrow> drawn alloc_page n a' b" for n a b p a'
    by (erule drawn.cases) auto
  have 0: "drawn alloc_page 0 a b \<Longrightarrow> b = a" for a b by (erule drawn.cases) auto
  have "alloc_page b \<noteq> Inr (0, b)" if "m < 4" "drawn alloc_page m small_state b" for m b
  proof -
    have "m = 0 \<or> m = Suc 0 \<or> m = Suc (Suc 0) \<or> m = Suc (Suc (Suc 0))" using that(1) by linarith
    then show ?thesis using that(2) a by (auto dest!: * 0)
  qed
  then show ?thesis by (auto simp: out_of_pages_def)
qed

lemma vm_machine_served:
  obtains p s' q where "vm_alloc_one_page vm_machine 8 = Inr (p, s')" "vm_inv s'" "vblock s' (unat p) [q]"
proof -
  have st: "palloc (vm vm_machine) = small_state" "unat (vfree_top vm_machine) = 0xFFFFFFFFFFFFF000"
    by (simp_all add: vm_machine_def mmu_state_def)
  obtain a where "alloc_page small_state = Inr (0x4000, a)" using small_pages by (auto simp: res_simps)
  then have "case vm_alloc_one_page vm_machine 8 of Inl err \<Rightarrow> False
    | Inr (p, s') \<Rightarrow> \<exists>q. mapped vm_machine [q] s' \<and> vblock s' (unat p) [q]"
    using vm_alloc_one_page_correct[OF vm_machine_inv, of 8] small_not_exhausted st
    by (auto split: sum.splits)
  then show thesis using that by (auto simp: mapped_def split: sum.splits)
qed

section \<open>Mapping physical memory\<close>

lemma vmap_loop_eq: "vmap_loop n s phy p =
    bind_res (repeat_install (\<lambda>v. install_page alloc_page v (page_root s)) n 4096 (vm s) phy p) (\<lambda>v. Inr (s\<lparr>vm := v\<rparr>))"
  by (induction n arbitrary: s phy p) (auto simp: bind_res_def split: sum.splits)

lemma vmap_loop_install:
  assumes "unat phy mod 4096 = 0" "unat p mod 4096 = 0" "unat phy + n * 4096 \<le> 2 ^ 52" "unat len = n * 4096"
    and "install_pages alloc_page (vm s) (page_root s) phy len p = Some r"
  shows "vmap_loop n s phy p = bind_res r (\<lambda>v. Inr (s\<lparr>vm := v\<rparr>))"
proof -
  have zero: "x mod 4096 = 0 \<longleftrightarrow> unat x mod 4096 = 0" for x :: u64 by (simp add: word_unat_eq_iff unat_mod_distrib)
  have "unat (len + phy) = unat len + unat phy" using assms(3,4) by (simp add: unat_word_ariths)
  then show ?thesis
    using assms install_pages_loop_eq[of phy n "len + phy" alloc_page "vm s" "page_root s" p]
    by (simp add: install_pages_def zero vmap_loop_eq)
qed

text \<open>
  \<open>vmap\<close> maps the physical pages that hold the range to fresh virtual pages and keeps the invariant.
\<close>

lemma vmap_correct:
  assumes inv: "vm_inv s" and sz: "sz \<noteq> 0" "high_half + unat sz + 4 * 4096 \<le> unat (vfree_top s)"
    and phy: "unat phy + unat sz + 4096 \<le> 2 ^ 52"
  shows "case vmap s phy sz of
      Inl err \<Rightarrow> out_of_pages alloc_page (3 * unat (PAGE_ALIGN sz div 4096)) (palloc (vm s)) err
    | Inr (mem, s') \<Rightarrow> vm_inv s' \<and> vfree_top s' = mem \<and> unat mem + unat sz \<le> unat (vfree_top s) \<and>
        range_mapped (vmem (vm s)) (vmem (vm s')) (page_root s) mem (phy AND NOT (4096 - 1)) (unat (PAGE_ALIGN sz))"
proof -
  let ?n = "PAGE_ALIGN sz div 4096" and ?t = "unat (vfree_top s)" and ?phy = "phy AND NOT (4096 - 1)" and ?r = "page_root s"
  have "unat sz + 4096 < 2 ^ 64" using phy by simp
  note c = page_count[OF sz(1) this]
  have "unat (PAGE_ALIGN sz) = (unat sz + 4095) div 4096 * 4096" using ALIGN_pow2[of 12 sz] phy by (simp add: PAGE_ALIGN_def)
  then have len: "unat (PAGE_ALIGN sz) = unat ?n * 4096" by (simp add: unat_div_distrib)
  have need: "4096 * unat ?n + 2 ^ (12 + 0) + 4096 + high_half \<le> ?t" using c(3) sz(2) by simp
  have t: "4096 dvd ?t" using inv by (simp add: vm_inv_def mod_eq_0_iff_dvd)
  obtain p where p: "do_alloc_vpages s ?n 0 False = Inr (p, s\<lparr>vfree_top := p\<rparr>)" "unat p = (?t - 4096 * unat ?n) div 4096 * 4096"
    using do_alloc_vpages_eq[of 0 ?n s False] need by auto
  have "4096 dvd ?t - 4096 * unat ?n" using t by (simp add: dvd_diff_nat)
  then have up: "unat p + 4096 * unat ?n = ?t" "unat p mod 4096 = 0" using p(2) need by auto
  then have hi: "high_half \<le> unat p" using need by linarith
  have "?phy = phy AND GENMASK_ULL 63 12" using PAGE_MASK_GENMASK by (simp add: PAGE_MASK_def)
  then have ph: "unat ?phy = unat phy div 4096 * 4096" using unat_and_GENMASK[of 12 phy] by simp
  then have ph': "unat ?phy mod 4096 = 0" "unat ?phy + unat (PAGE_ALIGN sz) \<le> 2 ^ 52" "unat (PAGE_ALIGN sz) \<le> 2 ^ 48"
    using phy c(3) len sz(2) unat_lt64[of "vfree_top s"] div_times_less_eq_dividend[of "unat phy" 4096] by (auto simp: algebra_simps)
  have vp: "alloc_vpages s ?n = Inr (p, s\<lparr>vfree_top := p\<rparr>)" using p(1) by (simp add: alloc_vpages_def alloc_vpages_aligned_def)
  have ok: "vm_ok page_inv page_free (vm s) 4 ?r" using inv by (simp add: vm_inv_def)
  have at: "unat (p + of_nat off) = unat p + off" "vpn p \<le> vpn (p + of_nat off)" "vpn (p + of_nat off) < vpn (vfree_top s)"
    if "off < unat (PAGE_ALIGN sz)" for off
  proof -
    have "unat p + off < ?t" using that len up(1) by simp
    then show u: "unat (p + of_nat off) = unat p + off" using unat_lt64[of "vfree_top s"]
      by (simp add: unat_word_ariths unsigned_of_nat take_bit_eq_mod mod_add_right_eq)
    show "vpn p \<le> vpn (p + of_nat off)" unfolding vpn_def u by (simp add: div_le_mono)
    show "vpn (p + of_nat off) < vpn (vfree_top s)"
      unfolding vpn_def u using \<open>unat p + off < ?t\<close> t by (auto simp: less_mult_imp_div_less elim!: dvdE)
  qed
  have lf: "\<forall>off < unat (PAGE_ALIGN sz). \<forall>j e. leaf (vmem (vm s)) 4 ?r (p + of_nat off) = Some (j, e) \<longrightarrow> j \<le> 1"
    using at inv hi by (auto simp: vm_inv_def)
  have fit: "unat ?phy + unat ?n * 4096 \<le> 2 ^ 52" using ph'(2) len by simp
  have inst: "vmap_loop (unat ?n) (s\<lparr>vfree_top := p\<rparr>) ?phy p = bind_res r (\<lambda>v. Inr (s\<lparr>vfree_top := p, vm := v\<rparr>))"
    if "install_pages alloc_page (vm s) ?r ?phy (PAGE_ALIGN sz) p = Some r" for r
    using vmap_loop_install[of ?phy p "unat ?n" "PAGE_ALIGN sz" "s\<lparr>vfree_top := p\<rparr>" r] ph'(1) up(2) fit len that by simp
  have l4: "unat (PAGE_ALIGN sz) mod 4096 = 0" unfolding len by simp
  from ok ph'(1) up(2) l4 ph'(2,3) lf show ?thesis
  proof (cases rule: pt_pages.install_pages_correct)
    case (1 err)
    then show ?thesis using inst[OF 1(1)] vp len by (simp add: vmap_def Let_def mult.commute)
  next
    case (2 v)
    let ?s = "s\<lparr>vfree_top := p, vm := v\<rparr>"
    have "leaf (vmem v) 4 ?r va = None" if va: "high_half \<le> unat va" "vpn va < vpn p" for va
    proof -
      have "region 1 va \<noteq> region 1 (p + of_nat off)" if "off < unat (PAGE_ALIGN sz)" for off
        using region_canonical[of va "p + of_nat off"] high_canonical at[OF that] va hi by auto
      moreover have "vpn p \<le> vpn (vfree_top s)" using up(1) by (simp add: vpn_def div_le_mono)
      then have "leaf (vmem (vm s)) 4 ?r va = None" using inv va by (simp add: vm_inv_def)
      ultimately show ?thesis using 2(4) by (simp add: range_mapped_def)
    qed
    then have "vm_inv ?s" using inv 2(2) up(2) hi by (simp add: vm_inv_def)
    then show ?thesis using inst[OF 2(1)] vp 2(4) up(1) c(2) by (simp add: vmap_def Let_def)
  qed
qed

section \<open>Requests and releases\<close>

text \<open>
  C19: what the virtual allocator hands out. A request with room below the top of the free addresses
  is refused only when the page allocator runs out of pages before every virtual page has its frame
  and its tables. Otherwise the memory is aligned, lies below everything handed out before, and
  each of its pages is mapped to a frame of its own that was available before; all other
  mappings and the blocks handed out before stay as they are, and the invariant holds again. The
  exception is a request that fits in a page when no frame is left: it is served with frame 0.
\<close>

theorem vm_memalign_serves:
  assumes "vm_inv s" "is_power_of_2 al" "sz \<noteq> 0" "has_room s al sz"
  shows "case vm_memalign s al sz of
      Inl err \<Rightarrow> err \<in> {Undef, AssertFail} \<and> out_of_pages alloc_page (4 * (unat sz div 4096 + 2)) (palloc (vm s)) Undef
    | Inr (mem, s') \<Rightarrow> granted s al sz mem s'"
  by (rule vm_memalign_correct[OF assms])

theorem vm_memalign_serves_witness:
  "vm_inv vm_machine \<and> (case vm_memalign vm_machine 64 10000 of
      Inl err \<Rightarrow> err \<in> {Undef, AssertFail} \<and> out_of_pages alloc_page 16 small_state Undef
    | Inr (mem, s') \<Rightarrow> granted vm_machine 64 10000 mem s')"
proof -
  have "is_power_of_2 64" "has_room vm_machine 64 10000" "palloc (vm vm_machine) = small_state"
    by (simp_all add: is_power_of_2_def has_room_def vm_machine_def mmu_state_def)
  with vm_memalign_serves[OF vm_machine_inv, of 64 10000] vm_machine_inv show ?thesis by (auto split: sum.splits)
qed

text \<open>
  C20: releasing a block returns: exactly its frames become available again, memory and
  mappings are untouched, the invariant holds, and every block on other frames stays a block. With
  the property above, blocks can be requested and released in any order.
\<close>

theorem vm_free_releases:
  assumes "vm_inv s" "vblock s mem ps"
  shows "\<exists>a s'. vm_free s mem = Inr s' \<and> s' = s\<lparr>vm := (vm s)\<lparr>palloc := a\<rparr>\<rparr> \<and> vm_inv s' \<and>
    avail a = avail (palloc (vm s)) \<union> set ps \<and> contents a = contents (palloc (vm s)) \<and>
    (\<forall>mem' ps'. vblock s mem' ps' \<and> set ps' \<inter> set ps = {} \<longrightarrow> vblock s' mem' ps')"
proof -
  obtain a where a: "vm_free s mem = Inr (s\<lparr>vm := (vm s)\<lparr>palloc := a\<rparr>\<rparr>)" "released (palloc (vm s)) ps a"
    by (rule vm_free_correct[OF assms])
  note r = released_inv[OF assms(1) a(2) vblockD(3)[OF assms(2)] refl]
  show ?thesis using a r(1,3) by (auto simp: released_def)
qed

theorem vm_free_releases_witness:
  "\<exists>p s q s'. vm_alloc_one_page vm_machine 8 = Inr (p, s) \<and> vm_free s (unat p) = Inr s' \<and>
     avail (palloc (vm s')) = insert q (avail (palloc (vm s)))"
proof (rule vm_machine_served)
  fix p s q assume s: "vm_alloc_one_page vm_machine 8 = Inr (p, s)" "vm_inv s" "vblock s (unat p) [q]"
  from vm_free_releases[OF s(2,3)] s(1) show ?thesis by fastforce
qed



end
