(* ===== verification/Access.thy ===== *)
theory Access
  imports X86Paging
begin

text \<open>
  \<open>x86/access.c\<close>: the page-table access tests. A test case is a set of flags: bits of the page
  directory and page table entry, processor modes and the kind of access. The code writes
  the entries, predicts the outcome of the access (fault, error code, accessed and dirty
  bits), performs it and compares. The processor and the link addresses are the record
  \<open>platform\<close>; the contents of the page under test and the console are left out.
\<close>

section \<open>Flags\<close>

datatype ac_flag =
    AC_PTE_WRITABLE | AC_PTE_USER | AC_PTE_ACCESSED | AC_PTE_DIRTY | AC_PTE_NX | AC_PTE_PRESENT | AC_PTE_BIT51 | AC_PTE_BIT36
  | AC_PDE_WRITABLE | AC_PDE_USER | AC_PDE_ACCESSED | AC_PDE_DIRTY | AC_PDE_PSE | AC_PDE_NX | AC_PDE_PRESENT
  | AC_PDE_BIT51 | AC_PDE_BIT36 | AC_PDE_BIT13
  | AC_PDPTE_NO_WRITABLE
  | AC_PKU_AD | AC_PKU_WD | AC_PKU_PKEY
  | AC_ACCESS_USER | AC_ACCESS_WRITE | AC_ACCESS_FETCH | AC_ACCESS_TWICE
  | AC_CPU_EFER_NX | AC_CPU_CR0_WP | AC_CPU_CR4_SMEP | AC_CPU_CR4_PKE
  | AC_FEP

text \<open>The position of a flag in the enumeration.\<close>

fun ac_bit :: "ac_flag \<Rightarrow> nat" where
  "ac_bit AC_PTE_WRITABLE = 0" | "ac_bit AC_PTE_USER = 1" | "ac_bit AC_PTE_ACCESSED = 2" | "ac_bit AC_PTE_DIRTY = 3"
| "ac_bit AC_PTE_NX = 4" | "ac_bit AC_PTE_PRESENT = 5" | "ac_bit AC_PTE_BIT51 = 6" | "ac_bit AC_PTE_BIT36 = 7"
| "ac_bit AC_PDE_WRITABLE = 8" | "ac_bit AC_PDE_USER = 9" | "ac_bit AC_PDE_ACCESSED = 10" | "ac_bit AC_PDE_DIRTY = 11"
| "ac_bit AC_PDE_PSE = 12" | "ac_bit AC_PDE_NX = 13" | "ac_bit AC_PDE_PRESENT = 14" | "ac_bit AC_PDE_BIT51 = 15"
| "ac_bit AC_PDE_BIT36 = 16" | "ac_bit AC_PDE_BIT13 = 17" | "ac_bit AC_PDPTE_NO_WRITABLE = 18"
| "ac_bit AC_PKU_AD = 19" | "ac_bit AC_PKU_WD = 20" | "ac_bit AC_PKU_PKEY = 21"
| "ac_bit AC_ACCESS_USER = 22" | "ac_bit AC_ACCESS_WRITE = 23" | "ac_bit AC_ACCESS_FETCH = 24" | "ac_bit AC_ACCESS_TWICE = 25"
| "ac_bit AC_CPU_EFER_NX = 26" | "ac_bit AC_CPU_CR0_WP = 27" | "ac_bit AC_CPU_CR4_SMEP = 28" | "ac_bit AC_CPU_CR4_PKE = 29"
| "ac_bit AC_FEP = 30"

definition NR_AC_FLAGS :: nat where "NR_AC_FLAGS = 31"

definition ac_mask :: "ac_flag \<Rightarrow> u32" where
  "ac_mask f = push_bit (ac_bit f) 1"

text \<open>The macro \<open>F(x)\<close>.\<close>

definition has :: "u32 \<Rightarrow> ac_flag \<Rightarrow> bool" where
  "has flags f \<longleftrightarrow> flags AND ac_mask f \<noteq> 0"

definition masks :: "ac_flag list \<Rightarrow> u32" where
  "masks fs = fold (\<lambda>f m. m OR ac_mask f) fs 0"

section \<open>Constants\<close>

definition AT_CODE_DATA_PHYS :: u64 where "AT_CODE_DATA_PHYS = 32 * 1024 * 1024"
definition AT_PAGING_STRUCTURES_PHYS :: u64 where "AT_PAGING_STRUCTURES_PHYS = 33 * 1024 * 1024"

definition PT_BASE_ADDR_MASK :: u64 where
  "PT_BASE_ADDR_MASK = (push_bit 36 1 - 1) AND NOT (4096 - 1)"

definition PT_PSE_BASE_ADDR_MASK :: u64 where
  "PT_PSE_BASE_ADDR_MASK = PT_BASE_ADDR_MASK AND NOT (push_bit 21 1)"

definition EFER_NX_MASK :: u64 where "EFER_NX_MASK = push_bit 11 1"
definition X86_CR0_WP :: u64 where "X86_CR0_WP = push_bit 16 1"
definition X86_CR4_PSE :: u64 where "X86_CR4_PSE = push_bit 4 1"
definition X86_CR4_LA57 :: u64 where "X86_CR4_LA57 = push_bit 12 1"
definition X86_CR4_SMEP :: u64 where "X86_CR4_SMEP = push_bit 20 1"
definition X86_CR4_PKE :: u64 where "X86_CR4_PKE = push_bit 22 1"

definition PFERR_PRESENT_MASK :: u32 where "PFERR_PRESENT_MASK = push_bit 0 1"
definition PFERR_WRITE_MASK :: u32 where "PFERR_WRITE_MASK = push_bit 1 1"
definition PFERR_USER_MASK :: u32 where "PFERR_USER_MASK = push_bit 2 1"
definition PFERR_RESERVED_MASK :: u32 where "PFERR_RESERVED_MASK = push_bit 3 1"
definition PFERR_FETCH_MASK :: u32 where "PFERR_FETCH_MASK = push_bit 4 1"
definition PFERR_PK_MASK :: u32 where "PFERR_PK_MASK = push_bit 5 1"

definition GP_VECTOR :: nat where "GP_VECTOR = 13"

definition PT_INDEX :: "u64 \<Rightarrow> nat \<Rightarrow> nat" where
  "PT_INDEX address level = unat (drop_bit (12 + (level - 1) * 9) address AND 511)"

section \<open>State\<close>

record ac_pt_env_t =
  pt_pool_pa :: u64
  pt_pool_current :: nat
  env_levels :: nat

record ac_test_t =
  flags :: u32
  virt :: u64
  phys :: u64
  ptep :: "pteptr option"
  expected_pte :: u64
  pdep :: "pteptr option"
  expected_pde :: u64
  ignore_pde :: u64
  expected_fault :: bool
  expected_error :: u32
  pt_levels :: nat
  page_tables :: "u64 list"

text \<open>The paging structures, the registers of the processor and the variables of the test.\<close>

record ac_state =
  ptm :: ptmem
  reg_cr0 :: u64
  reg_cr3 :: u64
  reg_cr4 :: u64
  reg_efer :: u64
  reg_pkru :: u32
  shadow_cr0 :: u64
  shadow_cr3 :: u64
  shadow_cr4 :: u64
  shadow_efer :: u64
  invalid_mask :: u32

text \<open>The kind of a memory access, and the platform the tests run on.\<close>

record mem_access =
  a_user :: bool
  a_write :: bool
  a_fetch :: bool

record platform =
  mem_op :: "ac_state \<Rightarrow> u64 \<Rightarrow> mem_access \<Rightarrow> bool \<Rightarrow> u32 option \<times> ptmem"
  cr4_faults :: "u64 \<Rightarrow> bool"
  maxphyaddr :: nat
  has_pku :: bool
  has_smep :: bool
  has_la57 :: bool
  fep_available :: bool
  stext :: u64
  etext :: u64
  init_addr :: u64

section \<open>Walks\<close>

type_synonym walk_fn = "pteptr \<Rightarrow> nat \<Rightarrow> u64 \<Rightarrow> ptmem \<Rightarrow> ptmem"

definition table_of :: "u64 \<Rightarrow> u64" where
  "table_of pte = pte AND PT_BASE_ADDR_MASK"

text \<open>The loop of \<open>walk_va\<close>, with the level at which it stops.\<close>

fun walk_va_loop :: "walk_fn \<Rightarrow> bool \<Rightarrow> nat \<Rightarrow> nat \<Rightarrow> u64 \<Rightarrow> u64 \<Rightarrow> ptmem \<Rightarrow> (nat \<times> ptmem) res" where
  "walk_va_loop callback leaf_only min_level 0 parent_pte va m = Inr (0, m)"
| "walk_va_loop callback leaf_only min_level (Suc l) parent_pte va m =
     (let i = Suc l; p = (table_of parent_pte, PT_INDEX va i) in
      if i < min_level then Inr (i, m)
      else
        require (\<not> leaf_only \<or> pt_read m p AND PT_PRESENT_MASK \<noteq> 0) (
          let m' = (if \<not> leaf_only \<or> i = 1 \<or> pt_read m p AND PT_PAGE_SIZE_MASK \<noteq> 0 then callback p i va m else m) in
          if i = 1 \<or> pt_read m' p AND PT_PAGE_SIZE_MASK \<noteq> 0 then Inr (i, m')
          else walk_va_loop callback leaf_only min_level l (pt_read m' p) va m'))"

definition walk_va :: "ac_state \<Rightarrow> ac_test_t \<Rightarrow> nat \<Rightarrow> u64 \<Rightarrow> walk_fn \<Rightarrow> bool \<Rightarrow> (u64 \<times> ptmem) res" where
  "walk_va s at min_level va callback leaf_only =
     bind_res (walk_va_loop callback leaf_only min_level (pt_levels at) (shadow_cr3 s) va (ptm s)) (\<lambda>(i, m).
       Inr (push_bit (PGDIR_BITS i) 1, m))"

text \<open>
  \<open>walk_ptes\<close>. A step moves up by at least one page, so that as many steps as there are pages
  are enough unless the address wraps around.
\<close>

fun walk_ptes_loop :: "nat \<Rightarrow> ac_state \<Rightarrow> ac_test_t \<Rightarrow> u64 \<Rightarrow> u64 \<Rightarrow> walk_fn \<Rightarrow> ac_state res" where
  "walk_ptes_loop fuel s at va endv callback =
     (if va < endv then
        (if fuel = 0 then Inl NoFuel
         else bind_res (walk_va s at 1 va callback True) (\<lambda>(page_size, m).
           walk_ptes_loop (fuel - 1) (s\<lparr>ptm := m\<rparr>) at (ALIGN_DOWN (va + page_size) page_size) endv callback))
      else Inr s)"

declare walk_ptes_loop.simps [simp del]

definition walk_ptes :: "ac_state \<Rightarrow> ac_test_t \<Rightarrow> u64 \<Rightarrow> u64 \<Rightarrow> walk_fn \<Rightarrow> ac_state res" where
  "walk_ptes s at va endv callback = walk_ptes_loop (2 ^ 52) s at va endv callback"

definition clear_user_mask :: walk_fn where
  "clear_user_mask p level va m = pt_write m p (pt_read m p AND NOT PT_USER_MASK)"

definition set_user_mask :: walk_fn where
  "set_user_mask p level va m = pt_write m p (pt_read m p OR PT_USER_MASK)"

section \<open>Processor modes\<close>

definition set_cr0_wp :: "ac_state \<Rightarrow> bool \<Rightarrow> ac_state" where
  "set_cr0_wp s wp =
     (let cr0 = (if wp then (shadow_cr0 s AND NOT X86_CR0_WP) OR X86_CR0_WP else shadow_cr0 s AND NOT X86_CR0_WP)
      in if cr0 \<noteq> shadow_cr0 s then s\<lparr>reg_cr0 := cr0, shadow_cr0 := cr0\<rparr> else s)"

text \<open>\<open>write_cr4_safe\<close> returns the vector of the fault or 0; \<open>write_cr4\<close> asserts that there is none.\<close>

definition write_cr4_safe :: "platform \<Rightarrow> ac_state \<Rightarrow> u64 \<Rightarrow> nat \<times> ac_state" where
  "write_cr4_safe pl s val = (if cr4_faults pl val then (GP_VECTOR, s) else (0, s\<lparr>reg_cr4 := val\<rparr>))"

definition write_cr4 :: "platform \<Rightarrow> ac_state \<Rightarrow> u64 \<Rightarrow> ac_state res" where
  "write_cr4 pl s val = (let (vector, s') = write_cr4_safe pl s val in require (vector = 0) (Inr s'))"

definition set_cr4_smep :: "platform \<Rightarrow> ac_state \<Rightarrow> ac_test_t \<Rightarrow> bool \<Rightarrow> (nat \<times> ac_state) res" where
  "set_cr4_smep pl s at smep =
     (let cr4 = (if smep then (shadow_cr4 s AND NOT X86_CR4_SMEP) OR X86_CR4_SMEP else shadow_cr4 s AND NOT X86_CR4_SMEP) in
      if cr4 = shadow_cr4 s then Inr (0, s)
      else
        bind_res (if smep then walk_ptes s at (stext pl) (etext pl) clear_user_mask else Inr s) (\<lambda>s1.
        let (r, s2) = write_cr4_safe pl s1 cr4 in
        bind_res (if r \<noteq> 0 \<or> \<not> smep then walk_ptes s2 at (stext pl) (etext pl) set_user_mask else Inr s2) (\<lambda>s3.
          Inr (r, if r = 0 then s3\<lparr>shadow_cr4 := cr4\<rparr> else s3))))"

definition set_cr4_pke :: "platform \<Rightarrow> ac_state \<Rightarrow> bool \<Rightarrow> ac_state res" where
  "set_cr4_pke pl s pke =
     (let cr4 = (if pke then (shadow_cr4 s AND NOT X86_CR4_PKE) OR X86_CR4_PKE else shadow_cr4 s AND NOT X86_CR4_PKE) in
      if cr4 = shadow_cr4 s then Inr s
      else
        let s1 = (if shadow_cr4 s AND X86_CR4_PKE \<noteq> 0 \<and> \<not> pke then s\<lparr>reg_pkru := 0xfffffffc\<rparr> else s) in
        bind_res (write_cr4 pl s1 cr4) (\<lambda>s2. Inr (s2\<lparr>shadow_cr4 := cr4\<rparr>)))"

definition set_efer_nx :: "ac_state \<Rightarrow> bool \<Rightarrow> ac_state" where
  "set_efer_nx s nx =
     (let efer = (if nx then (shadow_efer s AND NOT EFER_NX_MASK) OR EFER_NX_MASK else shadow_efer s AND NOT EFER_NX_MASK)
      in if efer \<noteq> shadow_efer s then s\<lparr>reg_efer := efer, shadow_efer := efer\<rparr> else s)"

section \<open>Initialisation\<close>

definition ac_env_int :: "nat \<Rightarrow> ac_pt_env_t" where
  "ac_env_int page_table_levels =
     \<lparr>pt_pool_pa = AT_PAGING_STRUCTURES_PHYS, pt_pool_current = 0, env_levels = page_table_levels\<rparr>"

definition ac_test_alloc_pt :: "ac_state \<Rightarrow> ac_pt_env_t \<Rightarrow> (u64 \<times> ac_state \<times> ac_pt_env_t) res" where
  "ac_test_alloc_pt s pt_env =
     require (pt_pool_current pt_env < 4 * (env_levels pt_env - 1)) (
       let pt = pt_pool_pa pt_env + of_nat (pt_pool_current pt_env) * 4096
       in Inr (pt, s\<lparr>ptm := pt_clear (ptm s) pt\<rparr>, pt_env\<lparr>pt_pool_current := pt_pool_current pt_env + 1\<rparr>))"

text \<open>The fields \<open>__ac_test_init\<close> leaves alone are written before they are read.\<close>

definition at_uninit :: ac_test_t where
  "at_uninit = \<lparr>flags = 0, virt = 0, phys = 0, ptep = None, expected_pte = 0, pdep = None, expected_pde = 0, ignore_pde = 0,
     expected_fault = False, expected_error = 0, pt_levels = 0, page_tables = replicate 6 0\<rparr>"

fun init_tables_loop ::
  "nat \<Rightarrow> u64 \<Rightarrow> ac_test_t option \<Rightarrow> ac_state \<Rightarrow> ac_pt_env_t \<Rightarrow> u64 list \<Rightarrow> (u64 list \<times> ac_state \<times> ac_pt_env_t) res" where
  "init_tables_loop 0 v buddy s pt_env pts = Inr (pts, s, pt_env)"
| "init_tables_loop (Suc l) v buddy s pt_env pts =
     (let i = Suc l in
      if i > 1 then
        bind_res
          (case buddy of
             Some b \<Rightarrow>
               if PT_INDEX v i = PT_INDEX (virt b) i then bind_res (arr_get (page_tables b) i) (\<lambda>pt. Inr (pt, s, pt_env))
               else ac_test_alloc_pt s pt_env
           | None \<Rightarrow> ac_test_alloc_pt s pt_env) (\<lambda>(pt, s', pt_env').
        bind_res (arr_set pts i pt) (\<lambda>pts'. init_tables_loop l v buddy s' pt_env' pts'))
      else Inr (pts, s, pt_env))"

definition ac_test_init_buddy ::
  "platform \<Rightarrow> ac_state \<Rightarrow> ac_test_t \<Rightarrow> u64 \<Rightarrow> ac_pt_env_t \<Rightarrow> ac_test_t option \<Rightarrow> (ac_test_t \<times> ac_state \<times> ac_pt_env_t) res" where
  "ac_test_init_buddy pl s at v pt_env buddy =
     (let root_pt = table_of (shadow_cr3 s) in
      require (PT_INDEX v (env_levels pt_env) \<noteq> PT_INDEX (init_addr pl) (env_levels pt_env)) (
        let s1 = set_cr0_wp (set_efer_nx s True) True;
            s2 = s1\<lparr>ptm := pt_write (ptm s1) (root_pt, PT_INDEX v (env_levels pt_env)) 0\<rparr>
        in bind_res (init_tables_loop (env_levels pt_env) v buddy s2 pt_env ((page_tables at)[0 := - 1, 1 := - 1])) (\<lambda>(pts, s3, pt_env').
             Inr (at\<lparr>flags := 0, virt := v, phys := AT_CODE_DATA_PHYS, pt_levels := env_levels pt_env, page_tables := pts\<rparr>, s3, pt_env'))))"

definition ac_test_init ::
  "platform \<Rightarrow> ac_state \<Rightarrow> ac_test_t \<Rightarrow> u64 \<Rightarrow> ac_pt_env_t \<Rightarrow> (ac_test_t \<times> ac_state \<times> ac_pt_env_t) res" where
  "ac_test_init pl s at v pt_env = ac_test_init_buddy pl s at v pt_env None"

section \<open>Enumerating the test cases\<close>

definition ac_test_bump_one :: "u32 \<Rightarrow> u32 \<Rightarrow> bool \<times> u32" where
  "ac_test_bump_one invm fl = (let fl' = ((fl OR invm) + 1) AND NOT invm in (fl' < push_bit NR_AC_FLAGS 1, fl'))"

definition ac_test_legal :: "u32 \<Rightarrow> bool" where
  "ac_test_legal fl \<longleftrightarrow>
     (if has fl AC_CPU_CR4_SMEP then False
      else if has fl AC_ACCESS_FETCH \<and> has fl AC_ACCESS_WRITE then False
      else if has fl AC_ACCESS_USER \<and> has fl AC_CPU_CR4_SMEP then False
      else if \<not> has fl AC_CPU_CR4_PKE \<and> (has fl AC_PKU_AD \<or> has fl AC_PKU_WD) then False
      else if \<not> has fl AC_PDE_PSE \<and> has fl AC_PDE_BIT13 then False
      else
        let reserved = masks [AC_PDE_BIT51, AC_PDE_BIT36, AC_PDE_BIT13, AC_PTE_BIT51, AC_PTE_BIT36];
            reserved' = (if \<not> has fl AC_CPU_EFER_NX then reserved OR masks [AC_PDE_NX, AC_PTE_NX] else reserved) AND fl
        in reserved' AND (reserved' - 1) = 0)"

partial_function (option) ac_test_bump :: "u32 \<Rightarrow> u32 \<Rightarrow> (bool \<times> u32) option" where
  "ac_test_bump invm fl =
     (let (ret, fl') = ac_test_bump_one invm fl
      in if ret \<and> \<not> ac_test_legal fl' then ac_test_bump invm fl' else Some (ret, fl'))"

section \<open>Predicting the outcome\<close>

definition ac_test_permissions :: "ac_test_t \<Rightarrow> u32 \<Rightarrow> bool \<Rightarrow> bool \<Rightarrow> bool \<Rightarrow> u64 \<times> ac_test_t" where
  "ac_test_permissions at fl writable user executable =
     (let kwritable = \<not> has fl AC_CPU_CR0_WP \<and> \<not> has fl AC_ACCESS_USER;
          at1 = (if has fl AC_ACCESS_USER \<and> \<not> user then at\<lparr>expected_fault := True\<rparr> else at);
          at2 = (if has fl AC_ACCESS_WRITE \<and> \<not> writable \<and> \<not> kwritable then at1\<lparr>expected_fault := True\<rparr> else at1);
          at3 = (if has fl AC_ACCESS_FETCH \<and> \<not> executable then at2\<lparr>expected_fault := True\<rparr> else at2);
          at4 = (if has fl AC_ACCESS_FETCH \<and> user \<and> has fl AC_CPU_CR4_SMEP then at3\<lparr>expected_fault := True\<rparr> else at3);
          at5 = (if user \<and> \<not> has fl AC_ACCESS_FETCH \<and> has fl AC_PKU_PKEY \<and> has fl AC_CPU_CR4_PKE then
                   if has fl AC_PKU_AD then
                     at4\<lparr>expected_fault := True, expected_error := expected_error at4 OR PFERR_PK_MASK\<rparr>
                   else if has fl AC_ACCESS_WRITE \<and> has fl AC_PKU_WD \<and> \<not> kwritable then
                     at4\<lparr>expected_fault := True, expected_error := expected_error at4 OR PFERR_PK_MASK\<rparr>
                   else at4
                 else at4);
          expected = (if \<not> expected_fault at5 then
                        PT_ACCESSED_MASK OR (if has fl AC_ACCESS_WRITE then PT_DIRTY_MASK else 0)
                      else 0)
      in (expected, at5))"

text \<open>The code behind the labels \<open>no_pte\<close> and \<open>fault\<close>.\<close>

definition emulate_end :: "ac_test_t \<Rightarrow> u32 \<Rightarrow> ac_test_t" where
  "emulate_end at fl =
     (let at1 = (if \<not> expected_fault at then at\<lparr>ignore_pde := 0\<rparr> else at)
      in if \<not> has fl AC_CPU_EFER_NX \<and> \<not> has fl AC_CPU_CR4_SMEP
         then at1\<lparr>expected_error := expected_error at1 AND NOT PFERR_FETCH_MASK\<rparr> else at1)"

text \<open>An entry that is not valid: absent or with a reserved bit.\<close>

definition emulate_invalid :: "ac_test_t \<Rightarrow> bool \<Rightarrow> ac_test_t" where
  "emulate_invalid at present =
     at\<lparr>expected_fault := True,
        expected_error := (if present then expected_error at OR PFERR_RESERVED_MASK
                           else expected_error at AND NOT PFERR_PRESENT_MASK)\<rparr>"

definition ac_emulate_access :: "ac_test_t \<Rightarrow> u32 \<Rightarrow> ac_test_t" where
  "ac_emulate_access at fl =
     (let err = expected_error at OR (if has fl AC_ACCESS_USER then PFERR_USER_MASK else 0)
                OR (if has fl AC_ACCESS_WRITE then PFERR_WRITE_MASK else 0)
                OR (if has fl AC_ACCESS_FETCH then PFERR_FETCH_MASK else 0);
          at1 = at\<lparr>expected_error := err\<rparr>;
          at2 = (if \<not> has fl AC_PDE_ACCESSED then at1\<lparr>ignore_pde := PT_ACCESSED_MASK\<rparr> else at1);
          pde_valid = (has fl AC_PDE_PRESENT \<and> \<not> has fl AC_PDE_BIT51 \<and> \<not> has fl AC_PDE_BIT36 \<and> \<not> has fl AC_PDE_BIT13
                       \<and> \<not> (has fl AC_PDE_NX \<and> \<not> has fl AC_CPU_EFER_NX))
      in if \<not> pde_valid then emulate_end (emulate_invalid at2 (has fl AC_PDE_PRESENT)) fl
         else
           let writable = (\<not> has fl AC_PDPTE_NO_WRITABLE \<and> has fl AC_PDE_WRITABLE);
               user = has fl AC_PDE_USER;
               executable = (\<not> has fl AC_PDE_NX)
           in if has fl AC_PDE_PSE then
                let (e, at3) = ac_test_permissions at2 fl writable user executable
                in emulate_end (at3\<lparr>expected_pde := expected_pde at3 OR e\<rparr>) fl
              else
                let at3 = at2\<lparr>expected_pde := expected_pde at2 OR PT_ACCESSED_MASK\<rparr>;
                    pte_valid = (has fl AC_PTE_PRESENT \<and> \<not> has fl AC_PTE_BIT51 \<and> \<not> has fl AC_PTE_BIT36
                                 \<and> \<not> (has fl AC_PTE_NX \<and> \<not> has fl AC_CPU_EFER_NX))
                in if \<not> pte_valid then emulate_end (emulate_invalid at3 (has fl AC_PTE_PRESENT)) fl
                   else
                     let (e, at4) = ac_test_permissions at3 fl (writable \<and> has fl AC_PTE_WRITABLE)
                                      (user \<and> has fl AC_PTE_USER) (executable \<and> \<not> has fl AC_PTE_NX)
                     in emulate_end (at4\<lparr>expected_pte := expected_pte at4 OR e\<rparr>) fl)"

text \<open>\<open>__ac_set_expected_status\<close>; the flush of the address has no counterpart.\<close>

definition ac_set_expected_status :: "ac_state \<Rightarrow> ac_test_t \<Rightarrow> ac_test_t res" where
  "ac_set_expected_status s at =
     (case pdep at of
        None \<Rightarrow> Inl Undef
      | Some pde \<Rightarrow>
          let at1 = (case ptep at of Some p \<Rightarrow> at\<lparr>expected_pte := pt_read (ptm s) p\<rparr> | None \<Rightarrow> at);
              at2 = at1\<lparr>expected_pde := pt_read (ptm s) pde, ignore_pde := 0, expected_fault := False, expected_error := PFERR_PRESENT_MASK\<rparr>;
              at3 = (if flags at2 AND ac_mask AC_ACCESS_TWICE \<noteq> 0 then
                       (ac_emulate_access at2 (flags at2 AND NOT (ac_mask AC_ACCESS_WRITE) AND NOT (ac_mask AC_ACCESS_FETCH)
                          AND NOT (ac_mask AC_ACCESS_USER)))
                       \<lparr>expected_fault := False, expected_error := PFERR_PRESENT_MASK, ignore_pde := 0\<rparr>
                     else at2)
          in Inr (ac_emulate_access at3 (flags at3)))"

section \<open>Writing the entries\<close>

text \<open>A page-table collision aborts the test.\<close>

definition ac_get_pt :: "ac_test_t \<Rightarrow> nat \<Rightarrow> u64 \<Rightarrow> u64 res" where
  "ac_get_pt at i pte =
     bind_res (arr_get (page_tables at) i) (\<lambda>pt.
       require (\<not> (pte \<noteq> 0 \<and> pte AND PT_PAGE_SIZE_MASK = 0 \<and> pte AND PT_BASE_ADDR_MASK \<noteq> pt))
         (Inr (pt OR (pte AND (PT_DIRTY_MASK OR PT_ACCESSED_MASK)))))"

definition bits_if :: "(bool \<times> u64) list \<Rightarrow> u64 \<Rightarrow> u64" where
  "bits_if cs pte = fold (\<lambda>(c, b) e. if c then e OR b else e) cs pte"

text \<open>The \<open>switch\<close> of \<open>ac_test_setup_ptes\<close>: the new entry of level \<open>i\<close> where \<open>old\<close> is in the table.\<close>

definition ac_pte :: "ac_test_t \<Rightarrow> nat \<Rightarrow> u64 \<Rightarrow> u64 res" where
  "ac_pte at i old =
     (let fl = flags at in
      if i = 5 \<or> i = 4 then
        bind_res (ac_get_pt at i old) (\<lambda>pte. Inr (pte OR (PT_PRESENT_MASK OR PT_WRITABLE_MASK OR PT_USER_MASK)))
      else if i = 3 then
        bind_res (ac_get_pt at i old) (\<lambda>pte.
          Inr (bits_if [(\<not> has fl AC_PDPTE_NO_WRITABLE, PT_WRITABLE_MASK)] (pte OR (PT_PRESENT_MASK OR PT_USER_MASK))))
      else if i = 2 then
        bind_res
          (if \<not> has fl AC_PDE_PSE then
             bind_res (ac_get_pt at i old) (\<lambda>pte. Inr (bits_if [(has fl AC_PKU_PKEY, push_bit 59 2)] pte))
           else
             Inr (bits_if [(has fl AC_PKU_PKEY, push_bit 59 1)] ((phys at AND PT_PSE_BASE_ADDR_MASK) OR PT_PAGE_SIZE_MASK))) (\<lambda>pte.
          Inr (bits_if [(has fl AC_PDE_PRESENT, PT_PRESENT_MASK), (has fl AC_PDE_WRITABLE, PT_WRITABLE_MASK),
            (has fl AC_PDE_USER, PT_USER_MASK), (has fl AC_PDE_ACCESSED, PT_ACCESSED_MASK), (has fl AC_PDE_DIRTY, PT_DIRTY_MASK),
            (has fl AC_PDE_NX, PT64_NX_MASK), (has fl AC_PDE_BIT51, push_bit 51 1), (has fl AC_PDE_BIT36, push_bit 36 1),
            (has fl AC_PDE_BIT13, push_bit 13 1)] pte))
      else if i = 1 then
        Inr (bits_if [(has fl AC_PKU_PKEY, push_bit 59 1), (has fl AC_PTE_PRESENT, PT_PRESENT_MASK), (has fl AC_PTE_WRITABLE, PT_WRITABLE_MASK),
            (has fl AC_PTE_USER, PT_USER_MASK), (has fl AC_PTE_ACCESSED, PT_ACCESSED_MASK), (has fl AC_PTE_DIRTY, PT_DIRTY_MASK),
            (has fl AC_PTE_NX, PT64_NX_MASK), (has fl AC_PTE_BIT51, push_bit 51 1), (has fl AC_PTE_BIT36, push_bit 36 1)]
            (phys at AND PT_BASE_ADDR_MASK))
      else Inl AssertFail)"

fun setup_ptes_loop :: "nat \<Rightarrow> u64 \<Rightarrow> ac_state \<Rightarrow> ac_test_t \<Rightarrow> (ac_state \<times> ac_test_t) res" where
  "setup_ptes_loop 0 parent_pte s at = Inr (s, at)"
| "setup_ptes_loop (Suc l) parent_pte s at =
     (let i = Suc l; p = (table_of parent_pte, PT_INDEX (virt at) i) in
      if i \<ge> 2 \<or> \<not> has (flags at) AC_PDE_PSE then
        bind_res (ac_pte at i (pt_read (ptm s) p)) (\<lambda>pte.
          let at' = (if i = 2 then at\<lparr>pdep := Some p\<rparr> else if i = 1 then at\<lparr>ptep := Some p\<rparr> else at);
              s' = (if pte \<noteq> pt_read (ptm s) p then s\<lparr>ptm := pt_write (ptm s) p pte\<rparr> else s)
          in setup_ptes_loop l pte s' at')
      else Inr (s, at))"

definition ac_test_setup_ptes :: "ac_state \<Rightarrow> ac_test_t \<Rightarrow> (ac_state \<times> ac_test_t) res" where
  "ac_test_setup_ptes s at =
     bind_res (setup_ptes_loop (pt_levels at) (shadow_cr3 s) s (at\<lparr>ptep := None\<rparr>)) (\<lambda>(s', at').
     bind_res (ac_set_expected_status s' at') (\<lambda>at''. Inr (s', at'')))"

section \<open>Performing the access\<close>

definition ac_test_check :: "bool \<Rightarrow> bool \<Rightarrow> bool" where
  "ac_test_check success cond = (if \<not> success then False else if \<not> cond then True else False)"

definition pt_match :: "u64 \<Rightarrow> u64 \<Rightarrow> u64 \<Rightarrow> bool" where
  "pt_match pte1 pte2 ignore \<longleftrightarrow> pte1 AND NOT ignore = pte2 AND NOT ignore"

text \<open>The modes of the processor that the flags ask for.\<close>

definition access_modes :: "platform \<Rightarrow> ac_state \<Rightarrow> ac_test_t \<Rightarrow> ac_state res" where
  "access_modes pl s at =
     (let fl = flags at in
      bind_res (set_cr4_pke pl (set_efer_nx (set_cr0_wp s (has fl AC_CPU_CR0_WP)) (has fl AC_CPU_EFER_NX)) (has fl AC_CPU_CR4_PKE)) (\<lambda>s1.
        let s2 = (if has fl AC_CPU_CR4_PKE
                  then s1\<lparr>reg_pkru := 0x30 OR (if has fl AC_PKU_WD then 8 else 0) OR (if has fl AC_PKU_AD then 4 else 0)\<rparr> else s1)
        in bind_res (set_cr4_smep pl s2 at (has fl AC_CPU_CR4_SMEP)) (\<lambda>(_, s3). Inr s3)))"

text \<open>The comparison of the outcome, the fault's error code or \<open>None\<close>, with the prediction.\<close>

definition access_checks :: "ac_state \<Rightarrow> ac_test_t \<Rightarrow> u32 option \<Rightarrow> bool res" where
  "access_checks s at r =
     (case pdep at of
        None \<Rightarrow> Inl Undef
      | Some pde \<Rightarrow>
          let c1 = ac_test_check True (r \<noteq> None \<and> \<not> expected_fault at);
              c2 = ac_test_check c1 (r = None \<and> expected_fault at);
              c3 = ac_test_check c2 (case r of Some e \<Rightarrow> e \<noteq> expected_error at | None \<Rightarrow> False);
              c4 = (case ptep at of Some p \<Rightarrow> ac_test_check c3 (pt_read (ptm s) p \<noteq> expected_pte at) | None \<Rightarrow> c3);
              c5 = ac_test_check c4 (\<not> pt_match (pt_read (ptm s) pde) (expected_pde at) (ignore_pde at))
          in Inr c5)"

definition ac_test_do_access :: "platform \<Rightarrow> ac_state \<Rightarrow> ac_test_t \<Rightarrow> (bool \<times> ac_state) res" where
  "ac_test_do_access pl s at =
     (let fl = flags at in
      bind_res (access_modes pl s at) (\<lambda>s1.
        let s2 = (if has fl AC_ACCESS_TWICE
                  then s1\<lparr>ptm := snd (mem_op pl s1 (virt at) \<lparr>a_user = False, a_write = False, a_fetch = False\<rparr> (has fl AC_FEP))\<rparr> else s1);
            (r, m) = mem_op pl s2 (virt at)
                       \<lparr>a_user = has fl AC_ACCESS_USER, a_write = has fl AC_ACCESS_WRITE \<and> \<not> has fl AC_ACCESS_FETCH, a_fetch = has fl AC_ACCESS_FETCH\<rparr>
                       (has fl AC_FEP \<and> \<not> has fl AC_ACCESS_FETCH);
            s3 = s2\<lparr>ptm := m\<rparr>
        in bind_res (access_checks s3 at r) (\<lambda>success. Inr (success, s3))))"

section \<open>The line describing a test\<close>

fun ac_name :: "ac_flag \<Rightarrow> string" where
  "ac_name AC_PTE_PRESENT = ''pte.p''" | "ac_name AC_PTE_ACCESSED = ''pte.a''" | "ac_name AC_PTE_WRITABLE = ''pte.rw''"
| "ac_name AC_PTE_USER = ''pte.user''" | "ac_name AC_PTE_DIRTY = ''pte.d''" | "ac_name AC_PTE_NX = ''pte.nx''"
| "ac_name AC_PTE_BIT51 = ''pte.51''" | "ac_name AC_PTE_BIT36 = ''pte.36''"
| "ac_name AC_PDE_PRESENT = ''pde.p''" | "ac_name AC_PDE_ACCESSED = ''pde.a''" | "ac_name AC_PDE_WRITABLE = ''pde.rw''"
| "ac_name AC_PDE_USER = ''pde.user''" | "ac_name AC_PDE_DIRTY = ''pde.d''" | "ac_name AC_PDE_PSE = ''pde.pse''"
| "ac_name AC_PDE_NX = ''pde.nx''" | "ac_name AC_PDE_BIT51 = ''pde.51''" | "ac_name AC_PDE_BIT36 = ''pde.36''"
| "ac_name AC_PDE_BIT13 = ''pde.13''" | "ac_name AC_PDPTE_NO_WRITABLE = ''pdpte.ro''"
| "ac_name AC_PKU_AD = ''pkru.ad''" | "ac_name AC_PKU_WD = ''pkru.wd''" | "ac_name AC_PKU_PKEY = ''pkey=1''"
| "ac_name AC_ACCESS_WRITE = ''write''" | "ac_name AC_ACCESS_USER = ''user''" | "ac_name AC_ACCESS_FETCH = ''fetch''"
| "ac_name AC_ACCESS_TWICE = ''twice''" | "ac_name AC_CPU_EFER_NX = ''efer.nx''" | "ac_name AC_CPU_CR0_WP = ''cr0.wp''"
| "ac_name AC_CPU_CR4_SMEP = ''cr4.smep''" | "ac_name AC_CPU_CR4_PKE = ''cr4.pke''" | "ac_name AC_FEP = ''fep''"

definition all_flags :: "ac_flag list" where
  "all_flags =
    [AC_PTE_WRITABLE, AC_PTE_USER, AC_PTE_ACCESSED, AC_PTE_DIRTY, AC_PTE_NX, AC_PTE_PRESENT, AC_PTE_BIT51, AC_PTE_BIT36,
     AC_PDE_WRITABLE, AC_PDE_USER, AC_PDE_ACCESSED, AC_PDE_DIRTY, AC_PDE_PSE, AC_PDE_NX, AC_PDE_PRESENT, AC_PDE_BIT51,
     AC_PDE_BIT36, AC_PDE_BIT13, AC_PDPTE_NO_WRITABLE, AC_PKU_AD, AC_PKU_WD, AC_PKU_PKEY, AC_ACCESS_USER, AC_ACCESS_WRITE,
     AC_ACCESS_FETCH, AC_ACCESS_TWICE, AC_CPU_EFER_NX, AC_CPU_CR0_WP, AC_CPU_CR4_SMEP, AC_CPU_CR4_PKE, AC_FEP]"

text \<open>\<open>strcat\<close> into the line of 5000 bytes, terminator included.\<close>

definition line_cat :: "string \<Rightarrow> string \<Rightarrow> string res" where
  "line_cat line x = (if length line + length x < 5000 then Inr (line @ x) else Inl Fault)"

fun show_loop :: "u32 \<Rightarrow> ac_flag list \<Rightarrow> string \<Rightarrow> string res" where
  "show_loop fl [] line = Inr line"
| "show_loop fl (f # fs) line =
     bind_res (if has fl f then bind_res (line_cat line '' '') (\<lambda>l. line_cat l (ac_name f)) else Inr line) (show_loop fl fs)"

definition ac_test_show :: "ac_test_t \<Rightarrow> string res" where
  "ac_test_show at = bind_res (line_cat [] ''test'') (\<lambda>l. bind_res (show_loop (flags at) all_flags l) (\<lambda>l. line_cat l '': ''))"

end
