(* ===== verification/AccessRun.thy ===== *)
theory AccessRun
  imports Access
begin

text \<open>
  The scenarios of \<open>x86/access.c\<close> with several mappings and the run over all flag combinations.
  A scenario returns whether it succeeded; its messages are left out.
\<close>

section \<open>Scenarios\<close>

type_synonym scenario = "platform \<Rightarrow> ac_pt_env_t \<Rightarrow> ac_state \<Rightarrow> (bool \<times> ac_pt_env_t \<times> ac_state) res"

text \<open>Write the entries for new flags and access; or only predict again and access.\<close>

definition setup_access :: "platform \<Rightarrow> ac_state \<Rightarrow> ac_test_t \<Rightarrow> (bool \<times> ac_state \<times> ac_test_t) res" where
  "setup_access pl s at =
     bind_res (ac_test_setup_ptes s at) (\<lambda>(s1, at1). bind_res (ac_test_do_access pl s1 at1) (\<lambda>(ok, s2). Inr (ok, s2, at1)))"

definition status_access :: "platform \<Rightarrow> ac_state \<Rightarrow> ac_test_t \<Rightarrow> (bool \<times> ac_state \<times> ac_test_t) res" where
  "status_access pl s at =
     bind_res (ac_set_expected_status s at) (\<lambda>at1. bind_res (ac_test_do_access pl s at1) (\<lambda>(ok, s2). Inr (ok, s2, at1)))"

definition corrupt_hugepage_trigger :: scenario where
  "corrupt_hugepage_trigger pl pt_env s =
     bind_res (ac_test_init pl s at_uninit 0xffff923400000000 pt_env) (\<lambda>(at1, s, pt_env).
     bind_res (ac_test_init_buddy pl s at_uninit 0xffffe66600000000 pt_env (Some at1)) (\<lambda>(at2, s, pt_env).
     let at2 = at2\<lparr>flags := masks [AC_CPU_CR0_WP, AC_PDE_PSE, AC_PDE_PRESENT]\<rparr> in
     bind_res (setup_access pl s at2) (\<lambda>(ok, s, at2).
     if \<not> ok then Inr (False, pt_env, s) else
     let at1 = at1\<lparr>flags := flags at2 OR ac_mask AC_PDE_WRITABLE\<rparr> in
     bind_res (setup_access pl s at1) (\<lambda>(ok, s, at1).
     if \<not> ok then Inr (False, pt_env, s) else
     let at1 = at1\<lparr>flags := flags at1 OR ac_mask AC_ACCESS_WRITE\<rparr> in
     bind_res (status_access pl s at1) (\<lambda>(ok, s, at1).
     if \<not> ok then Inr (False, pt_env, s) else
     let at2 = at2\<lparr>flags := flags at2 OR ac_mask AC_ACCESS_WRITE\<rparr> in
     bind_res (status_access pl s at2) (\<lambda>(ok, s, at2). Inr (ok, pt_env, s)))))))"

definition check_pfec_on_prefetch_pte :: scenario where
  "check_pfec_on_prefetch_pte pl pt_env s =
     bind_res (ac_test_init pl s at_uninit 0xffff923406001000 pt_env) (\<lambda>(at1, s, pt_env).
     bind_res (ac_test_init_buddy pl s at_uninit 0xffff923406003000 pt_env (Some at1)) (\<lambda>(at2, s, pt_env).
     let at1 = at1\<lparr>flags := masks [AC_PDE_PRESENT, AC_PTE_PRESENT]\<rparr> in
     bind_res (ac_test_setup_ptes s at1) (\<lambda>(s, at1).
     let at2 = at2\<lparr>flags := flags at1 OR ac_mask AC_PTE_NX\<rparr> in
     bind_res (ac_test_setup_ptes s at2) (\<lambda>(s, at2).
     bind_res (ac_test_do_access pl s at1) (\<lambda>(ok, s).
     if \<not> ok then Inr (False, pt_env, s) else
     bind_res (ac_test_do_access pl s at2) (\<lambda>(ok, s). Inr (ok, pt_env, s)))))))"

definition check_large_pte_dirty_for_nowp :: scenario where
  "check_large_pte_dirty_for_nowp pl pt_env s =
     bind_res (ac_test_init pl s at_uninit 0xffff923403000000 pt_env) (\<lambda>(at1, s, pt_env).
     bind_res (ac_test_init_buddy pl s at_uninit 0xffffe66606000000 pt_env (Some at1)) (\<lambda>(at2, s, pt_env).
     let at2 = at2\<lparr>flags := masks [AC_PDE_PRESENT, AC_PDE_PSE]\<rparr> in
     bind_res (setup_access pl s at2) (\<lambda>(ok, s, at2).
     if \<not> ok then Inr (False, pt_env, s) else
     let at1 = at1\<lparr>flags := flags at2 OR ac_mask AC_ACCESS_WRITE\<rparr> in
     bind_res (setup_access pl s at1) (\<lambda>(ok, s, at1).
     if \<not> ok then Inr (False, pt_env, s) else
     let at2 = at2\<lparr>flags := flags at2 OR ac_mask AC_ACCESS_WRITE\<rparr> in
     bind_res (status_access pl s at2) (\<lambda>(ok, s, at2). Inr (ok, pt_env, s))))))"

definition check_smep_andnot_wp :: scenario where
  "check_smep_andnot_wp pl pt_env s =
     (if \<not> has_smep pl then Inr (True, pt_env, s) else
     bind_res (ac_test_init pl s at_uninit 0xffff923406001000 pt_env) (\<lambda>(at1, s, pt_env).
     let at1 = at1\<lparr>flags := masks [AC_PDE_PRESENT, AC_PTE_PRESENT, AC_PDE_USER, AC_PTE_USER, AC_PDE_ACCESSED, AC_PTE_ACCESSED,
                    AC_CPU_CR4_SMEP, AC_CPU_CR0_WP, AC_ACCESS_WRITE]\<rparr> in
     bind_res (setup_access pl s at1) (\<lambda>(prepare, s, at1).
     if \<not> prepare then bind_res (set_cr4_smep pl s at1 False) (\<lambda>(_, s). Inr (False, pt_env, s)) else
     let at1 = at1\<lparr>flags := (flags at1 AND NOT (ac_mask AC_ACCESS_WRITE)) OR ac_mask AC_ACCESS_FETCH\<rparr> in
     bind_res (status_access pl s at1) (\<lambda>(smep, s, at1).
     bind_res (set_cr4_smep pl s at1 False) (\<lambda>(_, s). Inr (smep, pt_env, s))))))"

definition TOGGLE_CR0_WP_TEST_BASE_FLAGS :: u32 where
  "TOGGLE_CR0_WP_TEST_BASE_FLAGS = masks [AC_PDE_PRESENT, AC_PDE_ACCESSED, AC_PTE_PRESENT, AC_PTE_ACCESSED, AC_ACCESS_WRITE]"

text \<open>Returns whether there was an error.\<close>

definition do_cr0_wp_access :: "platform \<Rightarrow> ac_state \<Rightarrow> ac_test_t \<Rightarrow> u32 \<Rightarrow> (bool \<times> ac_state \<times> ac_test_t) res" where
  "do_cr0_wp_access pl s at fl =
     (let cr0_wp = (fl AND ac_mask AC_CPU_CR0_WP \<noteq> 0) in
      bind_res (ac_set_expected_status s (at\<lparr>flags := TOGGLE_CR0_WP_TEST_BASE_FLAGS OR fl\<rparr>)) (\<lambda>at1.
        let s1 = set_efer_nx (set_efer_nx (set_cr0_wp s (\<not> cr0_wp)) True) False in
        bind_res (ac_test_do_access pl s1 at1) (\<lambda>(ok, s2). Inr (\<not> ok, s2, at1))))"

definition check_toggle_cr0_wp :: scenario where
  "check_toggle_cr0_wp pl pt_env s =
     bind_res (ac_test_init pl s at_uninit 0xffff923042007000 pt_env) (\<lambda>(at, s, pt_env).
     bind_res (ac_test_setup_ptes s (at\<lparr>flags := TOGGLE_CR0_WP_TEST_BASE_FLAGS\<rparr>)) (\<lambda>(s, at).
     bind_res (do_cr0_wp_access pl s at 0) (\<lambda>(e1, s, at).
     bind_res (do_cr0_wp_access pl s at (ac_mask AC_CPU_CR0_WP)) (\<lambda>(e2, s, at).
     if invalid_mask s AND ac_mask AC_FEP = 0 then
       bind_res (do_cr0_wp_access pl s at (ac_mask AC_FEP)) (\<lambda>(e3, s, at).
       bind_res (do_cr0_wp_access pl s at (ac_mask AC_FEP OR ac_mask AC_CPU_CR0_WP)) (\<lambda>(e4, s, at).
         Inr (\<not> e1 \<and> \<not> e2 \<and> \<not> e3 \<and> \<not> e4, pt_env, s)))
     else Inr (\<not> e1 \<and> \<not> e2, pt_env, s)))))"

definition check_effective_sp_permissions :: scenario where
  "check_effective_sp_permissions pl pt_env s =
     (let ptr1 = 0xffff923480000000; ptr2 = ptr1 + 0x200000; ptr3 = ptr1 + 0x40000000; ptr4 = ptr3 + 0x200000 in
     bind_res (ac_test_init pl s at_uninit ptr1 pt_env) (\<lambda>(at1, s, pt_env).
     bind_res (ac_test_setup_ptes s (at1\<lparr>flags := masks [AC_PDE_PRESENT, AC_PTE_PRESENT, AC_PDE_USER, AC_PTE_USER, AC_PDE_ACCESSED,
                 AC_PTE_ACCESSED, AC_PTE_WRITABLE, AC_ACCESS_USER]\<rparr>)) (\<lambda>(s, at1).
     bind_res (ac_test_init_buddy pl s at_uninit ptr2 pt_env (Some at1)) (\<lambda>(at2, s, pt_env).
     bind_res (ac_test_setup_ptes s (at2\<lparr>flags := flags at1 OR ac_mask AC_PDE_WRITABLE OR ac_mask AC_PTE_DIRTY OR ac_mask AC_ACCESS_WRITE\<rparr>)) (\<lambda>(s, at2).
     bind_res (ac_test_init_buddy pl s at_uninit ptr3 pt_env (Some at1)) (\<lambda>(at3, s, pt_env).
     bind_res (ac_test_setup_ptes s (at3\<lparr>page_tables := (page_tables at3)[3 := page_tables at1 ! 3], flags := ac_mask AC_PDPTE_NO_WRITABLE OR flags at1\<rparr>)) (\<lambda>(s, at3).
     bind_res (ac_test_init_buddy pl s at_uninit ptr4 pt_env (Some at2)) (\<lambda>(at4, s, pt_env).
     bind_res (ac_test_setup_ptes s (at4\<lparr>page_tables := (page_tables at4)[3 := page_tables at1 ! 3], flags := ac_mask AC_PDPTE_NO_WRITABLE OR flags at2\<rparr>)) (\<lambda>(s, at4).
     bind_res (ac_test_do_access pl s at1) (\<lambda>(ok, s). if \<not> ok then Inr (False, pt_env, s) else
     bind_res (ac_test_do_access pl s at2) (\<lambda>(ok, s). if \<not> ok then Inr (False, pt_env, s) else
     bind_res (ac_test_do_access pl s at3) (\<lambda>(ok, s). if \<not> ok then Inr (False, pt_env, s) else
     bind_res (ac_test_do_access pl s at4) (\<lambda>(ok, s). Inr (ok, pt_env, s))))))))))))))"

definition ac_test_cases :: "scenario list" where
  "ac_test_cases = [corrupt_hugepage_trigger, check_pfec_on_prefetch_pte, check_large_pte_dirty_for_nowp, check_smep_andnot_wp,
     check_toggle_cr0_wp, check_effective_sp_permissions]"

section \<open>The run\<close>

definition ac_test_exec :: "platform \<Rightarrow> ac_state \<Rightarrow> ac_test_t \<Rightarrow> (bool \<times> ac_state \<times> ac_test_t) res" where
  "ac_test_exec pl s at = setup_access pl s at"

text \<open>The loop over the flags; \<open>tests\<close> and \<open>successes\<close> count.\<close>

partial_function (option) exec_loop ::
  "platform \<Rightarrow> ac_state \<Rightarrow> ac_test_t \<Rightarrow> nat \<Rightarrow> nat \<Rightarrow> (nat \<times> nat \<times> ac_state) res option" where
  "exec_loop pl s at tests successes =
     (case ac_test_exec pl s at of
        Inl e \<Rightarrow> Some (Inl e)
      | Inr (r, s', at') \<Rightarrow>
          (case ac_test_bump (invalid_mask s') (flags at') of
             None \<Rightarrow> None
           | Some (again, fl) \<Rightarrow>
               let tests' = tests + 1; successes' = successes + (if r then 1 else 0)
               in if again then exec_loop pl s' (at'\<lparr>flags := fl\<rparr>) tests' successes' else Some (Inr (tests', successes', s'))))"

fun cases_loop :: "platform \<Rightarrow> nat \<Rightarrow> scenario list \<Rightarrow> ac_state \<Rightarrow> nat \<Rightarrow> nat \<Rightarrow> (nat \<times> nat \<times> ac_state) res" where
  "cases_loop pl levels [] s tests successes = Inr (tests, successes, s)"
| "cases_loop pl levels (c # cs) s tests successes =
     bind_res (c pl (ac_env_int levels) s) (\<lambda>(ok, _, s').
       cases_loop pl levels cs s' (tests + 1) (successes + (if ok then 1 else 0)))"

definition run_invalid_mask :: "platform \<Rightarrow> bool \<Rightarrow> u32 \<Rightarrow> u32" where
  "run_invalid_mask pl force_emulation m =
     (let m1 = (if maxphyaddr pl \<ge> 52 then m OR ac_mask AC_PDE_BIT51 OR ac_mask AC_PTE_BIT51 else m);
          m2 = (if maxphyaddr pl \<ge> 37 then m1 OR ac_mask AC_PDE_BIT36 OR ac_mask AC_PTE_BIT36 else m1)
      in if \<not> force_emulation then m2 OR ac_mask AC_FEP else m2)"

text \<open>The probes of \<open>CR4.PKE\<close>, \<open>CR4.SMEP\<close> and \<open>CR4.LA57\<close>.\<close>

definition run_pke :: "platform \<Rightarrow> ac_state \<Rightarrow> nat \<times> nat \<Rightarrow> ((nat \<times> nat) \<times> ac_state) res" where
  "run_pke pl s n =
     (if has_pku pl then
        bind_res (set_cr4_pke pl s True) (\<lambda>s. bind_res (set_cr4_pke pl s False) (\<lambda>s. Inr (n, s)))
      else
        let (v, s1) = write_cr4_safe pl s (shadow_cr4 s OR X86_CR4_PKE) in
        if v = GP_VECTOR then
          Inr ((fst n + 1, snd n + 1), s1\<lparr>invalid_mask := invalid_mask s1 OR masks [AC_PKU_AD, AC_PKU_WD, AC_PKU_PKEY, AC_CPU_CR4_PKE]\<rparr>)
        else bind_res (set_cr4_pke pl s1 False) (\<lambda>s2. Inr ((fst n + 1, snd n), s2)))"

definition run_smep :: "platform \<Rightarrow> ac_state \<Rightarrow> ac_test_t \<Rightarrow> nat \<times> nat \<Rightarrow> ((nat \<times> nat) \<times> ac_state) res" where
  "run_smep pl s at n =
     (if has_smep pl then Inr (n, s)
      else
        bind_res (set_cr4_smep pl s at True) (\<lambda>(v, s1).
          if v = GP_VECTOR then Inr ((fst n + 1, snd n + 1), s1\<lparr>invalid_mask := invalid_mask s1 OR ac_mask AC_CPU_CR4_SMEP\<rparr>)
          else bind_res (set_cr4_smep pl s1 at False) (\<lambda>(_, s2). Inr ((fst n + 1, snd n), s2))))"

definition run_la57 :: "platform \<Rightarrow> ac_state \<Rightarrow> nat \<times> nat \<Rightarrow> (nat \<times> nat) \<times> ac_state" where
  "run_la57 pl s n =
     (if has_la57 pl then
        let (v1, s1) = write_cr4_safe pl s (shadow_cr4 s XOR X86_CR4_LA57);
            (v2, s2) = write_cr4_safe pl s1 (shadow_cr4 s XOR (X86_CR4_LA57 OR X86_CR4_PSE))
        in ((fst n + 2, snd n + (if v1 = GP_VECTOR then 1 else 0) + (if v2 = GP_VECTOR then 1 else 0)), s2)
      else (n, s))"

text \<open>
  \<open>ac_test_run\<close> from the point where emulation is known to be available if it is forced: the
  numbers of tests and of successes, which the report compares.
\<close>

definition ac_test_run :: "platform \<Rightarrow> ac_state \<Rightarrow> nat \<Rightarrow> bool \<Rightarrow> (nat \<times> nat \<times> ac_state) res option" where
  "ac_test_run pl s0 levels force_emulation =
     (if force_emulation \<and> \<not> fep_available pl then Some (Inr (0, 0, s0)) else
      let s = s0\<lparr>shadow_cr0 := reg_cr0 s0, shadow_cr4 := reg_cr4 s0, shadow_cr3 := reg_cr3 s0, shadow_efer := reg_efer s0,
                  invalid_mask := run_invalid_mask pl force_emulation (invalid_mask s0)\<rparr>
      in case
          (bind_res (ac_test_init pl s at_uninit 0xffff923400000000 (ac_env_int levels)) (\<lambda>(at, s, _).
           bind_res (run_pke pl s (0, 0)) (\<lambda>(n, s).
           bind_res (run_smep pl s at n) (\<lambda>(n, s). Inr (at, run_la57 pl s n)))))
         of Inl e \<Rightarrow> Some (Inl e)
          | Inr (at, n, s) \<Rightarrow>
              (case exec_loop pl s at (fst n) (snd n) of
                 None \<Rightarrow> None
               | Some r \<Rightarrow> Some (bind_res r (\<lambda>(tests, successes, s). cases_loop pl levels ac_test_cases s tests successes))))"

end
