(* ===== verification/AccessArch.thy ===== *)
theory AccessArch
  imports AccessRun
begin

text \<open>
  The page walk of the architecture (Intel SDM volume 3, chapter on paging; AMD volume 2), as
  the reference the prediction of \<open>x86/access.c\<close> is compared with. On a fault the processor may
  or may not have set the accessed bits of the entries above the faulting one; \<open>choice\<close> tells
  which. Supervisor-mode access prevention is off.
\<close>

section \<open>The walk\<close>

definition hw_reserved :: "nat \<Rightarrow> bool \<Rightarrow> nat \<Rightarrow> u64 \<Rightarrow> bool" where
  "hw_reserved mpa nxe l e \<longleftrightarrow>
     (\<exists>i. mpa \<le> i \<and> i \<le> 51 \<and> bit e i) \<or> (bit e 63 \<and> \<not> nxe) \<or> (4 \<le> l \<and> bit e 7) \<or>
     (l = 2 \<and> bit e 7 \<and> (\<exists>i. 13 \<le> i \<and> i \<le> 20 \<and> bit e i)) \<or>
     (l = 3 \<and> bit e 7 \<and> (\<exists>i. 13 \<le> i \<and> i \<le> 29 \<and> bit e i))"

text \<open>The end of a walk, with the entries used on the way and the accumulated rights.\<close>

datatype walk_end =
    Absent "pteptr list"
  | Malformed "pteptr list"
  | Mapped "pteptr list" pteptr bool bool bool

fun hw_walk :: "nat \<Rightarrow> bool \<Rightarrow> ptmem \<Rightarrow> nat \<Rightarrow> u64 \<Rightarrow> u64 \<Rightarrow> bool \<Rightarrow> bool \<Rightarrow> bool \<Rightarrow> pteptr list \<Rightarrow> walk_end" where
  "hw_walk mpa nxe m 0 b va w u x path = Absent path"
| "hw_walk mpa nxe m (Suc l) b va w u x path =
     (let p = (b, PT_INDEX va (Suc l)); e = pt_read m p; w' = (w \<and> bit e 1); u' = (u \<and> bit e 2); x' = (x \<and> \<not> bit e 63) in
      if \<not> bit e 0 then Absent path
      else if hw_reserved mpa nxe (Suc l) e then Malformed path
      else if l = 0 \<or> (Suc l = 2 \<or> Suc l = 3) \<and> bit e 7 then Mapped path p w' u' x'
      else hw_walk mpa nxe m l (pt_next e) va w' u' x' (path @ [p]))"

definition pk_denied :: "ac_state \<Rightarrow> mem_access \<Rightarrow> u64 \<Rightarrow> bool \<Rightarrow> bool" where
  "pk_denied s acc e u \<longleftrightarrow>
     bit (reg_cr4 s) 22 \<and> u \<and> \<not> a_fetch acc \<and>
     (let key = unat (take_bit 4 (drop_bit 59 e)) in
      bit (reg_pkru s) (2 * key) \<or> a_write acc \<and> bit (reg_pkru s) (2 * key + 1) \<and> (a_user acc \<or> bit (reg_cr0 s) 16))"

definition denied :: "ac_state \<Rightarrow> mem_access \<Rightarrow> u64 \<Rightarrow> bool \<Rightarrow> bool \<Rightarrow> bool \<Rightarrow> bool" where
  "denied s acc e w u x \<longleftrightarrow>
     (a_user acc \<and> \<not> u) \<or> (a_write acc \<and> \<not> w \<and> (a_user acc \<or> bit (reg_cr0 s) 16)) \<or> (a_fetch acc \<and> \<not> x) \<or>
     (a_fetch acc \<and> \<not> a_user acc \<and> u \<and> bit (reg_cr4 s) 20) \<or> pk_denied s acc e u"

definition hw_error :: "ac_state \<Rightarrow> mem_access \<Rightarrow> bool \<Rightarrow> bool \<Rightarrow> bool \<Rightarrow> u32" where
  "hw_error s acc present rsvd pk =
     (if present then PFERR_PRESENT_MASK else 0) OR (if a_write acc then PFERR_WRITE_MASK else 0) OR
     (if a_user acc then PFERR_USER_MASK else 0) OR (if rsvd then PFERR_RESERVED_MASK else 0) OR
     (if a_fetch acc \<and> (bit (reg_efer s) 11 \<or> bit (reg_cr4 s) 20) then PFERR_FETCH_MASK else 0) OR
     (if pk then PFERR_PK_MASK else 0)"

definition mark :: "pteptr list \<Rightarrow> ptmem \<Rightarrow> ptmem" where
  "mark ps m = fold (\<lambda>p m. pt_write m p (pt_read m p OR PT_ACCESSED_MASK)) ps m"

definition hw_levels :: "ac_state \<Rightarrow> nat" where
  "hw_levels s = (if bit (reg_cr4 s) 12 then 5 else 4)"

text \<open>The access itself, at the end of the walk.\<close>

fun hw_finish :: "(pteptr \<Rightarrow> bool) \<Rightarrow> ac_state \<Rightarrow> mem_access \<Rightarrow> walk_end \<Rightarrow> u32 option \<times> ptmem" where
  "hw_finish choice s acc (Absent path) = (Some (hw_error s acc False False False), mark (filter choice path) (ptm s))"
| "hw_finish choice s acc (Malformed path) = (Some (hw_error s acc True True False), mark (filter choice path) (ptm s))"
| "hw_finish choice s acc (Mapped path p w u x) =
     (let e = pt_read (ptm s) p in
      if denied s acc e w u x then (Some (hw_error s acc True False (pk_denied s acc e u)), mark (filter choice path) (ptm s))
      else (None, pt_write (mark path (ptm s)) p (e OR PT_ACCESSED_MASK OR (if a_write acc then PT_DIRTY_MASK else 0))))"

definition hw_access :: "nat \<Rightarrow> (pteptr \<Rightarrow> bool) \<Rightarrow> ac_state \<Rightarrow> u64 \<Rightarrow> mem_access \<Rightarrow> u32 option \<times> ptmem" where
  "hw_access mpa choice s va acc =
     hw_finish choice s acc (hw_walk mpa (bit (reg_efer s) 11) (ptm s) (hw_levels s) (pt_next (reg_cr3 s)) va True True True [])"

text \<open>A platform whose accesses follow the architecture.\<close>

definition obeys :: "platform \<Rightarrow> bool" where
  "obeys pl \<longleftrightarrow> (\<forall>s va acc fep. \<not> bit (reg_cr4 s) 21 \<longrightarrow> (\<exists>choice. mem_op pl s va acc fep = hw_access (maxphyaddr pl) choice s va acc))"

section \<open>Reading after marking\<close>

lemma pt_read_write [simp]: "pt_read (pt_write m p v) q = (if q = p then v else pt_read m q)"
  by (auto simp: pt_read_def pt_write_def prod_eq_iff)

lemma pt_read_mark: "pt_read (mark ps m) q = (if q \<in> set ps then pt_read m q OR PT_ACCESSED_MASK else pt_read m q)"
proof (induction ps arbitrary: m)
  case (Cons p ps)
  have "mark (p # ps) m = mark ps (pt_write m p (pt_read m p OR PT_ACCESSED_MASK))" by (simp add: mark_def)
  then show ?case using Cons by (auto simp: or.assoc)
qed (simp add: mark_def)

text \<open>Equality of memories up to accessed and dirty bits.\<close>

definition ad_eq :: "ptmem \<Rightarrow> ptmem \<Rightarrow> bool" where
  "ad_eq m m' \<longleftrightarrow> (\<forall>p i. i \<noteq> 5 \<and> i \<noteq> 6 \<longrightarrow> bit (pt_read m' p) i = bit (pt_read m p) i)"

lemma bit_AD: "bit PT_ACCESSED_MASK i \<longleftrightarrow> i = 5" "bit PT_DIRTY_MASK i \<longleftrightarrow> i = 6"
  by (simp only: PT_ACCESSED_MASK_def PT_DIRTY_MASK_def bit_push_bit_iff bit_1_iff; auto)+

lemma ad_eq_refl: "ad_eq m m"
  by (simp add: ad_eq_def)

lemma ad_eq_trans: "ad_eq m m' \<Longrightarrow> ad_eq m' m'' \<Longrightarrow> ad_eq m m''"
  by (simp add: ad_eq_def)

lemma ad_eq_mark: "ad_eq m (mark ps m)"
  by (simp add: ad_eq_def pt_read_mark bit_or_iff bit_AD)

lemma hw_finish_ad_eq: "ad_eq (ptm s) (snd (hw_finish choice s acc w))"
  by (cases w) (auto simp: ad_eq_def pt_read_mark bit_or_iff bit_AD Let_def)

lemma hw_access_ad_eq: "ad_eq (ptm s) (snd (hw_access mpa choice s va acc))"
  by (simp add: hw_access_def hw_finish_ad_eq)

end
