(* ===== verification/AccessEntries.thy ===== *)
theory AccessEntries
  imports AccessArch
begin

text \<open>
  What \<open>ac_test_do_access\<close> makes of the processor's modes, and what the entries written by
  \<open>ac_test_setup_ptes\<close> look like to a walk of the tables.
\<close>

section \<open>Flags and registers as bits\<close>

lemma and_bit32: "x AND push_bit k (1 :: u32) \<noteq> 0 \<longleftrightarrow> bit x k"
proof
  assume "x AND push_bit k (1 :: u32) \<noteq> 0"
  then obtain i where "bit (x AND push_bit k (1 :: u32)) i" using bit_eqI[of "x AND push_bit k 1" 0] by auto
  then show "bit x k" by (auto simp: bit_simps)
next
  assume b: "bit x k"
  then have "k < 32" using bit_imp_le_length[of x k] by simp
  then have "bit (x AND push_bit k (1 :: u32)) k" using b by (simp add: bit_simps)
  then show "x AND push_bit k (1 :: u32) \<noteq> 0" by auto
qed

lemma has_bit: "has fl f \<longleftrightarrow> bit fl (ac_bit f)"
  by (simp only: has_def ac_mask_def and_bit32)

lemma bit_reg_masks:
  "bit X86_CR0_WP i \<longleftrightarrow> i = 16" "bit X86_CR4_SMEP i \<longleftrightarrow> i = 20" "bit X86_CR4_PKE i \<longleftrightarrow> i = 22" "bit EFER_NX_MASK i \<longleftrightarrow> i = 11"
  by (simp only: X86_CR0_WP_def X86_CR4_SMEP_def X86_CR4_PKE_def EFER_NX_MASK_def bit_push_bit_iff bit_1_iff; auto)+

lemma bit_pt_masks:
  "bit PT_PRESENT_MASK i \<longleftrightarrow> i = 0" "bit PT_WRITABLE_MASK i \<longleftrightarrow> i = 1" "bit PT_USER_MASK i \<longleftrightarrow> i = 2"
  "bit PT_PAGE_SIZE_MASK i \<longleftrightarrow> i = 7" "bit PT64_NX_MASK i \<longleftrightarrow> i = 63"
  by (simp only: PT_PRESENT_MASK_def PT_WRITABLE_MASK_def PT_USER_MASK_def PT_PAGE_SIZE_MASK_def PT64_NX_MASK_def
      bit_push_bit_iff bit_1_iff; auto)+

lemma bit_bits_if [simp]:
  "bit (bits_if [] e) i \<longleftrightarrow> bit e i"
  "bit (bits_if ((c, b) # cs) e) i \<longleftrightarrow> c \<and> bit b i \<or> bit (bits_if cs e) i"
proof -
  have mono: "bit (bits_if cs (x OR y)) i \<longleftrightarrow> bit y i \<or> bit (bits_if cs x) i" for x y
  proof (induction cs arbitrary: x)
    case (Cons p cs)
    obtain c b where "p = (c, b)" by (cases p)
    moreover have "(x OR y) OR b = (x OR b) OR y" by (simp only: or.assoc or.commute[of y b])
    ultimately show ?case using Cons.IH[of "x OR b"] Cons.IH[of x] by (simp add: bits_if_def)
  qed (simp add: bits_if_def bit_or_iff disj_commute)
  show "bit (bits_if ((c, b) # cs) e) i \<longleftrightarrow> c \<and> bit b i \<or> bit (bits_if cs e) i"
    using mono[of e b] by (simp add: bits_if_def)
qed (simp add: bits_if_def)

lemma bit_BASE: "bit PT_BASE_ADDR_MASK i \<longleftrightarrow> 12 \<le> i \<and> i \<le> 35"
proof -
  have *: "PT_BASE_ADDR_MASK = mask 36 AND NOT (mask 12)" by (simp add: PT_BASE_ADDR_MASK_def mask_eq_exp_minus_1)
  show ?thesis unfolding * bit_and_iff bit_not_iff bit_mask_iff by auto
qed

lemma bit_table_of: "bit (table_of e) i \<longleftrightarrow> bit e i \<and> 12 \<le> i \<and> i \<le> 35"
  by (auto simp: table_of_def bit_and_iff bit_BASE)

lemma eq_bits: "x = (y :: u64) \<longleftrightarrow> (\<forall>n. bit x n = bit y n)"
  using bit_eqI[of x y] by auto

section \<open>Modes\<close>

text \<open>The registers agree with the variables that shadow them.\<close>

definition synced :: "ac_state \<Rightarrow> bool" where
  "synced s \<longleftrightarrow> reg_cr0 s = shadow_cr0 s \<and> reg_cr3 s = shadow_cr3 s \<and> reg_cr4 s = shadow_cr4 s \<and> reg_efer s = shadow_efer s"

text \<open>The registers are as the flags ask for.\<close>

definition in_mode :: "ac_state \<Rightarrow> u32 \<Rightarrow> bool" where
  "in_mode s fl \<longleftrightarrow>
     (bit (reg_cr0 s) 16 \<longleftrightarrow> has fl AC_CPU_CR0_WP) \<and> (bit (reg_efer s) 11 \<longleftrightarrow> has fl AC_CPU_EFER_NX) \<and>
     (bit (reg_cr4 s) 22 \<longleftrightarrow> has fl AC_CPU_CR4_PKE) \<and> \<not> bit (reg_cr4 s) 20 \<and> \<not> bit (reg_cr4 s) 21 \<and>
     (has fl AC_CPU_CR4_PKE \<longrightarrow>
        (bit (reg_pkru s) 2 \<longleftrightarrow> has fl AC_PKU_AD) \<and> (bit (reg_pkru s) 3 \<longleftrightarrow> has fl AC_PKU_WD) \<and>
        \<not> bit (reg_pkru s) 0 \<and> \<not> bit (reg_pkru s) 1)"

lemma set_cr0_wp_eq:
  assumes "synced s"
  shows "\<exists>c. set_cr0_wp s wp = s\<lparr>reg_cr0 := c, shadow_cr0 := c\<rparr> \<and> (bit c 16 \<longleftrightarrow> wp)"
proof -
  let ?c = "if wp then (shadow_cr0 s AND NOT X86_CR0_WP) OR X86_CR0_WP else shadow_cr0 s AND NOT X86_CR0_WP"
  have "bit ?c 16 = wp" by (simp add: bit_and_iff bit_or_iff bit_not_iff bit_reg_masks)
  moreover have "set_cr0_wp s wp = s\<lparr>reg_cr0 := ?c, shadow_cr0 := ?c\<rparr>"
    unfolding set_cr0_wp_def Let_def using assms by (cases s) (simp add: synced_def)
  ultimately show ?thesis by blast
qed

lemma set_efer_nx_eq:
  assumes "synced s"
  shows "\<exists>c. set_efer_nx s nx = s\<lparr>reg_efer := c, shadow_efer := c\<rparr> \<and> (bit c 11 \<longleftrightarrow> nx)"
proof -
  let ?c = "if nx then (shadow_efer s AND NOT EFER_NX_MASK) OR EFER_NX_MASK else shadow_efer s AND NOT EFER_NX_MASK"
  have "bit ?c 11 = nx" by (simp add: bit_and_iff bit_or_iff bit_not_iff bit_reg_masks)
  moreover have "set_efer_nx s nx = s\<lparr>reg_efer := ?c, shadow_efer := ?c\<rparr>"
    unfolding set_efer_nx_def Let_def using assms by (cases s) (simp add: synced_def)
  ultimately show ?thesis by blast
qed

text \<open>Changing \<open>CR4.PKE\<close> alone is accepted by a processor with protection keys.\<close>

definition pke_ok :: "platform \<Rightarrow> ac_state \<Rightarrow> bool" where
  "pke_ok pl s \<longleftrightarrow> (\<forall>v. (\<forall>i. i \<noteq> 22 \<longrightarrow> bit v i = bit (reg_cr4 s) i) \<longrightarrow> (bit v 22 \<longrightarrow> has_pku pl) \<longrightarrow> \<not> cr4_faults pl v)"

lemma set_cr4_pke_eq:
  assumes "synced s" "pke_ok pl s" "pke \<longrightarrow> has_pku pl"
  shows "\<exists>c k. set_cr4_pke pl s pke = Inr (s\<lparr>reg_cr4 := c, shadow_cr4 := c, reg_pkru := k\<rparr>) \<and> (bit c 22 \<longleftrightarrow> pke) \<and>
    (\<forall>i. i \<noteq> 22 \<longrightarrow> bit c i = bit (reg_cr4 s) i)"
proof -
  define c where "c = (if pke then (shadow_cr4 s AND NOT X86_CR4_PKE) OR X86_CR4_PKE else shadow_cr4 s AND NOT X86_CR4_PKE)"
  have "bit c 22 = pke" unfolding c_def by (simp add: bit_and_iff bit_or_iff bit_not_iff bit_reg_masks)
  moreover have "\<forall>i. i \<noteq> 22 \<longrightarrow> bit c i = bit (reg_cr4 s) i"
    using assms(1) unfolding c_def by (auto simp: synced_def bit_and_iff bit_or_iff bit_not_iff bit_reg_masks dest: bit_imp_le_length)
  moreover from calculation have "\<not> cr4_faults pl c" using assms(2,3) unfolding pke_ok_def by blast
  then have "\<exists>k. set_cr4_pke pl s pke = Inr (s\<lparr>reg_cr4 := c, shadow_cr4 := c, reg_pkru := k\<rparr>)"
  proof (cases "c = shadow_cr4 s")
    case True
    then have "set_cr4_pke pl s pke = Inr (s\<lparr>reg_cr4 := c, shadow_cr4 := c, reg_pkru := reg_pkru s\<rparr>)"
      using assms(1) unfolding set_cr4_pke_def c_def[symmetric] Let_def by (cases s) (simp add: synced_def)
    then show ?thesis by blast
  next
    case False
    let ?k = "if shadow_cr4 s AND X86_CR4_PKE \<noteq> 0 \<and> \<not> pke then 0xfffffffc else reg_pkru s"
    have "set_cr4_pke pl s pke = Inr (s\<lparr>reg_cr4 := c, shadow_cr4 := c, reg_pkru := ?k\<rparr>)"
      using False \<open>\<not> cr4_faults pl c\<close> unfolding set_cr4_pke_def c_def[symmetric] Let_def
      by (cases s) (simp add: write_cr4_def write_cr4_safe_def res_simps)
    then show ?thesis by blast
  qed
  ultimately show ?thesis by blast
qed

lemma set_cr4_smep_off:
  assumes "synced s" "\<not> bit (reg_cr4 s) 20"
  shows "set_cr4_smep pl s at False = Inr (0, s)"
proof -
  have "shadow_cr4 s AND NOT X86_CR4_SMEP = shadow_cr4 s"
    using assms by (intro bit_eqI) (auto simp: synced_def bit_and_iff bit_not_iff bit_reg_masks)
  then show ?thesis by (simp add: set_cr4_smep_def)
qed

lemma access_modes_eq:
  assumes s: "synced s" "pke_ok pl s" "\<not> bit (reg_cr4 s) 20" "\<not> bit (reg_cr4 s) 21"
    and fl: "\<not> has (flags at) AC_CPU_CR4_SMEP" "has (flags at) AC_CPU_CR4_PKE \<longrightarrow> has_pku pl"
  shows "\<exists>s'. access_modes pl s at = Inr s' \<and> synced s' \<and> in_mode s' (flags at) \<and> (\<forall>i. i \<noteq> 22 \<longrightarrow> bit (reg_cr4 s') i = bit (reg_cr4 s) i) \<and>
    ptm s' = ptm s \<and> reg_cr3 s' = reg_cr3 s \<and> invalid_mask s' = invalid_mask s"
proof -
  let ?f = "has (flags at)"
  obtain c0 where c0: "set_cr0_wp s (?f AC_CPU_CR0_WP) = s\<lparr>reg_cr0 := c0, shadow_cr0 := c0\<rparr>" "bit c0 16 = ?f AC_CPU_CR0_WP"
    using set_cr0_wp_eq[OF s(1)] by blast
  define s1 where "s1 = s\<lparr>reg_cr0 := c0, shadow_cr0 := c0\<rparr>"
  have s1: "synced s1" using s(1) by (simp add: synced_def s1_def)
  obtain ce where ce: "set_efer_nx s1 (?f AC_CPU_EFER_NX) = s1\<lparr>reg_efer := ce, shadow_efer := ce\<rparr>" "bit ce 11 = ?f AC_CPU_EFER_NX"
    using set_efer_nx_eq[OF s1] by blast
  define s2 where "s2 = s1\<lparr>reg_efer := ce, shadow_efer := ce\<rparr>"
  have s2: "synced s2" "pke_ok pl s2" using s1 s(2) by (simp_all add: synced_def s2_def s1_def pke_ok_def)
  obtain c4 k where c4: "set_cr4_pke pl s2 (?f AC_CPU_CR4_PKE) = Inr (s2\<lparr>reg_cr4 := c4, shadow_cr4 := c4, reg_pkru := k\<rparr>)"
      "bit c4 22 = ?f AC_CPU_CR4_PKE" "\<forall>i. i \<noteq> 22 \<longrightarrow> bit c4 i = bit (reg_cr4 s) i"
    using set_cr4_pke_eq[OF s2 fl(2)] by (auto simp: s2_def s1_def)
  define k' where "k' = (if ?f AC_CPU_CR4_PKE then 0x30 OR (if ?f AC_PKU_WD then 8 else 0) OR (if ?f AC_PKU_AD then 4 else 0) else k)"
  define s3 where "s3 = s2\<lparr>reg_cr4 := c4, shadow_cr4 := c4, reg_pkru := k'\<rparr>"
  have b: "\<not> bit c4 20" "\<not> bit c4 21" using c4(3) s(3,4) by auto
  have s3: "synced s3" "\<not> bit (reg_cr4 s3) 20" using s2 b by (simp_all add: synced_def s3_def)
  define s3' where "s3' = s2\<lparr>reg_cr4 := c4, shadow_cr4 := c4, reg_pkru := k\<rparr>"
  have "(if ?f AC_CPU_CR4_PKE then s3'\<lparr>reg_pkru := 0x30 OR (if ?f AC_PKU_WD then 8 else 0) OR (if ?f AC_PKU_AD then 4 else 0)\<rparr> else s3') = s3"
    by (simp add: s3'_def s3_def k'_def)
  then have "access_modes pl s at = Inr s3"
    using set_cr4_smep_off[OF s3, of pl at] fl(1)
    by (simp add: access_modes_def Let_def c0(1) s1_def[symmetric] ce(1) s2_def[symmetric] c4(1) s3'_def[symmetric] res_simps)
  moreover have "in_mode s3 (flags at)"
    using c0(2) ce(2) c4(2) b by (auto simp: in_mode_def s3_def s2_def s1_def k'_def bit_or_iff)
  ultimately show ?thesis using s3 c4(3) by (auto simp: s3_def s2_def s1_def)
qed

section \<open>The entries of a test\<close>

text \<open>What the walk sees of the entries, accessed and dirty bits apart.\<close>

definition upper_entry :: "u32 \<Rightarrow> nat \<Rightarrow> u64 \<Rightarrow> u64 \<Rightarrow> bool" where
  "upper_entry fl i pt e \<longleftrightarrow>
     bit e 0 \<and> (bit e 1 \<longleftrightarrow> \<not> (i = 3 \<and> has fl AC_PDPTE_NO_WRITABLE)) \<and> bit e 2 \<and> \<not> bit e 7 \<and> \<not> bit e 63 \<and>
     (\<forall>j. 12 \<le> j \<and> j \<le> 51 \<longrightarrow> bit e j = bit pt j)"

definition pde_entry :: "u32 \<Rightarrow> u64 \<Rightarrow> u64 \<Rightarrow> bool" where
  "pde_entry fl pt e \<longleftrightarrow>
     (bit e 0 \<longleftrightarrow> has fl AC_PDE_PRESENT) \<and> (bit e 1 \<longleftrightarrow> has fl AC_PDE_WRITABLE) \<and> (bit e 2 \<longleftrightarrow> has fl AC_PDE_USER) \<and>
     (bit e 7 \<longleftrightarrow> has fl AC_PDE_PSE) \<and> (bit e 63 \<longleftrightarrow> has fl AC_PDE_NX) \<and>
     (\<forall>j. 32 \<le> j \<and> j \<le> 51 \<longrightarrow> (bit e j \<longleftrightarrow> j = 51 \<and> has fl AC_PDE_BIT51 \<or> j = 36 \<and> has fl AC_PDE_BIT36)) \<and>
     (has fl AC_PDE_PSE \<longrightarrow>
        (\<forall>j. 13 \<le> j \<and> j \<le> 20 \<longrightarrow> (bit e j \<longleftrightarrow> j = 13 \<and> has fl AC_PDE_BIT13)) \<and>
        (\<forall>j. 59 \<le> j \<and> j \<le> 62 \<longrightarrow> (bit e j \<longleftrightarrow> j = 59 \<and> has fl AC_PKU_PKEY))) \<and>
     (\<not> has fl AC_PDE_PSE \<longrightarrow> (\<forall>j. 12 \<le> j \<and> j \<le> 31 \<longrightarrow> bit e j = bit pt j))"

definition pte_entry :: "u32 \<Rightarrow> u64 \<Rightarrow> bool" where
  "pte_entry fl e \<longleftrightarrow>
     (bit e 0 \<longleftrightarrow> has fl AC_PTE_PRESENT) \<and> (bit e 1 \<longleftrightarrow> has fl AC_PTE_WRITABLE) \<and> (bit e 2 \<longleftrightarrow> has fl AC_PTE_USER) \<and>
     (bit e 63 \<longleftrightarrow> has fl AC_PTE_NX) \<and>
     (\<forall>j. 32 \<le> j \<and> j \<le> 51 \<longrightarrow> (bit e j \<longleftrightarrow> j = 51 \<and> has fl AC_PTE_BIT51 \<or> j = 36 \<and> has fl AC_PTE_BIT36)) \<and>
     (\<forall>j. 59 \<le> j \<and> j \<le> 62 \<longrightarrow> (bit e j \<longleftrightarrow> j = 59 \<and> has fl AC_PKU_PKEY))"

text \<open>A page-table page below 4 GiB, and an entry that does not collide with it.\<close>

definition page_ok :: "u64 \<Rightarrow> bool" where
  "page_ok pt \<longleftrightarrow> (\<forall>j. bit pt j \<longrightarrow> 12 \<le> j \<and> j \<le> 31)"

definition slot_ok :: "u64 \<Rightarrow> u64 \<Rightarrow> bool" where
  "slot_ok pt e \<longleftrightarrow> e = 0 \<or> bit e 7 \<or> table_of e = pt"

lemma and_PS: "e AND PT_PAGE_SIZE_MASK \<noteq> 0 \<longleftrightarrow> bit e 7"
  by (simp only: PT_PAGE_SIZE_MASK_def and_pow2_nonzero)

lemma ac_get_pt_ok:
  assumes "i < length (page_tables at)" "slot_ok (page_tables at ! i) old"
  shows "ac_get_pt at i old = Inr (page_tables at ! i OR (old AND (PT_DIRTY_MASK OR PT_ACCESSED_MASK)))"
  using assms and_PS[of old] by (auto simp: ac_get_pt_def arr_get_def slot_ok_def table_of_def res_simps)

lemma ac_pte_upper:
  assumes "3 \<le> i" "i \<le> 5" "i < length (page_tables at)" "page_ok (page_tables at ! i)" "slot_ok (page_tables at ! i) old"
  shows "\<exists>e. ac_pte at i old = Inr e \<and> upper_entry (flags at) i (page_tables at ! i) e"
proof (cases "i = 3")
  case True
  then show ?thesis using assms
    by (auto simp: ac_pte_def Let_def ac_get_pt_ok res_simps upper_entry_def page_ok_def bit_or_iff bit_and_iff bit_pt_masks bit_AD)
next
  case False
  then have "i = 5 \<or> i = 4" using assms(1,2) by linarith
  then show ?thesis using assms
    by (auto simp: ac_pte_def Let_def ac_get_pt_ok res_simps upper_entry_def page_ok_def bit_or_iff bit_and_iff bit_pt_masks bit_AD)
qed

lemma bit_PHYS: "bit AT_CODE_DATA_PHYS j \<longleftrightarrow> j = 25"
proof -
  have *: "AT_CODE_DATA_PHYS = push_bit 25 1" by (simp add: AT_CODE_DATA_PHYS_def)
  show ?thesis unfolding * bit_push_bit_iff bit_1_iff by auto
qed

lemma bit_PHYS_BASE: "bit (AT_CODE_DATA_PHYS AND PT_BASE_ADDR_MASK) j \<longleftrightarrow> j = 25"
  by (auto simp: bit_and_iff bit_PHYS bit_BASE)

lemma bit_pushes:
  "bit (push_bit 59 (2 :: u64)) j \<longleftrightarrow> j = 60" "bit (push_bit 59 (1 :: u64)) j \<longleftrightarrow> j = 59" "bit (push_bit 51 (1 :: u64)) j \<longleftrightarrow> j = 51"
  "bit (push_bit 36 (1 :: u64)) j \<longleftrightarrow> j = 36" "bit (push_bit 13 (1 :: u64)) j \<longleftrightarrow> j = 13"
proof -
  have *: "push_bit 59 (2 :: u64) = push_bit 60 1" by simp
  show "bit (push_bit 59 (2 :: u64)) j \<longleftrightarrow> j = 60" unfolding * bit_push_bit_iff bit_1_iff by auto
qed (simp only: bit_push_bit_iff bit_1_iff; auto)+

lemmas entry_bits = bit_or_iff bit_and_iff bit_not_iff bit_pt_masks bit_AD bit_PHYS bit_pushes bit_BASE

text \<open>The bits of the two entries of a test, accessed and dirty bits included.\<close>

lemma ac_pte_1:
  assumes "phys at = AT_CODE_DATA_PHYS"
  shows "\<exists>e. ac_pte at 1 old = Inr e \<and> pte_entry (flags at) e"
proof -
  define e where "e = bits_if [(has (flags at) AC_PKU_PKEY, push_bit 59 1), (has (flags at) AC_PTE_PRESENT, PT_PRESENT_MASK),
    (has (flags at) AC_PTE_WRITABLE, PT_WRITABLE_MASK), (has (flags at) AC_PTE_USER, PT_USER_MASK),
    (has (flags at) AC_PTE_ACCESSED, PT_ACCESSED_MASK), (has (flags at) AC_PTE_DIRTY, PT_DIRTY_MASK),
    (has (flags at) AC_PTE_NX, PT64_NX_MASK), (has (flags at) AC_PTE_BIT51, push_bit 51 1), (has (flags at) AC_PTE_BIT36, push_bit 36 1)]
    (phys at AND PT_BASE_ADDR_MASK)"
  have "ac_pte at 1 old = Inr e" by (simp add: ac_pte_def Let_def e_def)
  moreover have "bit e j \<longleftrightarrow> has (flags at) AC_PKU_PKEY \<and> j = 59 \<or> has (flags at) AC_PTE_PRESENT \<and> j = 0 \<or>
      has (flags at) AC_PTE_WRITABLE \<and> j = 1 \<or> has (flags at) AC_PTE_USER \<and> j = 2 \<or> has (flags at) AC_PTE_ACCESSED \<and> j = 5 \<or>
      has (flags at) AC_PTE_DIRTY \<and> j = 6 \<or> has (flags at) AC_PTE_NX \<and> j = 63 \<or> has (flags at) AC_PTE_BIT51 \<and> j = 51 \<or>
      has (flags at) AC_PTE_BIT36 \<and> j = 36 \<or> j = 25" for j
    unfolding e_def assms bit_bits_if bit_pt_masks bit_AD bit_pushes bit_PHYS_BASE by (rule refl)
  then have "pte_entry (flags at) e" unfolding pte_entry_def by auto
  ultimately show ?thesis by blast
qed

lemma ac_pte_2:
  assumes "phys at = AT_CODE_DATA_PHYS" "2 < length (page_tables at)" "page_ok (page_tables at ! 2)" "slot_ok (page_tables at ! 2) old"
    and l: "\<not> has (flags at) AC_PDE_PSE \<longrightarrow> \<not> has (flags at) AC_PDE_BIT13"
  shows "\<exists>e. ac_pte at 2 old = Inr e \<and> pde_entry (flags at) (page_tables at ! 2) e \<and> (has (flags at) AC_PDE_ACCESSED \<longrightarrow> bit e 5)"
proof -
  define b where "b = (if \<not> has (flags at) AC_PDE_PSE
    then bits_if [(has (flags at) AC_PKU_PKEY, push_bit 59 2)] (page_tables at ! 2 OR (old AND (PT_DIRTY_MASK OR PT_ACCESSED_MASK)))
    else bits_if [(has (flags at) AC_PKU_PKEY, push_bit 59 1)] ((phys at AND PT_PSE_BASE_ADDR_MASK) OR PT_PAGE_SIZE_MASK))"
  define e where "e = bits_if [(has (flags at) AC_PDE_PRESENT, PT_PRESENT_MASK), (has (flags at) AC_PDE_WRITABLE, PT_WRITABLE_MASK),
    (has (flags at) AC_PDE_USER, PT_USER_MASK), (has (flags at) AC_PDE_ACCESSED, PT_ACCESSED_MASK), (has (flags at) AC_PDE_DIRTY, PT_DIRTY_MASK),
    (has (flags at) AC_PDE_NX, PT64_NX_MASK), (has (flags at) AC_PDE_BIT51, push_bit 51 1), (has (flags at) AC_PDE_BIT36, push_bit 36 1),
    (has (flags at) AC_PDE_BIT13, push_bit 13 1)] b"
  have "ac_pte at 2 old = Inr e" using assms(2,4) by (simp add: ac_pte_def Let_def e_def b_def ac_get_pt_ok res_simps)
  moreover have e: "bit e j \<longleftrightarrow> has (flags at) AC_PDE_PRESENT \<and> j = 0 \<or> has (flags at) AC_PDE_WRITABLE \<and> j = 1 \<or>
      has (flags at) AC_PDE_USER \<and> j = 2 \<or> has (flags at) AC_PDE_ACCESSED \<and> j = 5 \<or> has (flags at) AC_PDE_DIRTY \<and> j = 6 \<or>
      has (flags at) AC_PDE_NX \<and> j = 63 \<or> has (flags at) AC_PDE_BIT51 \<and> j = 51 \<or> has (flags at) AC_PDE_BIT36 \<and> j = 36 \<or>
      has (flags at) AC_PDE_BIT13 \<and> j = 13 \<or> bit b j" for j
    unfolding e_def bit_bits_if bit_pt_masks bit_AD bit_pushes by (rule refl)
  have "bit PT_PSE_BASE_ADDR_MASK 25" "\<And>j. bit PT_PSE_BASE_ADDR_MASK j \<Longrightarrow> 12 \<le> j \<and> j \<le> 35"
    unfolding PT_PSE_BASE_ADDR_MASK_def by (simp_all only: bit_and_iff bit_BASE bit_not_iff bit_push_bit_iff bit_1_iff) auto
  then have bp: "bit b j \<longleftrightarrow> has (flags at) AC_PKU_PKEY \<and> j = 59 \<or> j = 25 \<or> j = 7" if "has (flags at) AC_PDE_PSE" for j
    using that unfolding b_def assms(1) by (simp only: not_True_eq_False if_False bit_bits_if entry_bits) blast
  have bn: "bit b j \<longleftrightarrow> has (flags at) AC_PKU_PKEY \<and> j = 60 \<or> bit (page_tables at ! 2) j \<or> (bit old j \<and> (j = 5 \<or> j = 6))"
    if "\<not> has (flags at) AC_PDE_PSE" for j
    using that unfolding b_def by (simp only: not_False_eq_True if_True bit_bits_if entry_bits) blast
  have "pde_entry (flags at) (page_tables at ! 2) e"
    using assms(3) l unfolding pde_entry_def e page_ok_def by (cases "has (flags at) AC_PDE_PSE") (simp_all add: bp bn, auto)
  ultimately show ?thesis using e[of 5] by blast
qed

section \<open>Setting up the tables\<close>

text \<open>The table of level \<open>i\<close> of a test and the entry in it that translates the address.\<close>

definition tab :: "u64 \<Rightarrow> ac_test_t \<Rightarrow> nat \<Rightarrow> u64" where
  "tab root at i = (if i = pt_levels at then root else page_tables at ! Suc i)"

definition slot :: "u64 \<Rightarrow> ac_test_t \<Rightarrow> nat \<Rightarrow> pteptr" where
  "slot root at i = (tab root at i, PT_INDEX (virt at) i)"

definition geometry :: "u64 \<Rightarrow> ac_test_t \<Rightarrow> bool" where
  "geometry root at \<longleftrightarrow>
     (pt_levels at = 4 \<or> pt_levels at = 5) \<and> length (page_tables at) = 6 \<and> phys at = AT_CODE_DATA_PHYS \<and>
     (\<forall>i. 2 \<le> i \<and> i \<le> pt_levels at \<longrightarrow> page_ok (page_tables at ! i)) \<and> inj_on (tab root at) {1..pt_levels at}"

definition slots_ok :: "u64 \<Rightarrow> ac_test_t \<Rightarrow> ptmem \<Rightarrow> bool" where
  "slots_ok root at m \<longleftrightarrow> (\<forall>i. 2 \<le> i \<and> i \<le> pt_levels at \<longrightarrow> slot_ok (page_tables at ! i) (pt_read m (slot root at i)))"

text \<open>The entries are those of the test with the flags \<open>fl\<close>.\<close>

definition uppers :: "u32 \<Rightarrow> u64 \<Rightarrow> ac_test_t \<Rightarrow> nat \<Rightarrow> ptmem \<Rightarrow> bool" where
  "uppers fl root at k m \<longleftrightarrow> (\<forall>i. 3 \<le> i \<and> i \<le> k \<longrightarrow> upper_entry fl i (page_tables at ! i) (pt_read m (slot root at i)))"

definition ready :: "u32 \<Rightarrow> u64 \<Rightarrow> ac_test_t \<Rightarrow> ptmem \<Rightarrow> bool" where
  "ready fl root at m \<longleftrightarrow>
     uppers fl root at (pt_levels at) m \<and> pde_entry fl (page_tables at ! 2) (pt_read m (slot root at 2)) \<and>
     (\<not> has fl AC_PDE_PSE \<longrightarrow> pte_entry fl (pt_read m (slot root at 1)))"

lemma geometryD:
  assumes "geometry root at"
  shows "4 \<le> pt_levels at" "pt_levels at \<le> 5" "length (page_tables at) = 6" "phys at = AT_CODE_DATA_PHYS"
    "2 \<le> i \<Longrightarrow> i \<le> pt_levels at \<Longrightarrow> page_ok (page_tables at ! i)" "inj_on (tab root at) {1..pt_levels at}"
  using assms unfolding geometry_def by auto

lemma slot_inj:
  assumes "geometry root at" "1 \<le> i" "i \<le> pt_levels at" "1 \<le> j" "j \<le> pt_levels at"
  shows "slot root at i = slot root at j \<longleftrightarrow> i = j"
  using inj_onD[OF geometryD(6)[OF assms(1)], of i j] assms(2-) by (auto simp: slot_def)

lemma upper_next:
  assumes "upper_entry fl i pt e" "page_ok pt"
  shows "table_of e = pt" "pt_next e = pt"
proof -
  have "bit (table_of e) j = bit pt j" "bit (pt_next e) j = bit pt j" for j
  proof -
    have "bit pt j \<Longrightarrow> 12 \<le> j \<and> j \<le> 31" "12 \<le> j \<and> j \<le> 51 \<Longrightarrow> bit e j = bit pt j"
      using assms by (auto simp: upper_entry_def page_ok_def)
    then show "bit (table_of e) j = bit pt j" "bit (pt_next e) j = bit pt j" by (auto simp: bit_table_of bit_pt_next)
  qed
  then show "table_of e = pt" "pt_next e = pt" by (auto intro: bit_eqI)
qed

lemma pde_table:
  assumes "pde_entry fl pt e" "page_ok pt" "\<not> has fl AC_PDE_PSE"
  shows "table_of e = pt"
proof (rule bit_eqI)
  fix j
  show "bit (table_of e) j = bit pt j"
  proof (cases "j \<le> 31")
    case True
    then show ?thesis using assms unfolding bit_table_of pde_entry_def page_ok_def by auto
  next
    case False
    then show ?thesis using assms unfolding bit_table_of pde_entry_def page_ok_def by auto
  qed
qed

lemma ptm_same [simp]: "\<exists>m. s = s\<lparr>ptm := m\<rparr>"
  by (intro exI[of _ "ptm s"]) simp

lemma setup_step:
  assumes "1 \<le> l \<or> \<not> has (flags at) AC_PDE_PSE" "(table_of parent, PT_INDEX (virt at) (Suc l)) = p" "ac_pte at (Suc l) (pt_read (ptm s) p) = Inr e"
  shows "\<exists>s1. setup_ptes_loop (Suc l) parent s at =
      setup_ptes_loop l e s1 (if Suc l = 2 then at\<lparr>pdep := Some p\<rparr> else if Suc l = 1 then at\<lparr>ptep := Some p\<rparr> else at) \<and>
    (\<exists>m. s1 = s\<lparr>ptm := m\<rparr>) \<and> (\<forall>q. pt_read (ptm s1) q = (if q = p then e else pt_read (ptm s) q))"
proof -
  have "2 \<le> Suc l \<or> \<not> has (flags at) AC_PDE_PSE" using assms(1) by auto
  then show ?thesis unfolding setup_ptes_loop.simps(2) Let_def assms(2) assms(3)
    by (intro exI[of _ "if e \<noteq> pt_read (ptm s) p then s\<lparr>ptm := pt_write (ptm s) p e\<rparr> else s"]) (auto simp: res_simps simp del: setup_ptes_loop.simps)
qed

declare setup_ptes_loop.simps [simp del]

lemma setup_uppers:
  assumes g: "geometry root at" and "Suc (Suc k) \<le> pt_levels at" "slots_ok root at (ptm s)" "table_of parent = tab root at (Suc (Suc k))"
  shows "\<exists>s' parent'. setup_ptes_loop (Suc (Suc k)) parent s at = setup_ptes_loop 2 parent' s' at \<and> table_of parent' = tab root at 2 \<and>
    (\<exists>m. s' = s\<lparr>ptm := m\<rparr>) \<and> uppers (flags at) root at (Suc (Suc k)) (ptm s') \<and>
    (\<forall>q. (\<forall>i. 3 \<le> i \<and> i \<le> Suc (Suc k) \<longrightarrow> q \<noteq> slot root at i) \<longrightarrow> pt_read (ptm s') q = pt_read (ptm s) q)"
  using assms(2-)
proof (induction k arbitrary: s parent)
  case 0
  then show ?case by (intro exI[of _ s] exI[of _ parent]) (auto simp: uppers_def numeral_2_eq_2)
next
  case (Suc k)
  let ?j = "Suc (Suc (Suc k))"
  have pt: "page_ok (page_tables at ! ?j)" "?j < length (page_tables at)" "?j \<le> 5"
    using geometryD[OF g] Suc.prems(1) by simp_all
  have p: "(table_of parent, PT_INDEX (virt at) ?j) = slot root at ?j" using Suc.prems(3) by (simp add: slot_def)
  have "slot_ok (page_tables at ! ?j) (pt_read (ptm s) (slot root at ?j))" using Suc.prems(1,2) by (simp add: slots_ok_def)
  then obtain e where e: "ac_pte at ?j (pt_read (ptm s) (slot root at ?j)) = Inr e" "upper_entry (flags at) ?j (page_tables at ! ?j) e"
    using ac_pte_upper[of ?j at] pt by auto
  then obtain s1 where step: "setup_ptes_loop ?j parent s at = setup_ptes_loop (Suc (Suc k)) e s1 at" and
      s1: "\<And>q. pt_read (ptm s1) q = (if q = slot root at ?j then e else pt_read (ptm s) q)" "\<exists>m. s1 = s\<lparr>ptm := m\<rparr>"
    using setup_step[of "Suc (Suc k)" at parent "slot root at ?j" s e] p by auto
  have other: "slot root at i \<noteq> slot root at ?j" if "1 \<le> i" "i < ?j" for i
    using slot_inj[OF g, of i ?j] that Suc.prems(1) by simp
  have "slot_ok (page_tables at ! i) (pt_read (ptm s1) (slot root at i))" if "2 \<le> i" "i \<le> pt_levels at" for i
  proof (cases "i = ?j")
    case True
    then show ?thesis using upper_next(1)[OF e(2) pt(1)] by (simp add: s1(1) slot_ok_def)
  next
    case False
    then show ?thesis using slot_inj[OF g, of i ?j] that Suc.prems(1,2) by (simp add: s1(1) slots_ok_def)
  qed
  then have "slots_ok root at (ptm s1)" by (simp add: slots_ok_def)
  moreover have "table_of e = tab root at (Suc (Suc k))" using upper_next(1)[OF e(2) pt(1)] Suc.prems(1) by (simp add: tab_def)
  ultimately obtain s' parent' where IH: "setup_ptes_loop (Suc (Suc k)) e s1 at = setup_ptes_loop 2 parent' s' at"
      "table_of parent' = tab root at 2" "\<exists>m. s' = s1\<lparr>ptm := m\<rparr>" "uppers (flags at) root at (Suc (Suc k)) (ptm s')"
      "\<And>q. (\<forall>i. 3 \<le> i \<and> i \<le> Suc (Suc k) \<longrightarrow> q \<noteq> slot root at i) \<Longrightarrow> pt_read (ptm s') q = pt_read (ptm s1) q"
    using Suc.IH[of s1 e] Suc.prems(1) by auto
  have "slot root at ?j \<noteq> slot root at i" if "3 \<le> i \<and> i \<le> Suc (Suc k)" for i using other[of i] that by simp
  then have "pt_read (ptm s') (slot root at ?j) = e" using IH(5)[of "slot root at ?j"] by (simp add: s1(1))
  then have "uppers (flags at) root at ?j (ptm s')" using IH(4) e(2) unfolding uppers_def by (metis le_SucE)
  moreover have "pt_read (ptm s') q = pt_read (ptm s) q" if "\<forall>i. 3 \<le> i \<and> i \<le> ?j \<longrightarrow> q \<noteq> slot root at i" for q
    using IH(5)[of q] that s1(1)[of q] by (auto simp: numeral_3_eq_3)
  moreover have "\<exists>m. s' = s\<lparr>ptm := m\<rparr>" using IH(3) s1(2) by force
  ultimately show ?case unfolding step IH(1) using IH(2) by blast
qed

lemma setup_lowers:
  assumes g: "geometry root at" and s: "slot_ok (page_tables at ! 2) (pt_read (ptm s) (slot root at 2))" "table_of parent = tab root at 2" "ptep at = None"
    and l: "\<not> has (flags at) AC_PDE_PSE \<longrightarrow> \<not> has (flags at) AC_PDE_BIT13"
  shows "\<exists>s' e. setup_ptes_loop 2 parent s at =
      Inr (s', at\<lparr>pdep := Some (slot root at 2), ptep := (if has (flags at) AC_PDE_PSE then None else Some (slot root at 1))\<rparr>) \<and>
    (\<exists>m. s' = s\<lparr>ptm := m\<rparr>) \<and> (\<forall>q. q \<noteq> slot root at 1 \<longrightarrow> pt_read (ptm s') q = (if q = slot root at 2 then e else pt_read (ptm s) q)) \<and>
    pde_entry (flags at) (page_tables at ! 2) e \<and> (has (flags at) AC_PDE_ACCESSED \<longrightarrow> bit e 5) \<and>
    (\<not> has (flags at) AC_PDE_PSE \<longrightarrow> pte_entry (flags at) (pt_read (ptm s') (slot root at 1)))"
proof -
  have n: "4 \<le> pt_levels at" "pt_levels at \<le> 5" "length (page_tables at) = 6" "page_ok (page_tables at ! 2)" using geometryD[OF g] by simp_all
  obtain e where e: "ac_pte at 2 (pt_read (ptm s) (slot root at 2)) = Inr e" "pde_entry (flags at) (page_tables at ! 2) e"
      "has (flags at) AC_PDE_ACCESSED \<longrightarrow> bit e 5"
    using ac_pte_2[OF geometryD(4)[OF g] _ n(4) s(1) l] n(3) by auto
  have p: "(table_of parent, PT_INDEX (virt at) (Suc 1)) = slot root at 2" using s(2) by (simp add: slot_def numeral_2_eq_2)
  let ?at = "at\<lparr>pdep := Some (slot root at 2)\<rparr>"
  obtain s1 where step: "setup_ptes_loop 2 parent s at = setup_ptes_loop 1 e s1 ?at" and
      s1: "\<And>q. pt_read (ptm s1) q = (if q = slot root at 2 then e else pt_read (ptm s) q)" "\<exists>m. s1 = s\<lparr>ptm := m\<rparr>"
    using setup_step[of 1 at parent "slot root at 2" s e] p e(1) by (auto simp: numeral_2_eq_2)
  show ?thesis
  proof (cases "has (flags at) AC_PDE_PSE")
    case True
    have "setup_ptes_loop 1 e s1 ?at = Inr (s1, ?at)" using True by (simp add: setup_ptes_loop.simps)
    moreover have "?at = at\<lparr>pdep := Some (slot root at 2), ptep := None\<rparr>" using s(3) by simp
    ultimately show ?thesis unfolding step using True s1 e by (intro exI[of _ s1] exI[of _ e]) auto
  next
    case False
    have p1: "(table_of e, PT_INDEX (virt ?at) (Suc 0)) = slot root at 1"
      using pde_table[OF e(2) n(4) False] n by (simp add: slot_def tab_def numeral_2_eq_2)
    obtain f where f: "ac_pte ?at 1 (pt_read (ptm s1) (slot root at 1)) = Inr f" "pte_entry (flags at) f"
      using ac_pte_1[of ?at] geometryD(4)[OF g] by auto
    obtain s2 where s2: "setup_ptes_loop 1 e s1 ?at = Inr (s2, ?at\<lparr>ptep := Some (slot root at 1)\<rparr>)" "\<exists>m. s2 = s1\<lparr>ptm := m\<rparr>"
        "\<And>q. pt_read (ptm s2) q = (if q = slot root at 1 then f else pt_read (ptm s1) q)"
      using setup_step[of 0 ?at e "slot root at 1" s1 f] p1 f(1) False by (auto simp: setup_ptes_loop.simps(1))
    have "\<exists>m. s2 = s\<lparr>ptm := m\<rparr>" using s1(2) s2(2) by force
    then show ?thesis unfolding step s2(1) using False e f(2) by (intro exI[of _ s2] exI[of _ e]) (simp add: s2(3) s1(1))
  qed
qed

lemma setup_ptes_loop_ready:
  assumes g: "geometry root at" and s: "slots_ok root at (ptm s)" "table_of parent = root" "ptep at = None"
    and l: "\<not> has (flags at) AC_PDE_PSE \<longrightarrow> \<not> has (flags at) AC_PDE_BIT13"
  shows "\<exists>s'. setup_ptes_loop (pt_levels at) parent s at =
      Inr (s', at\<lparr>pdep := Some (slot root at 2), ptep := (if has (flags at) AC_PDE_PSE then None else Some (slot root at 1))\<rparr>) \<and>
    (\<exists>m. s' = s\<lparr>ptm := m\<rparr>) \<and> ready (flags at) root at (ptm s') \<and>
    (has (flags at) AC_PDE_ACCESSED \<longrightarrow> bit (pt_read (ptm s') (slot root at 2)) 5)"
proof -
  obtain k where k: "pt_levels at = Suc (Suc k)" "2 \<le> k" using geometryD(1)[OF g] by (metis add_2_eq_Suc le_Suc_ex numeral_Bit0 add_le_cancel_left nat_le_iff_add add.assoc)
  have "table_of parent = tab root at (Suc (Suc k))" using s(2) k(1) by (simp add: tab_def)
  then obtain s1 p1 where s1: "setup_ptes_loop (pt_levels at) parent s at = setup_ptes_loop 2 p1 s1 at" "table_of p1 = tab root at 2"
      "\<exists>m. s1 = s\<lparr>ptm := m\<rparr>" "uppers (flags at) root at (pt_levels at) (ptm s1)"
      "\<And>q. (\<forall>i. 3 \<le> i \<and> i \<le> pt_levels at \<longrightarrow> q \<noteq> slot root at i) \<Longrightarrow> pt_read (ptm s1) q = pt_read (ptm s) q"
    using setup_uppers[OF g, of k s parent] s(1) k(1) by auto
  have "slot root at 2 \<noteq> slot root at i" if "3 \<le> i \<and> i \<le> pt_levels at" for i using slot_inj[OF g, of 2 i] that by simp
  then have "slot_ok (page_tables at ! 2) (pt_read (ptm s1) (slot root at 2))" using s1(5)[of "slot root at 2"] s(1) k by (simp add: slots_ok_def)
  then obtain s2 e where s2: "setup_ptes_loop 2 p1 s1 at =
      Inr (s2, at\<lparr>pdep := Some (slot root at 2), ptep := (if has (flags at) AC_PDE_PSE then None else Some (slot root at 1))\<rparr>)"
      "\<exists>m. s2 = s1\<lparr>ptm := m\<rparr>" "\<And>q. q \<noteq> slot root at 1 \<Longrightarrow> pt_read (ptm s2) q = (if q = slot root at 2 then e else pt_read (ptm s1) q)"
      "pde_entry (flags at) (page_tables at ! 2) e" "has (flags at) AC_PDE_ACCESSED \<longrightarrow> bit e 5"
      "\<not> has (flags at) AC_PDE_PSE \<longrightarrow> pte_entry (flags at) (pt_read (ptm s2) (slot root at 1))"
    using setup_lowers[OF g _ s1(2) s(3) l] by blast
  have "slot root at 2 \<noteq> slot root at 1" using slot_inj[OF g, of 2 1] k by simp
  then have r2: "pt_read (ptm s2) (slot root at 2) = e" using s2(3) by simp
  have "pt_read (ptm s2) (slot root at i) = pt_read (ptm s1) (slot root at i)" if "3 \<le> i" "i \<le> pt_levels at" for i
    using s2(3)[of "slot root at i"] slot_inj[OF g, of i 1] slot_inj[OF g, of i 2] that by auto
  then have "uppers (flags at) root at (pt_levels at) (ptm s2)" using s1(4) by (simp add: uppers_def)
  then have "ready (flags at) root at (ptm s2)" using s2(4,6) r2 by (simp add: ready_def)
  moreover have "\<exists>m. s2 = s\<lparr>ptm := m\<rparr>" using s1(3) s2(2) by force
  ultimately show ?thesis unfolding s1(1) s2(1) using s2(5) r2 by (intro exI[of _ s2]) simp
qed

end
