(* ===== verification/AccessCorrect.thy ===== *)
theory AccessCorrect
  imports AccessEntries
begin

text \<open>
  The prediction of \<open>x86/access.c\<close> agrees with the architecture: on a platform that follows it,
  the emulated and the real access end the same way, with the same error code and the same
  accessed and dirty bits, so that every legal test case succeeds.
\<close>

section \<open>The architecture's walk over the entries of a test\<close>

text \<open>The flags that ask for a reserved bit are used only where the bit is reserved.\<close>

definition reserved_ok :: "nat \<Rightarrow> u32 \<Rightarrow> bool" where
  "reserved_ok mpa fl \<longleftrightarrow>
     32 \<le> mpa \<and> (has fl AC_PDE_BIT51 \<or> has fl AC_PTE_BIT51 \<longrightarrow> mpa \<le> 51) \<and> (has fl AC_PDE_BIT36 \<or> has fl AC_PTE_BIT36 \<longrightarrow> mpa \<le> 36)"

definition pde_valid :: "u32 \<Rightarrow> bool" where
  "pde_valid fl \<longleftrightarrow> has fl AC_PDE_PRESENT \<and> \<not> has fl AC_PDE_BIT51 \<and> \<not> has fl AC_PDE_BIT36 \<and> \<not> has fl AC_PDE_BIT13 \<and>
     \<not> (has fl AC_PDE_NX \<and> \<not> has fl AC_CPU_EFER_NX)"

definition pte_valid :: "u32 \<Rightarrow> bool" where
  "pte_valid fl \<longleftrightarrow> has fl AC_PTE_PRESENT \<and> \<not> has fl AC_PTE_BIT51 \<and> \<not> has fl AC_PTE_BIT36 \<and>
     \<not> (has fl AC_PTE_NX \<and> \<not> has fl AC_CPU_EFER_NX)"

lemma reserved_upper:
  assumes "upper_entry fl i pt e" "page_ok pt" "32 \<le> mpa"
  shows "\<not> hw_reserved mpa nxe l e"
proof -
  have "\<not> bit e j" if "mpa \<le> j" "j \<le> 51" for j
  proof -
    have "bit e j = bit pt j" using assms(1,3) that by (simp add: upper_entry_def)
    then show ?thesis using assms(2,3) that by (auto simp: page_ok_def)
  qed
  then show ?thesis using assms(1) by (auto simp: hw_reserved_def upper_entry_def)
qed

lemma reserved_high:
  assumes "reserved_ok mpa fl" "\<And>j. 32 \<le> j \<Longrightarrow> j \<le> 51 \<Longrightarrow> bit e j \<longleftrightarrow> j = 51 \<and> b51 \<or> j = 36 \<and> b36" "b51 \<longrightarrow> mpa \<le> 51" "b36 \<longrightarrow> mpa \<le> 36"
  shows "(\<exists>j. mpa \<le> j \<and> j \<le> 51 \<and> bit e j) \<longleftrightarrow> b51 \<or> b36"
proof
  assume "\<exists>j. mpa \<le> j \<and> j \<le> 51 \<and> bit e j"
  then obtain j where "mpa \<le> j" "j \<le> 51" "bit e j" by blast
  then show "b51 \<or> b36" using assms(1) assms(2)[of j] by (auto simp: reserved_ok_def)
next
  assume "b51 \<or> b36"
  moreover have "bit e 51 = b51" "bit e 36 = b36" using assms(2)[of 51] assms(2)[of 36] by simp_all
  moreover have "36 \<le> (51 :: nat)" by simp
  ultimately show "\<exists>j. mpa \<le> j \<and> j \<le> 51 \<and> bit e j" using assms(3,4) by blast
qed

lemma reserved_pde:
  assumes "pde_entry fl pt e" "reserved_ok mpa fl" "\<not> has fl AC_PDE_PSE \<longrightarrow> \<not> has fl AC_PDE_BIT13"
  shows "hw_reserved mpa (has fl AC_CPU_EFER_NX) 2 e \<longleftrightarrow> has fl AC_PDE_BIT51 \<or> has fl AC_PDE_BIT36 \<or> has fl AC_PDE_BIT13 \<or>
    (has fl AC_PDE_NX \<and> \<not> has fl AC_CPU_EFER_NX)"
proof -
  have "(\<exists>j. mpa \<le> j \<and> j \<le> 51 \<and> bit e j) \<longleftrightarrow> has fl AC_PDE_BIT51 \<or> has fl AC_PDE_BIT36"
    using assms(1,2) by (intro reserved_high[OF assms(2)]) (auto simp: pde_entry_def reserved_ok_def)
  moreover have "has fl AC_PDE_PSE \<Longrightarrow> (\<exists>j. 13 \<le> j \<and> j \<le> 20 \<and> bit e j) \<longleftrightarrow> has fl AC_PDE_BIT13"
  proof -
    assume "has fl AC_PDE_PSE"
    then have *: "bit e j \<longleftrightarrow> j = 13 \<and> has fl AC_PDE_BIT13" if "13 \<le> j" "j \<le> 20" for j using assms(1) that by (simp add: pde_entry_def)
    show ?thesis using * *[of 13] by auto
  qed
  moreover have "bit e 7 = has fl AC_PDE_PSE" "bit e 63 = has fl AC_PDE_NX" using assms(1) by (simp_all add: pde_entry_def)
  ultimately show ?thesis using assms(3) unfolding hw_reserved_def by auto
qed

lemma reserved_pte:
  assumes "pte_entry fl e" "reserved_ok mpa fl"
  shows "hw_reserved mpa (has fl AC_CPU_EFER_NX) 1 e \<longleftrightarrow> has fl AC_PTE_BIT51 \<or> has fl AC_PTE_BIT36 \<or> (has fl AC_PTE_NX \<and> \<not> has fl AC_CPU_EFER_NX)"
proof -
  have "(\<exists>j. mpa \<le> j \<and> j \<le> 51 \<and> bit e j) \<longleftrightarrow> has fl AC_PTE_BIT51 \<or> has fl AC_PTE_BIT36"
    using assms by (intro reserved_high[OF assms(2)]) (auto simp: pte_entry_def reserved_ok_def)
  then show ?thesis using assms(1) by (auto simp: hw_reserved_def pte_entry_def)
qed

lemma pde_next:
  assumes "pde_entry fl pt e" "page_ok pt" "\<not> has fl AC_PDE_PSE" "\<not> has fl AC_PDE_BIT51" "\<not> has fl AC_PDE_BIT36"
  shows "pt_next e = pt"
proof (rule bit_eqI)
  fix j
  show "bit (pt_next e) j = bit pt j"
    using assms unfolding bit_pt_next pde_entry_def page_ok_def by (cases "j \<le> 31") auto
qed

declare hw_walk.simps [simp del]

lemma hw_walk_uppers:
  assumes g: "geometry root at" and "32 \<le> mpa" "uppers fl root at (pt_levels at) m" "Suc (Suc k) \<le> pt_levels at"
  shows "\<exists>path'. hw_walk mpa nxe m (Suc (Suc k)) (tab root at (Suc (Suc k))) (virt at) w u x path =
      hw_walk mpa nxe m 2 (tab root at 2) (virt at) (w \<and> \<not> (1 \<le> k \<and> has fl AC_PDPTE_NO_WRITABLE)) u x path' \<and>
    set path' \<subseteq> set path \<union> slot root at ` {3..pt_levels at}"
  using assms(4)
proof (induction k arbitrary: w u x path)
  case 0
  then show ?case by (intro exI[of _ path]) (simp add: numeral_2_eq_2)
next
  case (Suc k)
  let ?j = "Suc (Suc (Suc k))"
  let ?e = "pt_read m (slot root at ?j)"
  have e: "upper_entry fl ?j (page_tables at ! ?j) ?e" using assms(3) Suc.prems by (simp add: uppers_def)
  have pg: "page_ok (page_tables at ! ?j)" using geometryD(5)[OF g, of ?j] Suc.prems by simp
  have nx: "pt_next ?e = tab root at (Suc (Suc k))" using upper_next(2)[OF e pg] Suc.prems by (simp add: tab_def)
  have b: "bit ?e 0" "bit ?e 1 \<longleftrightarrow> \<not> (k = 0 \<and> has fl AC_PDPTE_NO_WRITABLE)" "bit ?e 2" "\<not> bit ?e 7" "\<not> bit ?e 63"
    using e by (simp_all add: upper_entry_def)
  have p: "(tab root at ?j, PT_INDEX (virt at) ?j) = slot root at ?j" by (simp add: slot_def)
  have "hw_walk mpa nxe m ?j (tab root at ?j) (virt at) w u x path =
      hw_walk mpa nxe m (Suc (Suc k)) (tab root at (Suc (Suc k))) (virt at) (w \<and> \<not> (k = 0 \<and> has fl AC_PDPTE_NO_WRITABLE)) u x (path @ [slot root at ?j])"
    unfolding hw_walk.simps(2)[of mpa nxe m "Suc (Suc k)"] Let_def p using b reserved_upper[OF e pg assms(2)] by (simp add: nx)
  moreover obtain path' where "hw_walk mpa nxe m (Suc (Suc k)) (tab root at (Suc (Suc k))) (virt at) (w \<and> \<not> (k = 0 \<and> has fl AC_PDPTE_NO_WRITABLE)) u x (path @ [slot root at ?j]) =
      hw_walk mpa nxe m 2 (tab root at 2) (virt at) ((w \<and> \<not> (k = 0 \<and> has fl AC_PDPTE_NO_WRITABLE)) \<and> \<not> (1 \<le> k \<and> has fl AC_PDPTE_NO_WRITABLE)) u x path'"
      "set path' \<subseteq> set (path @ [slot root at ?j]) \<union> slot root at ` {3..pt_levels at}"
    using Suc.IH[of "w \<and> \<not> (k = 0 \<and> has fl AC_PDPTE_NO_WRITABLE)" u x "path @ [slot root at ?j]"] Suc.prems by auto
  moreover have "((w \<and> \<not> (k = 0 \<and> has fl AC_PDPTE_NO_WRITABLE)) \<and> \<not> (1 \<le> k \<and> has fl AC_PDPTE_NO_WRITABLE)) \<longleftrightarrow>
      (w \<and> \<not> (1 \<le> Suc k \<and> has fl AC_PDPTE_NO_WRITABLE))" by auto
  moreover have "slot root at ?j \<in> slot root at ` {3..pt_levels at}" using Suc.prems by simp
  ultimately show ?case by (intro exI[of _ path']) auto
qed

text \<open>The whole walk, in the terms of the flags.\<close>

definition walk_result :: "u32 \<Rightarrow> u64 \<Rightarrow> ac_test_t \<Rightarrow> pteptr list \<Rightarrow> walk_end" where
  "walk_result fl root at path =
     (let w = (\<not> has fl AC_PDPTE_NO_WRITABLE \<and> has fl AC_PDE_WRITABLE); path2 = path @ [slot root at 2] in
      if \<not> has fl AC_PDE_PRESENT then Absent path
      else if \<not> pde_valid fl then Malformed path
      else if has fl AC_PDE_PSE then Mapped path (slot root at 2) w (has fl AC_PDE_USER) (\<not> has fl AC_PDE_NX)
      else if \<not> has fl AC_PTE_PRESENT then Absent path2
      else if \<not> pte_valid fl then Malformed path2
      else Mapped path2 (slot root at 1) (w \<and> has fl AC_PTE_WRITABLE) (has fl AC_PDE_USER \<and> has fl AC_PTE_USER) (\<not> has fl AC_PDE_NX \<and> \<not> has fl AC_PTE_NX))"

lemma hw_walk_ready:
  assumes g: "geometry root at" and r: "ready fl root at m" "reserved_ok mpa fl" and l: "\<not> has fl AC_PDE_PSE \<longrightarrow> \<not> has fl AC_PDE_BIT13"
  shows "\<exists>path. hw_walk mpa (has fl AC_CPU_EFER_NX) m (pt_levels at) root (virt at) True True True [] = walk_result fl root at path \<and>
    set path \<subseteq> slot root at ` {3..pt_levels at}"
proof -
  obtain k where k: "pt_levels at = Suc (Suc k)" "1 \<le> k" using geometryD(1)[OF g] by (cases "pt_levels at" rule: nat.exhaust; cases "pt_levels at - 1") auto
  let ?nx = "has fl AC_CPU_EFER_NX" and ?w = "\<not> has fl AC_PDPTE_NO_WRITABLE"
  have "tab root at (Suc (Suc k)) = root" using k(1) by (simp add: tab_def)
  then obtain path where path: "hw_walk mpa ?nx m (pt_levels at) root (virt at) True True True [] = hw_walk mpa ?nx m 2 (tab root at 2) (virt at) ?w True True path"
      "set path \<subseteq> slot root at ` {3..pt_levels at}"
    using hw_walk_uppers[OF g, of mpa fl m k ?nx True True True "[]"] r k by (auto simp: ready_def reserved_ok_def)
  let ?e = "pt_read m (slot root at 2)" and ?f = "pt_read m (slot root at 1)"
  have e: "pde_entry fl (page_tables at ! 2) ?e" using r(1) by (simp add: ready_def)
  have eb: "bit ?e 0 = has fl AC_PDE_PRESENT" "bit ?e 1 = has fl AC_PDE_WRITABLE" "bit ?e 2 = has fl AC_PDE_USER" "bit ?e 7 = has fl AC_PDE_PSE" "bit ?e 63 = has fl AC_PDE_NX"
    using e by (simp_all add: pde_entry_def)
  have p: "(tab root at 2, PT_INDEX (virt at) 2) = slot root at 2" "(tab root at 1, PT_INDEX (virt at) 1) = slot root at 1" by (simp_all add: slot_def)
  have w2: "hw_walk mpa ?nx m 2 (tab root at 2) (virt at) ?w True True path =
      (if \<not> has fl AC_PDE_PRESENT then Absent path else if \<not> pde_valid fl then Malformed path
       else if has fl AC_PDE_PSE then Mapped path (slot root at 2) (?w \<and> has fl AC_PDE_WRITABLE) (has fl AC_PDE_USER) (\<not> has fl AC_PDE_NX)
       else hw_walk mpa ?nx m 1 (pt_next ?e) (virt at) (?w \<and> has fl AC_PDE_WRITABLE) (has fl AC_PDE_USER) (\<not> has fl AC_PDE_NX) (path @ [slot root at 2]))"
    using hw_walk.simps(2)[of mpa ?nx m 1 "tab root at 2" "virt at" ?w True True path] reserved_pde[OF e r(2) l]
    by (simp add: Let_def p eb eb(2)[unfolded One_nat_def] pde_valid_def numeral_2_eq_2[symmetric])
  show ?thesis
  proof (cases "has fl AC_PDE_PRESENT \<and> pde_valid fl \<and> \<not> has fl AC_PDE_PSE")
    case False
    then show ?thesis using path w2 unfolding walk_result_def Let_def by (intro exI[of _ path]) auto
  next
    case True
    have "page_ok (page_tables at ! 2)" using geometryD(5)[OF g, of 2] k by simp
    then have "pt_next ?e = tab root at 1" using pde_next[OF e] True k by (simp add: pde_valid_def tab_def numeral_2_eq_2)
    moreover have f: "pte_entry fl ?f" using r(1) True by (simp add: ready_def)
    moreover have "bit ?f 0 = has fl AC_PTE_PRESENT" "bit ?f 1 = has fl AC_PTE_WRITABLE" "bit ?f 2 = has fl AC_PTE_USER" "bit ?f 63 = has fl AC_PTE_NX"
      using f by (simp_all add: pte_entry_def)
    ultimately have w1: "hw_walk mpa ?nx m 1 (pt_next ?e) (virt at) w u x path2 =
        (if \<not> has fl AC_PTE_PRESENT then Absent path2 else if \<not> pte_valid fl then Malformed path2
         else Mapped path2 (slot root at 1) (w \<and> has fl AC_PTE_WRITABLE) (u \<and> has fl AC_PTE_USER) (x \<and> \<not> has fl AC_PTE_NX))" for w u x path2
      using hw_walk.simps(2)[of mpa ?nx m 0 "tab root at 1" "virt at" w u x path2] reserved_pte[OF f r(2)]
      by (simp add: Let_def p(2)[simplified] pte_valid_def)
    show ?thesis using path(2) True unfolding path(1) w2 w1 walk_result_def Let_def by (intro exI[of _ path]) simp
  qed
qed

section \<open>The prediction\<close>

definition access_of :: "u32 \<Rightarrow> mem_access" where
  "access_of fl = \<lparr>a_user = has fl AC_ACCESS_USER, a_write = has fl AC_ACCESS_WRITE \<and> \<not> has fl AC_ACCESS_FETCH, a_fetch = has fl AC_ACCESS_FETCH\<rparr>"

definition pk_fails :: "u32 \<Rightarrow> bool \<Rightarrow> bool" where
  "pk_fails fl u \<longleftrightarrow> u \<and> \<not> has fl AC_ACCESS_FETCH \<and> has fl AC_PKU_PKEY \<and> has fl AC_CPU_CR4_PKE \<and>
     (has fl AC_PKU_AD \<or> has fl AC_ACCESS_WRITE \<and> has fl AC_PKU_WD \<and> (has fl AC_ACCESS_USER \<or> has fl AC_CPU_CR0_WP))"

definition perm_fails :: "u32 \<Rightarrow> bool \<Rightarrow> bool \<Rightarrow> bool \<Rightarrow> bool" where
  "perm_fails fl w u x \<longleftrightarrow> has fl AC_ACCESS_USER \<and> \<not> u \<or>
     has fl AC_ACCESS_WRITE \<and> \<not> w \<and> (has fl AC_ACCESS_USER \<or> has fl AC_CPU_CR0_WP) \<or> has fl AC_ACCESS_FETCH \<and> \<not> x \<or> pk_fails fl u"

definition touched :: "u32 \<Rightarrow> bool \<Rightarrow> u64" where
  "touched fl fails = (if fails then 0 else PT_ACCESSED_MASK OR (if has fl AC_ACCESS_WRITE then PT_DIRTY_MASK else 0))"

definition ignored :: "u32 \<Rightarrow> bool \<Rightarrow> u64" where
  "ignored fl fails = (if fails \<and> \<not> has fl AC_PDE_ACCESSED then PT_ACCESSED_MASK else 0)"

text \<open>The flags agree on the kind of access.\<close>

definition sane :: "u32 \<Rightarrow> bool" where
  "sane fl \<longleftrightarrow> \<not> has fl AC_CPU_CR4_SMEP \<and> \<not> (has fl AC_ACCESS_FETCH \<and> has fl AC_ACCESS_WRITE) \<and>
     (\<not> has fl AC_PDE_PSE \<longrightarrow> \<not> has fl AC_PDE_BIT13)"

lemma permissions_chain:
  assumes "\<not> expected_fault at"
  shows "(let at1 = (if c1 then at\<lparr>expected_fault := True\<rparr> else at);
          at2 = (if c2 then at1\<lparr>expected_fault := True\<rparr> else at1);
          at3 = (if c3 then at2\<lparr>expected_fault := True\<rparr> else at2);
          at4 = (if c4 then at3\<lparr>expected_fault := True\<rparr> else at3);
          at5 = (if p then
                   if q then at4\<lparr>expected_fault := True, expected_error := expected_error at4 OR k\<rparr>
                   else if r then at4\<lparr>expected_fault := True, expected_error := expected_error at4 OR k\<rparr>
                   else at4
                 else at4);
          expected = (if \<not> expected_fault at5 then e else 0)
      in (expected, at5)) =
    (if c1 \<or> c2 \<or> c3 \<or> c4 \<or> p \<and> (q \<or> r) then 0 else e,
     at\<lparr>expected_fault := c1 \<or> c2 \<or> c3 \<or> c4 \<or> p \<and> (q \<or> r), expected_error := expected_error at OR (if p \<and> (q \<or> r) then k else 0)\<rparr>)"
  using assms by (cases at; cases c1; cases c2; cases c3; cases c4; cases p; cases q; cases r; simp)

lemma permissions_eq:
  assumes "\<not> expected_fault at" "\<not> has fl AC_CPU_CR4_SMEP"
  shows "ac_test_permissions at fl w u x = (touched fl (perm_fails fl w u x),
    at\<lparr>expected_fault := perm_fails fl w u x, expected_error := expected_error at OR (if pk_fails fl u then PFERR_PK_MASK else 0)\<rparr>)"
proof -
  let ?kw = "\<not> has fl AC_CPU_CR0_WP \<and> \<not> has fl AC_ACCESS_USER"
  have pk: "pk_fails fl u \<longleftrightarrow> (u \<and> \<not> has fl AC_ACCESS_FETCH \<and> has fl AC_PKU_PKEY \<and> has fl AC_CPU_CR4_PKE) \<and>
      (has fl AC_PKU_AD \<or> has fl AC_ACCESS_WRITE \<and> has fl AC_PKU_WD \<and> \<not> ?kw)"
    unfolding pk_fails_def by blast
  have pf: "perm_fails fl w u x \<longleftrightarrow> has fl AC_ACCESS_USER \<and> \<not> u \<or> has fl AC_ACCESS_WRITE \<and> \<not> w \<and> \<not> ?kw \<or>
      has fl AC_ACCESS_FETCH \<and> \<not> x \<or> has fl AC_ACCESS_FETCH \<and> u \<and> has fl AC_CPU_CR4_SMEP \<or>
      (u \<and> \<not> has fl AC_ACCESS_FETCH \<and> has fl AC_PKU_PKEY \<and> has fl AC_CPU_CR4_PKE) \<and>
      (has fl AC_PKU_AD \<or> has fl AC_ACCESS_WRITE \<and> has fl AC_PKU_WD \<and> \<not> ?kw)"
    using assms(2) unfolding perm_fails_def pk by blast
  show ?thesis
    unfolding ac_test_permissions_def pk pf touched_def Let_def[of ?kw] by (rule permissions_chain[OF assms(1)])
qed

lemma error_eq:
  assumes "in_mode s fl" "sane fl"
  shows "(let err = PFERR_PRESENT_MASK OR (if has fl AC_ACCESS_USER then PFERR_USER_MASK else 0)
                OR (if has fl AC_ACCESS_WRITE then PFERR_WRITE_MASK else 0) OR (if has fl AC_ACCESS_FETCH then PFERR_FETCH_MASK else 0);
              err' = (if rsvd then err OR PFERR_RESERVED_MASK else if \<not> present then err AND NOT PFERR_PRESENT_MASK else err OR (if pk then PFERR_PK_MASK else 0))
          in if \<not> has fl AC_CPU_EFER_NX then err' AND NOT PFERR_FETCH_MASK else err') =
    hw_error s (access_of fl) (present \<or> rsvd) rsvd (pk \<and> present \<and> \<not> rsvd)"
proof -
  have "bit (reg_efer s) 11 = has fl AC_CPU_EFER_NX" "\<not> bit (reg_cr4 s) 20" using assms(1) by (simp_all add: in_mode_def)
  moreover have "\<not> (has fl AC_ACCESS_FETCH \<and> has fl AC_ACCESS_WRITE)" using assms(2) by (simp add: sane_def)
  ultimately show ?thesis
    unfolding hw_error_def access_of_def Let_def PFERR_PRESENT_MASK_def PFERR_USER_MASK_def PFERR_WRITE_MASK_def PFERR_FETCH_MASK_def
      PFERR_RESERVED_MASK_def PFERR_PK_MASK_def
    by (cases "has fl AC_ACCESS_USER"; cases "has fl AC_ACCESS_WRITE"; cases "has fl AC_ACCESS_FETCH"; cases "has fl AC_CPU_EFER_NX";
        cases rsvd; cases present; cases pk; simp)
qed

text \<open>The expectations before an access is emulated.\<close>

definition fresh :: "ac_test_t \<Rightarrow> bool" where
  "fresh at \<longleftrightarrow> \<not> expected_fault at \<and> expected_error at = PFERR_PRESENT_MASK \<and> ignore_pde at = 0"

definition base_error :: "u32 \<Rightarrow> u32" where
  "base_error fl = PFERR_PRESENT_MASK OR (if has fl AC_ACCESS_USER then PFERR_USER_MASK else 0)
     OR (if has fl AC_ACCESS_WRITE then PFERR_WRITE_MASK else 0) OR (if has fl AC_ACCESS_FETCH then PFERR_FETCH_MASK else 0)"

text \<open>What the emulation does before it looks at the page directory entry, and at its end.\<close>

lemma emulate_start:
  assumes "fresh at"
  shows "ac_emulate_access at fl =
    (let at2 = at\<lparr>expected_error := base_error fl, ignore_pde := ignored fl True\<rparr>;
         w = (\<not> has fl AC_PDPTE_NO_WRITABLE \<and> has fl AC_PDE_WRITABLE)
     in if \<not> pde_valid fl then emulate_end (emulate_invalid at2 (has fl AC_PDE_PRESENT)) fl
        else if has fl AC_PDE_PSE then
          let (e, at3) = ac_test_permissions at2 fl w (has fl AC_PDE_USER) (\<not> has fl AC_PDE_NX)
          in emulate_end (at3\<lparr>expected_pde := expected_pde at3 OR e\<rparr>) fl
        else
          let at3 = at2\<lparr>expected_pde := expected_pde at2 OR PT_ACCESSED_MASK\<rparr>
          in if \<not> pte_valid fl then emulate_end (emulate_invalid at3 (has fl AC_PTE_PRESENT)) fl
             else
               let (e, at4) = ac_test_permissions at3 fl (w \<and> has fl AC_PTE_WRITABLE) (has fl AC_PDE_USER \<and> has fl AC_PTE_USER)
                                (\<not> has fl AC_PDE_NX \<and> \<not> has fl AC_PTE_NX)
               in emulate_end (at4\<lparr>expected_pte := expected_pte at4 OR e\<rparr>) fl)"
proof -
  have e: "expected_error at = PFERR_PRESENT_MASK" using assms by (simp add: fresh_def)
  have ig: "(if \<not> has fl AC_PDE_ACCESSED then at\<lparr>expected_error := base_error fl, ignore_pde := PT_ACCESSED_MASK\<rparr> else at\<lparr>expected_error := base_error fl\<rparr>) =
      at\<lparr>expected_error := base_error fl, ignore_pde := ignored fl True\<rparr>"
    using assms by (cases at) (simp add: ignored_def fresh_def)
  show ?thesis
    unfolding ac_emulate_access_def Let_def e base_error_def[symmetric] ig pde_valid_def[symmetric] pte_valid_def[symmetric] by simp
qed

definition final_error :: "u32 \<Rightarrow> u32 \<Rightarrow> u32" where
  "final_error fl err = (if \<not> has fl AC_CPU_EFER_NX \<and> \<not> has fl AC_CPU_CR4_SMEP then err AND NOT PFERR_FETCH_MASK else err)"

lemma emulate_end_eq:
  assumes "ignore_pde at = ignored fl True"
  shows "emulate_end at fl = at\<lparr>expected_error := final_error fl (expected_error at), ignore_pde := ignored fl (expected_fault at)\<rparr>"
  using assms by (cases at) (simp add: emulate_end_def Let_def ignored_def final_error_def)

lemma final_errors:
  assumes "in_mode s fl" "sane fl"
  shows "final_error fl (base_error fl OR PFERR_RESERVED_MASK) = hw_error s (access_of fl) True True False"
    "final_error fl (base_error fl AND NOT PFERR_PRESENT_MASK) = hw_error s (access_of fl) False False False"
    "final_error fl (base_error fl OR (if pk then PFERR_PK_MASK else 0)) = hw_error s (access_of fl) True False pk"
proof -
  have sm: "\<not> has fl AC_CPU_CR4_SMEP" using assms(2) by (simp add: sane_def)
  note err = error_eq[OF assms, unfolded base_error_def[symmetric] Let_def]
  show "final_error fl (base_error fl OR PFERR_RESERVED_MASK) = hw_error s (access_of fl) True True False"
    using err[of True True False] sm by (cases "has fl AC_CPU_EFER_NX") (simp_all add: final_error_def)
  show "final_error fl (base_error fl AND NOT PFERR_PRESENT_MASK) = hw_error s (access_of fl) False False False"
    using err[of False False False] sm by (cases "has fl AC_CPU_EFER_NX") (simp_all add: final_error_def)
  show "final_error fl (base_error fl OR (if pk then PFERR_PK_MASK else 0)) = hw_error s (access_of fl) True False pk"
    using err[of False True pk] sm by (cases "has fl AC_CPU_EFER_NX") (simp_all add: final_error_def)
qed

text \<open>The prediction in the four cases of a walk.\<close>

lemma emulate_pde_invalid:
  assumes "fresh at" "in_mode s fl" "sane fl" "\<not> pde_valid fl"
  shows "ac_emulate_access at fl = at\<lparr>expected_fault := True,
    expected_error := hw_error s (access_of fl) (has fl AC_PDE_PRESENT) (has fl AC_PDE_PRESENT) False, ignore_pde := ignored fl True\<rparr>"
  using assms(4) unfolding emulate_start[OF assms(1)]
  by (cases "has fl AC_PDE_PRESENT") (simp_all add: emulate_invalid_def emulate_end_eq Let_def final_errors[OF assms(2,3)])

lemma emulate_pse:
  assumes "fresh at" "in_mode s fl" "sane fl" "pde_valid fl" "has fl AC_PDE_PSE"
    and f: "f = perm_fails fl (\<not> has fl AC_PDPTE_NO_WRITABLE \<and> has fl AC_PDE_WRITABLE) (has fl AC_PDE_USER) (\<not> has fl AC_PDE_NX)"
  shows "ac_emulate_access at fl = at\<lparr>expected_fault := f, expected_error := hw_error s (access_of fl) True False (pk_fails fl (has fl AC_PDE_USER)),
    ignore_pde := ignored fl f, expected_pde := expected_pde at OR touched fl f\<rparr>"
proof -
  have "\<not> has fl AC_CPU_CR4_SMEP" "\<not> expected_fault at" using assms(1,3) by (simp_all add: sane_def fresh_def)
  then show ?thesis using assms(4,5) unfolding emulate_start[OF assms(1)] f
    by (simp add: permissions_eq emulate_end_eq Let_def final_errors[OF assms(2,3)] del: if_split)
qed

lemma emulate_pte_invalid:
  assumes "fresh at" "in_mode s fl" "sane fl" "pde_valid fl" "\<not> has fl AC_PDE_PSE" "\<not> pte_valid fl"
  shows "ac_emulate_access at fl = at\<lparr>expected_fault := True,
    expected_error := hw_error s (access_of fl) (has fl AC_PTE_PRESENT) (has fl AC_PTE_PRESENT) False, ignore_pde := ignored fl True,
    expected_pde := expected_pde at OR PT_ACCESSED_MASK\<rparr>"
  using assms(4-) unfolding emulate_start[OF assms(1)]
  by (cases "has fl AC_PTE_PRESENT") (simp_all add: emulate_invalid_def emulate_end_eq Let_def final_errors[OF assms(2,3)])

lemma emulate_pte:
  assumes "fresh at" "in_mode s fl" "sane fl" "pde_valid fl" "\<not> has fl AC_PDE_PSE" "pte_valid fl"
    and f: "f = perm_fails fl ((\<not> has fl AC_PDPTE_NO_WRITABLE \<and> has fl AC_PDE_WRITABLE) \<and> has fl AC_PTE_WRITABLE)
      (has fl AC_PDE_USER \<and> has fl AC_PTE_USER) (\<not> has fl AC_PDE_NX \<and> \<not> has fl AC_PTE_NX)"
  shows "ac_emulate_access at fl = at\<lparr>expected_fault := f,
    expected_error := hw_error s (access_of fl) True False (pk_fails fl (has fl AC_PDE_USER \<and> has fl AC_PTE_USER)),
    ignore_pde := ignored fl f, expected_pde := expected_pde at OR PT_ACCESSED_MASK, expected_pte := expected_pte at OR touched fl f\<rparr>"
proof -
  have "\<not> has fl AC_CPU_CR4_SMEP" "\<not> expected_fault at" using assms(1,3) by (simp_all add: sane_def fresh_def)
  then show ?thesis using assms(4-6) unfolding emulate_start[OF assms(1)] f
    by (simp add: permissions_eq emulate_end_eq Let_def final_errors[OF assms(2,3)] del: if_split)
qed

section \<open>One access\<close>

lemma key_of:
  assumes "\<And>j. 59 \<le> j \<Longrightarrow> j \<le> 62 \<Longrightarrow> bit e j \<longleftrightarrow> j = 59 \<and> key"
  shows "unat (take_bit 4 (drop_bit 59 (e :: u64))) = (if key then 1 else 0)"
proof -
  have "take_bit 4 (drop_bit 59 e) = (if key then 1 else 0)"
  proof (rule bit_eqI)
    fix j
    have "j < 4 \<Longrightarrow> bit e (59 + j) \<longleftrightarrow> j = 0 \<and> key" using assms[of "59 + j"] by simp
    then show "bit (take_bit 4 (drop_bit 59 e)) j = bit (if key then 1 else 0 :: u64) j"
      by (cases "j < 4") (auto simp: bit_take_bit_iff bit_drop_bit_eq bit_1_iff)
  qed
  then show ?thesis by simp
qed

lemma denied_eq:
  assumes m: "in_mode s fl" "sane fl" and key: "\<And>j. 59 \<le> j \<Longrightarrow> j \<le> 62 \<Longrightarrow> bit e j \<longleftrightarrow> j = 59 \<and> has fl AC_PKU_PKEY"
  shows "pk_denied s (access_of fl) e u = pk_fails fl u" "denied s (access_of fl) e w u x = perm_fails fl w u x"
proof -
  have cr: "bit (reg_cr0 s) 16 = has fl AC_CPU_CR0_WP" "bit (reg_cr4 s) 22 = has fl AC_CPU_CR4_PKE" "\<not> bit (reg_cr4 s) 20"
    using m(1) by (simp_all add: in_mode_def)
  have pkru: "has fl AC_CPU_CR4_PKE \<Longrightarrow> bit (reg_pkru s) 2 = has fl AC_PKU_AD \<and> bit (reg_pkru s) 3 = has fl AC_PKU_WD \<and> \<not> bit (reg_pkru s) 0 \<and> \<not> bit (reg_pkru s) (Suc 0)"
    using m(1) by (simp add: in_mode_def)
  have "\<not> (has fl AC_ACCESS_FETCH \<and> has fl AC_ACCESS_WRITE)" using m(2) by (simp add: sane_def)
  then show pk: "pk_denied s (access_of fl) e u = pk_fails fl u"
    using pkru key_of[of e, OF key] unfolding pk_denied_def pk_fails_def cr access_of_def Let_def
    by (cases "has fl AC_PKU_PKEY"; cases "has fl AC_CPU_CR4_PKE") auto
  show "denied s (access_of fl) e w u x = perm_fails fl w u x"
    using \<open>\<not> (has fl AC_ACCESS_FETCH \<and> has fl AC_ACCESS_WRITE)\<close> cr(3) unfolding denied_def perm_fails_def pk cr(1) by (auto simp: access_of_def)
qed

text \<open>The expected entries are those in memory, but for the accessed bit of the page directory entry.\<close>

definition agrees :: "u32 \<Rightarrow> u64 \<Rightarrow> ac_test_t \<Rightarrow> ptmem \<Rightarrow> bool" where
  "agrees fl root at m \<longleftrightarrow>
     pdep at = Some (slot root at 2) \<and> ptep at = (if has fl AC_PDE_PSE then None else Some (slot root at 1)) \<and>
     (\<not> has fl AC_PDE_PSE \<longrightarrow> expected_pte at = pt_read m (slot root at 1)) \<and>
     expected_pde at OR PT_ACCESSED_MASK = pt_read m (slot root at 2) OR PT_ACCESSED_MASK \<and>
     (has fl AC_PDE_ACCESSED \<longrightarrow> bit (expected_pde at) 5 \<and> bit (pt_read m (slot root at 2)) 5)"

definition outcome :: "u32 \<Rightarrow> u64 \<Rightarrow> ac_test_t \<Rightarrow> u32 option \<times> ptmem \<Rightarrow> bool" where
  "outcome fl root at res \<longleftrightarrow>
     agrees fl root at (snd res) \<and> (expected_fault at \<longleftrightarrow> fst res \<noteq> None) \<and> (\<forall>e. fst res = Some e \<longrightarrow> expected_error at = e) \<and>
     ignore_pde at = ignored fl (fst res \<noteq> None) \<and> (fst res = None \<longrightarrow> expected_pde at = pt_read (snd res) (slot root at 2))"

lemma access_write: "sane fl \<Longrightarrow> a_write (access_of fl) = has fl AC_ACCESS_WRITE"
  by (auto simp: access_of_def sane_def)

lemma slot_upd [simp]:
  "slot root (at\<lparr>expected_fault := f\<rparr>) i = slot root at i" "slot root (at\<lparr>expected_error := e\<rparr>) i = slot root at i"
  "slot root (at\<lparr>ignore_pde := g\<rparr>) i = slot root at i" "slot root (at\<lparr>expected_pde := d\<rparr>) i = slot root at i"
  "slot root (at\<lparr>expected_pte := t\<rparr>) i = slot root at i" "slot root (at\<lparr>pdep := p\<rparr>) i = slot root at i"
  "slot root (at\<lparr>ptep := q\<rparr>) i = slot root at i" "slot root (at\<lparr>flags := h\<rparr>) i = slot root at i"
  by (simp_all add: slot_def tab_def)

lemma slot_notin:
  assumes g: "geometry root at" and p: "set path \<subseteq> slot root at ` {3..pt_levels at}" and i: "1 \<le> i" "i < 3"
  shows "slot root at i \<notin> set path"
proof
  assume "slot root at i \<in> set path"
  then obtain j where "slot root at i = slot root at j" "3 \<le> j" "j \<le> pt_levels at" using p by auto
  then show False using slot_inj[OF g, of i j] i by simp
qed

lemma or_absorb:
  assumes "a OR c = b OR (c :: u64)"
  shows "a OR (c OR d) = b OR (c OR d)"
  using assms by (metis or.assoc)

lemma hw_access_ready:
  assumes g: "geometry root at" and r: "ready fl root at (ptm s)" "reserved_ok mpa fl" "sane fl" "in_mode s fl"
    and hw: "hw_levels s = pt_levels at" "pt_next (reg_cr3 s) = root"
  shows "\<exists>path. hw_access mpa choice s (virt at) (access_of fl) = hw_finish choice s (access_of fl) (walk_result fl root at path) \<and>
    slot root at 1 \<notin> set path \<and> slot root at 2 \<notin> set path"
proof -
  have nx: "bit (reg_efer s) 11 = has fl AC_CPU_EFER_NX" using r(4) by (simp add: in_mode_def)
  have "\<not> has fl AC_PDE_PSE \<longrightarrow> \<not> has fl AC_PDE_BIT13" using r(3) by (simp add: sane_def)
  from hw_walk_ready[OF g r(1,2) this] obtain path where
    "hw_walk mpa (has fl AC_CPU_EFER_NX) (ptm s) (pt_levels at) root (virt at) True True True [] = walk_result fl root at path"
    "set path \<subseteq> slot root at ` {3..pt_levels at}" by blast
  then show ?thesis using slot_notin[OF g, of path] by (intro exI[of _ path]) (simp add: hw_access_def nx hw)
qed

lemma one_access_pde:
  assumes r: "ready fl root at (ptm s)" "sane fl" "in_mode s fl" "fresh at" "agrees fl root at (ptm s)"
    and path: "slot root at 1 \<notin> set path" "slot root at 2 \<notin> set path" and c: "\<not> pde_valid fl \<or> has fl AC_PDE_PSE"
  shows "outcome fl root (ac_emulate_access at fl) (hw_finish choice s (access_of fl) (walk_result fl root at path))"
proof (cases "pde_valid fl")
  case False
  have "hw_finish choice s (access_of fl) (walk_result fl root at path) =
      (Some (hw_error s (access_of fl) (has fl AC_PDE_PRESENT) (has fl AC_PDE_PRESENT) False), mark (filter choice path) (ptm s))"
    using False by (cases "has fl AC_PDE_PRESENT") (simp_all add: walk_result_def)
  then show ?thesis using path r(5) unfolding outcome_def agrees_def emulate_pde_invalid[OF r(4,3,2) False] by (simp add: pt_read_mark)
next
  case valid: True
  then have pse: "has fl AC_PDE_PSE" and P: "has fl AC_PDE_PRESENT" using c by (auto simp: pde_valid_def)
  define f where "f = perm_fails fl (\<not> has fl AC_PDPTE_NO_WRITABLE \<and> has fl AC_PDE_WRITABLE) (has fl AC_PDE_USER) (\<not> has fl AC_PDE_NX)"
  let ?e = "pt_read (ptm s) (slot root at 2)"
  have key: "bit ?e j \<longleftrightarrow> j = 59 \<and> has fl AC_PKU_PKEY" if "59 \<le> j" "j \<le> 62" for j
    using r(1) pse that by (simp add: ready_def pde_entry_def)
  have "walk_result fl root at path = Mapped path (slot root at 2) (\<not> has fl AC_PDPTE_NO_WRITABLE \<and> has fl AC_PDE_WRITABLE) (has fl AC_PDE_USER) (\<not> has fl AC_PDE_NX)"
    using valid P pse by (simp add: walk_result_def)
  then have "hw_finish choice s (access_of fl) (walk_result fl root at path) =
      (if f then (Some (hw_error s (access_of fl) True False (pk_fails fl (has fl AC_PDE_USER))), mark (filter choice path) (ptm s))
       else (None, pt_write (mark path (ptm s)) (slot root at 2) (?e OR touched fl False)))"
    by (simp only: hw_finish.simps Let_def denied_eq[OF r(3,2) key] f_def access_write[OF r(2)] touched_def if_False)
  moreover have "expected_pde at OR (PT_ACCESSED_MASK OR d) = ?e OR (PT_ACCESSED_MASK OR d)" for d using r(5) by (intro or_absorb) (simp add: agrees_def)
  ultimately show ?thesis
    using path r(5) pse unfolding outcome_def agrees_def emulate_pse[OF r(4,3,2) valid pse f_def]
    by (cases f) (simp_all add: pt_read_mark touched_def or.assoc bit_or_iff bit_AD)
qed

lemma one_access_pte:
  assumes r: "ready fl root at (ptm s)" "sane fl" "in_mode s fl" "fresh at" "agrees fl root at (ptm s)" "slot root at 1 \<noteq> slot root at 2"
    and path: "slot root at 1 \<notin> set path" "slot root at 2 \<notin> set path" and valid: "pde_valid fl" and npse: "\<not> has fl AC_PDE_PSE"
  shows "outcome fl root (ac_emulate_access at fl) (hw_finish choice s (access_of fl) (walk_result fl root at path))"
proof (cases "pte_valid fl")
  case False
  have P: "has fl AC_PDE_PRESENT" using valid by (simp add: pde_valid_def)
  have "hw_finish choice s (access_of fl) (walk_result fl root at path) =
      (Some (hw_error s (access_of fl) (has fl AC_PTE_PRESENT) (has fl AC_PTE_PRESENT) False), mark (filter choice (path @ [slot root at 2])) (ptm s))"
    using False valid npse P by (cases "has fl AC_PTE_PRESENT") (simp_all add: walk_result_def Let_def)
  then show ?thesis using path r(5,6) npse unfolding outcome_def agrees_def emulate_pte_invalid[OF r(4,3,2) valid npse False]
    by (simp add: pt_read_mark or.assoc bit_or_iff bit_AD)
next
  case True
  then have P: "has fl AC_PDE_PRESENT" "has fl AC_PTE_PRESENT" using valid by (auto simp: pde_valid_def pte_valid_def)
  define f where "f = perm_fails fl ((\<not> has fl AC_PDPTE_NO_WRITABLE \<and> has fl AC_PDE_WRITABLE) \<and> has fl AC_PTE_WRITABLE)
      (has fl AC_PDE_USER \<and> has fl AC_PTE_USER) (\<not> has fl AC_PDE_NX \<and> \<not> has fl AC_PTE_NX)"
  let ?e = "pt_read (ptm s) (slot root at 1)" and ?path = "path @ [slot root at 2]"
  have key: "bit ?e j \<longleftrightarrow> j = 59 \<and> has fl AC_PKU_PKEY" if "59 \<le> j" "j \<le> 62" for j
    using r(1) npse that by (simp add: ready_def pte_entry_def)
  have "walk_result fl root at path = Mapped ?path (slot root at 1) ((\<not> has fl AC_PDPTE_NO_WRITABLE \<and> has fl AC_PDE_WRITABLE) \<and> has fl AC_PTE_WRITABLE)
      (has fl AC_PDE_USER \<and> has fl AC_PTE_USER) (\<not> has fl AC_PDE_NX \<and> \<not> has fl AC_PTE_NX)"
    using valid P npse True by (simp add: walk_result_def)
  then have "hw_finish choice s (access_of fl) (walk_result fl root at path) =
      (if f then (Some (hw_error s (access_of fl) True False (pk_fails fl (has fl AC_PDE_USER \<and> has fl AC_PTE_USER))), mark (filter choice ?path) (ptm s))
       else (None, pt_write (mark ?path (ptm s)) (slot root at 1) (?e OR touched fl False)))"
    by (simp only: hw_finish.simps Let_def denied_eq[OF r(3,2) key] f_def access_write[OF r(2)] touched_def if_False)
  then show ?thesis
    using path r(5,6) npse unfolding outcome_def agrees_def emulate_pte[OF r(4,3,2) valid npse True f_def]
    by (cases f) (simp_all add: pt_read_mark touched_def or.assoc bit_or_iff bit_AD)
qed

lemma one_access:
  assumes g: "geometry root at" and r: "ready fl root at (ptm s)" "reserved_ok mpa fl" "sane fl" "in_mode s fl" "fresh at" "agrees fl root at (ptm s)"
    and hw: "hw_levels s = pt_levels at" "pt_next (reg_cr3 s) = root"
  shows "outcome fl root (ac_emulate_access at fl) (hw_access mpa choice s (virt at) (access_of fl))"
proof -
  obtain path where path: "hw_access mpa choice s (virt at) (access_of fl) = hw_finish choice s (access_of fl) (walk_result fl root at path)"
      "slot root at 1 \<notin> set path" "slot root at 2 \<notin> set path"
    using hw_access_ready[OF g r(1-4) hw] by blast
  have "slot root at 1 \<noteq> slot root at 2" using slot_inj[OF g, of 1 2] geometryD(1)[OF g] by simp
  then show ?thesis unfolding path(1) using one_access_pde[OF r(1,3-6) path(2,3)] one_access_pte[OF r(1,3-6) _ path(2,3)] by blast
qed

end
