(* ===== verification/AccessExec.thy ===== *)
theory AccessExec
  imports AccessCorrect
begin

text \<open>
  A whole test case, and the run over all of them: \<open>ac_test_exec\<close> succeeds for legal flags on a
  platform that follows the architecture, \<open>ac_test_bump\<close> enumerates the legal flags in order,
  and the loop of \<open>ac_test_run\<close> ends with as many successes as tests.
\<close>

section \<open>Entries up to accessed and dirty bits\<close>

lemma entries_ad:
  assumes "\<And>i. i \<noteq> 5 \<Longrightarrow> i \<noteq> 6 \<Longrightarrow> bit e' i = bit (e :: u64) i"
  shows "upper_entry fl l pt e \<Longrightarrow> upper_entry fl l pt e'" "pde_entry fl pt e \<Longrightarrow> pde_entry fl pt e'" "pte_entry fl e \<Longrightarrow> pte_entry fl e'"
  using assms by (simp_all add: upper_entry_def pde_entry_def pte_entry_def)

lemma ready_ad:
  assumes "ready fl root at m" "ad_eq m m'"
  shows "ready fl root at m'"
proof -
  have b: "bit (pt_read m' p) i = bit (pt_read m p) i" if "i \<noteq> 5" "i \<noteq> 6" for p i using assms(2) that unfolding ad_eq_def by blast
  show ?thesis using assms(1) entries_ad[OF b] unfolding ready_def uppers_def by blast
qed

lemma ready_slots:
  assumes "ready fl root at m" "geometry root at"
  shows "slots_ok root at m"
  unfolding slots_ok_def
proof (intro allI impI)
  fix i assume i: "2 \<le> i \<and> i \<le> pt_levels at"
  have pg: "page_ok (page_tables at ! i)" using geometryD(5)[OF assms(2)] i by simp
  show "slot_ok (page_tables at ! i) (pt_read m (slot root at i))"
  proof (cases "i = 2")
    case True
    have e: "pde_entry fl (page_tables at ! 2) (pt_read m (slot root at 2))" using assms(1) by (simp add: ready_def)
    then show ?thesis using pde_table[OF e] pg True by (cases "has fl AC_PDE_PSE") (auto simp: slot_ok_def pde_entry_def)
  next
    case False
    then have "upper_entry fl i (page_tables at ! i) (pt_read m (slot root at i))" using assms(1) i by (simp add: ready_def uppers_def)
    then show ?thesis using upper_next(1) pg by (simp add: slot_ok_def)
  qed
qed

section \<open>Accessing twice\<close>

text \<open>The flags of the first of two accesses.\<close>

definition first_flags :: "u32 \<Rightarrow> u32" where
  "first_flags fl = fl AND NOT (ac_mask AC_ACCESS_WRITE) AND NOT (ac_mask AC_ACCESS_FETCH) AND NOT (ac_mask AC_ACCESS_USER)"

lemma ac_bit_inj: "ac_bit f = ac_bit g \<longleftrightarrow> f = g"
  by (cases f; cases g; simp)

lemma bit_ac_mask: "bit (ac_mask f) i \<longleftrightarrow> i = ac_bit f"
proof -
  have "ac_bit f < 32" by (cases f) simp_all
  then show ?thesis unfolding ac_mask_def bit_push_bit_iff bit_1_iff by auto
qed

lemma has_first: "has (first_flags fl) f \<longleftrightarrow> has fl f \<and> f \<noteq> AC_ACCESS_WRITE \<and> f \<noteq> AC_ACCESS_FETCH \<and> f \<noteq> AC_ACCESS_USER"
proof -
  have "ac_bit f < 32" by (cases f) simp_all
  then show ?thesis unfolding has_bit first_flags_def bit_and_iff bit_not_iff bit_ac_mask ac_bit_inj by auto
qed

lemma first_same:
  "ready (first_flags fl) root at m = ready fl root at m" "reserved_ok mpa (first_flags fl) = reserved_ok mpa fl"
  "in_mode s (first_flags fl) = in_mode s fl" "agrees (first_flags fl) root at m = agrees fl root at m" "sane fl \<Longrightarrow> sane (first_flags fl)"
  "access_of (first_flags fl) = \<lparr>a_user = False, a_write = False, a_fetch = False\<rparr>"
  by (simp_all add: ready_def uppers_def upper_entry_def pde_entry_def pte_entry_def reserved_ok_def in_mode_def agrees_def sane_def access_of_def has_first)

section \<open>A test case\<close>

lemma or_A_cancel:
  assumes "a OR PT_ACCESSED_MASK = b OR PT_ACCESSED_MASK"
  shows "a AND NOT PT_ACCESSED_MASK = b AND NOT PT_ACCESSED_MASK" "bit a 5 \<Longrightarrow> bit b 5 \<Longrightarrow> a = b"
proof -
  have b: "bit a i = bit b i" if "i \<noteq> 5" for i
    using arg_cong[OF assms, of "\<lambda>x. bit x i"] that by (simp add: bit_or_iff bit_AD)
  show "a AND NOT PT_ACCESSED_MASK = b AND NOT PT_ACCESSED_MASK"
    using b by (intro bit_eqI) (auto simp: bit_and_iff bit_not_iff bit_AD)
  show "a = b" if "bit a 5" "bit b 5"
  proof (rule bit_eqI)
    fix i show "bit a i = bit b i" using b[of i] that by (cases "i = 5") auto
  qed
qed

lemma access_checks_ok:
  assumes "outcome fl root at (r, m)"
  shows "access_checks (s\<lparr>ptm := m\<rparr>) at r = Inr True"
proof -
  let ?e = "pt_read m (slot root at 2)"
  have o: "pdep at = Some (slot root at 2)" "ptep at = (if has fl AC_PDE_PSE then None else Some (slot root at 1))"
      "\<not> has fl AC_PDE_PSE \<Longrightarrow> expected_pte at = pt_read m (slot root at 1)"
      "expected_pde at OR PT_ACCESSED_MASK = ?e OR PT_ACCESSED_MASK" "has fl AC_PDE_ACCESSED \<Longrightarrow> bit (expected_pde at) 5 \<and> bit ?e 5"
      "expected_fault at \<longleftrightarrow> r \<noteq> None" "\<And>e. r = Some e \<Longrightarrow> expected_error at = e" "ignore_pde at = ignored fl (r \<noteq> None)"
      "r = None \<Longrightarrow> expected_pde at = ?e"
    using assms by (simp_all add: outcome_def agrees_def)
  have "pt_match ?e (expected_pde at) (ignore_pde at)"
    using or_A_cancel[OF o(4)] o(5,8,9) by (cases r; cases "has fl AC_PDE_ACCESSED") (simp_all add: pt_match_def ignored_def)
  then show ?thesis
    using o(1-3,6,7) by (cases r; cases "has fl AC_PDE_PSE") (simp_all add: access_checks_def ac_test_check_def)
qed

text \<open>The prediction of both accesses, as \<open>__ac_set_expected_status\<close> makes it.\<close>

definition expect_first :: "u64 \<Rightarrow> ac_test_t \<Rightarrow> ptmem \<Rightarrow> ac_test_t" where
  "expect_first root at m =
     at\<lparr>expected_pte := (if has (flags at) AC_PDE_PSE then expected_pte at else pt_read m (slot root at 1)),
        expected_pde := pt_read m (slot root at 2), ignore_pde := 0, expected_fault := False, expected_error := PFERR_PRESENT_MASK\<rparr>"

definition expect_again :: "ac_test_t \<Rightarrow> ac_test_t" where
  "expect_again at = at\<lparr>expected_fault := False, expected_error := PFERR_PRESENT_MASK, ignore_pde := 0\<rparr>"

lemma set_expected_eq:
  assumes "pdep at = Some (slot root at 2)" "ptep at = (if has (flags at) AC_PDE_PSE then None else Some (slot root at 1))"
  shows "ac_set_expected_status s at =
    (let at2 = expect_first root at (ptm s);
         at3 = (if has (flags at) AC_ACCESS_TWICE then expect_again (ac_emulate_access at2 (first_flags (flags at))) else at2)
     in Inr (ac_emulate_access at3 (flags at3)))"
proof -
  have "(case ptep at of None \<Rightarrow> at | Some p \<Rightarrow> at\<lparr>expected_pte := pt_read (ptm s) p\<rparr>)
      \<lparr>expected_pde := pt_read (ptm s) (slot root at 2), ignore_pde := 0, expected_fault := False, expected_error := PFERR_PRESENT_MASK\<rparr> =
      expect_first root at (ptm s)"
    using assms(2) by (simp add: expect_first_def)
  moreover have "flags (expect_first root at (ptm s)) = flags at" by (simp add: expect_first_def)
  ultimately show ?thesis
    unfolding ac_set_expected_status_def assms(1) option.case Let_def has_def[symmetric] first_flags_def expect_again_def by simp
qed

text \<open>The part of a test that its runs leave alone.\<close>

definition same_test :: "ac_test_t \<Rightarrow> ac_test_t \<Rightarrow> bool" where
  "same_test at at' \<longleftrightarrow> flags at' = flags at \<and> virt at' = virt at \<and> phys at' = phys at \<and> pt_levels at' = pt_levels at \<and> page_tables at' = page_tables at"

lemma same_slot: "same_test at at' \<Longrightarrow> slot root at' i = slot root at i"
  by (simp add: same_test_def slot_def tab_def)

lemma same_ready: "same_test at at' \<Longrightarrow> ready fl root at' m = ready fl root at m"
  by (simp add: ready_def uppers_def same_slot) (simp add: same_test_def)

lemma same_geometry: "same_test at at' \<Longrightarrow> geometry root at' = geometry root at"
proof -
  assume "same_test at at'"
  then have "tab root at' = tab root at" by (auto simp: same_test_def tab_def)
  with \<open>same_test at at'\<close> show ?thesis by (simp add: geometry_def same_test_def)
qed

lemma same_emulate:
  assumes "fresh at"
  shows "same_test at (ac_emulate_access at fl)"
proof -
  have p: "same_test a (snd (ac_test_permissions a fl w u x))" for a w u x
    by (simp add: ac_test_permissions_def Let_def same_test_def)
  have e: "same_test at (emulate_end a fl) \<longleftrightarrow> same_test at a" for a
    by (simp add: emulate_end_def Let_def same_test_def)
  show ?thesis unfolding emulate_start[OF assms] case_prod_unfold Let_def
    by (cases "pde_valid fl"; cases "has fl AC_PDE_PSE"; cases "pte_valid fl")
      (simp_all add: e, simp_all add: same_test_def emulate_invalid_def p[unfolded same_test_def])
qed

text \<open>
  The state between two test cases: the shadows are exact, supervisor-mode prevention is off,
  the tables are where the root register and the test say, and hold no foreign entry.
\<close>

definition exec_inv :: "platform \<Rightarrow> ac_state \<Rightarrow> ac_test_t \<Rightarrow> bool" where
  "exec_inv pl s at \<longleftrightarrow>
     synced s \<and> pke_ok pl s \<and> \<not> bit (reg_cr4 s) 20 \<and> \<not> bit (reg_cr4 s) 21 \<and> hw_levels s = pt_levels at \<and>
     table_of (reg_cr3 s) = pt_next (reg_cr3 s) \<and> geometry (pt_next (reg_cr3 s)) at \<and> slots_ok (pt_next (reg_cr3 s)) at (ptm s)"

lemma exec_invD:
  assumes "exec_inv pl s at"
  shows "synced s" "pke_ok pl s" "\<not> bit (reg_cr4 s) 20" "\<not> bit (reg_cr4 s) 21" "hw_levels s = pt_levels at"
    "table_of (shadow_cr3 s) = pt_next (reg_cr3 s)" "geometry (pt_next (reg_cr3 s)) at" "slots_ok (pt_next (reg_cr3 s)) at (ptm s)"
proof -
  show "synced s" "pke_ok pl s" "\<not> bit (reg_cr4 s) 20" "\<not> bit (reg_cr4 s) 21" "hw_levels s = pt_levels at"
    "geometry (pt_next (reg_cr3 s)) at" "slots_ok (pt_next (reg_cr3 s)) at (ptm s)"
    using assms by (simp_all add: exec_inv_def)
  have "reg_cr3 s = shadow_cr3 s" using \<open>synced s\<close> by (simp add: synced_def)
  then show "table_of (shadow_cr3 s) = pt_next (reg_cr3 s)" using assms by (simp add: exec_inv_def)
qed

lemma exec_inv_keep:
  assumes inv: "exec_inv pl s at" and s': "same_test at at'" "synced s'" "reg_cr3 s' = reg_cr3 s"
    "\<forall>i. i \<noteq> 22 \<longrightarrow> bit (reg_cr4 s') i = bit (reg_cr4 s) i" "slots_ok (pt_next (reg_cr3 s)) at' (ptm s')"
  shows "exec_inv pl s' at'"
proof -
  have "pke_ok pl s'" "\<not> bit (reg_cr4 s') 20" "\<not> bit (reg_cr4 s') 21" "hw_levels s' = hw_levels s"
    using exec_invD(2-4)[OF inv] s'(4) by (simp_all add: pke_ok_def hw_levels_def)
  then show ?thesis using inv s' same_geometry[OF s'(1)] by (simp add: exec_inv_def) (simp add: same_test_def)
qed

text \<open>Flags that the platform can be tested with.\<close>

definition flags_ok :: "platform \<Rightarrow> u32 \<Rightarrow> bool" where
  "flags_ok pl fl \<longleftrightarrow> ac_test_legal fl \<and> reserved_ok (maxphyaddr pl) fl \<and> (has fl AC_CPU_CR4_PKE \<longrightarrow> has_pku pl)"

lemma legal_sane: "ac_test_legal fl \<Longrightarrow> sane fl"
  by (auto simp: ac_test_legal_def sane_def split: if_splits)

lemma mem_op_one:
  assumes ob: "obeys pl" and g: "geometry root at"
    and r: "ready fl root at (ptm s)" "reserved_ok (maxphyaddr pl) fl" "sane fl" "in_mode s fl" "fresh at" "agrees fl root at (ptm s)"
    and hw: "hw_levels s = pt_levels at" "pt_next (reg_cr3 s) = root"
  shows "outcome fl root (ac_emulate_access at fl) (mem_op pl s (virt at) (access_of fl) fep)"
    "ad_eq (ptm s) (snd (mem_op pl s (virt at) (access_of fl) fep))"
proof -
  have "\<not> bit (reg_cr4 s) 21" using r(4) by (simp add: in_mode_def)
  then obtain choice where "mem_op pl s (virt at) (access_of fl) fep = hw_access (maxphyaddr pl) choice s (virt at) (access_of fl)"
    using ob unfolding obeys_def by blast
  then show "outcome fl root (ac_emulate_access at fl) (mem_op pl s (virt at) (access_of fl) fep)"
    "ad_eq (ptm s) (snd (mem_op pl s (virt at) (access_of fl) fep))"
    using one_access[OF g r hw] hw_access_ad_eq by simp_all
qed

text \<open>The first access leaves the state as the second one needs it.\<close>

lemma mem_op_again:
  assumes ob: "obeys pl" and g: "geometry root at"
    and r: "ready fl root at (ptm s)" "reserved_ok (maxphyaddr pl) fl" "sane fl" "in_mode s fl" "fresh at" "agrees fl root at (ptm s)"
    and hw: "hw_levels s = pt_levels at" "pt_next (reg_cr3 s) = root"
    and m_def: "m = snd (mem_op pl s (virt at) \<lparr>a_user = False, a_write = False, a_fetch = False\<rparr> fep)"
    and at'_def: "at' = expect_again (ac_emulate_access at (first_flags fl))"
  shows "agrees fl root at' m" "ad_eq (ptm s) m" "same_test at at'"
proof -
  note first = mem_op_one[of pl root at "first_flags fl" s fep, unfolded first_same, OF ob g r(1,2) first_same(5)[OF r(3)] r(4-6) hw]
  show same: "same_test at at'" using same_emulate[OF r(5)] by (simp add: at'_def expect_again_def same_test_def)
  show "ad_eq (ptm s) m" using first(2) by (simp add: m_def)
  have "agrees fl root (ac_emulate_access at (first_flags fl)) m" using first(1) by (simp add: outcome_def m_def first_same)
  then show "agrees fl root at' m" by (simp add: agrees_def at'_def expect_again_def)
qed

text \<open>One access or two, as the flags ask: the state before the last access and the expectations then.\<close>

lemma mem_op_before:
  assumes "obeys pl" "geometry root at" "ready fl root at (ptm s)" "reserved_ok (maxphyaddr pl) fl" "sane fl" "in_mode s fl" "fresh at"
    "agrees fl root at (ptm s)" "hw_levels s = pt_levels at" "pt_next (reg_cr3 s) = root"
    and s2: "s2 = (if has fl AC_ACCESS_TWICE
      then s\<lparr>ptm := snd (mem_op pl s (virt at) \<lparr>a_user = False, a_write = False, a_fetch = False\<rparr> fep)\<rparr> else s)"
    and at3: "at3 = (if has fl AC_ACCESS_TWICE then expect_again (ac_emulate_access at (first_flags fl)) else at)"
  shows "agrees fl root at3 (ptm s2) \<and> ad_eq (ptm s) (ptm s2) \<and> same_test at at3 \<and> fresh at3"
proof (cases "has fl AC_ACCESS_TWICE")
  case True
  then have "ptm s2 = snd (mem_op pl s (virt at) \<lparr>a_user = False, a_write = False, a_fetch = False\<rparr> fep)"
    "at3 = expect_again (ac_emulate_access at (first_flags fl))" using s2 at3 by simp_all
  note again = mem_op_again[OF assms(1-10) this]
  have "fresh at3" using True at3 by (simp add: expect_again_def fresh_def)
  then show "agrees fl root at3 (ptm s2) \<and> ad_eq (ptm s) (ptm s2) \<and> same_test at at3 \<and> fresh at3" using again by blast
next
  case False
  then have "s2 = s" "at3 = at" using s2 at3 by simp_all
  then show "agrees fl root at3 (ptm s2) \<and> ad_eq (ptm s) (ptm s2) \<and> same_test at at3 \<and> fresh at3"
    using assms(7,8) by (simp add: ad_eq_refl same_test_def)
qed

lemma mem_op_last:
  assumes ob: "obeys pl" and g: "geometry root at" and r: "ready fl root at (ptm s)" "reserved_ok (maxphyaddr pl) fl" "sane fl" "in_mode s fl" "fresh at"
    "agrees fl root at (ptm s)" "hw_levels s = pt_levels at" "pt_next (reg_cr3 s) = root"
    and s2: "s2 = (if has fl AC_ACCESS_TWICE
      then s\<lparr>ptm := snd (mem_op pl s (virt at) \<lparr>a_user = False, a_write = False, a_fetch = False\<rparr> fep)\<rparr> else s)"
    and at3: "at3 = (if has fl AC_ACCESS_TWICE then expect_again (ac_emulate_access at (first_flags fl)) else at)"
  shows "outcome fl root (ac_emulate_access at3 fl) (mem_op pl s2 (virt at) (access_of fl) fep2)"
    "ad_eq (ptm s) (snd (mem_op pl s2 (virt at) (access_of fl) fep2))" "same_test at (ac_emulate_access at3 fl)"
proof -
  have before: "agrees fl root at3 (ptm s2)" "ad_eq (ptm s) (ptm s2)" "same_test at at3" "fresh at3"
    using mem_op_before[OF ob g r s2 at3] by simp_all
  have "reg_cr0 s2 = reg_cr0 s" "reg_cr3 s2 = reg_cr3 s" "reg_cr4 s2 = reg_cr4 s" "reg_efer s2 = reg_efer s" "reg_pkru s2 = reg_pkru s"
    using s2 by simp_all
  then have regs: "in_mode s2 fl" "hw_levels s2 = pt_levels at3" "pt_next (reg_cr3 s2) = root"
    using r(4,7,8) before(3) by (simp_all add: in_mode_def hw_levels_def same_test_def)
  have "ready fl root at3 (ptm s2)" using ready_ad[OF r(1) before(2)] same_ready[OF before(3)] by simp
  moreover have "geometry root at3" using g same_geometry[OF before(3)] by simp
  moreover have "virt at3 = virt at" using before(3) by (simp add: same_test_def)
  ultimately show "outcome fl root (ac_emulate_access at3 fl) (mem_op pl s2 (virt at) (access_of fl) fep2)"
    "ad_eq (ptm s) (snd (mem_op pl s2 (virt at) (access_of fl) fep2))"
    using mem_op_one[OF ob _ _ r(2,3) regs(1) before(4,1) regs(2,3), of fep2] ad_eq_trans[OF before(2)] by simp_all
  show "same_test at (ac_emulate_access at3 fl)" using before(3) same_emulate[OF before(4), of fl] by (simp add: same_test_def)
qed

lemma do_access_ok:
  assumes ob: "obeys pl" and inv: "exec_inv pl s at" and fl: "flags_ok pl (flags at)" and root: "root = pt_next (reg_cr3 s)"
    and r: "ready (flags at) root at (ptm s)" "pdep at = Some (slot root at 2)"
      "ptep at = (if has (flags at) AC_PDE_PSE then None else Some (slot root at 1))"
      "has (flags at) AC_PDE_ACCESSED \<longrightarrow> bit (pt_read (ptm s) (slot root at 2)) 5"
  shows "\<exists>at' s'. ac_set_expected_status s at = Inr at' \<and> same_test at at' \<and> ac_test_do_access pl s at' = Inr (True, s') \<and> exec_inv pl s' at' \<and>
    invalid_mask s' = invalid_mask s"
proof -
  let ?fl = "flags at" and ?va = "virt at"
  have sane: "sane ?fl" and rsv: "reserved_ok (maxphyaddr pl) ?fl" and pku: "has ?fl AC_CPU_CR4_PKE \<longrightarrow> has_pku pl"
    using fl legal_sane by (auto simp: flags_ok_def)
  have inv': "synced s" "pke_ok pl s" "\<not> bit (reg_cr4 s) 20" "\<not> bit (reg_cr4 s) 21" "hw_levels s = pt_levels at" "geometry root at"
    using exec_invD[OF inv] root by simp_all
  define at2 where "at2 = expect_first root at (ptm s)"
  define at3 where "at3 = (if has ?fl AC_ACCESS_TWICE then expect_again (ac_emulate_access at2 (first_flags ?fl)) else at2)"
  define at' where "at' = ac_emulate_access at3 (flags at3)"
  have st: "ac_set_expected_status s at = Inr at'" using set_expected_eq[OF r(2,3)] by (simp add: at'_def at3_def at2_def Let_def)
  have same2: "same_test at at2" by (simp add: at2_def expect_first_def same_test_def)
  have fr: "fresh at2" "fresh at3" by (simp_all add: at3_def at2_def expect_first_def expect_again_def fresh_def)
  have same3: "same_test at at3" using same2 same_emulate[OF fr(1), of "first_flags ?fl"] by (simp add: at3_def expect_again_def same_test_def)
  have same': "same_test at at'" using same3 same_emulate[OF fr(2), of "flags at3"] by (simp add: at'_def same_test_def)
  have fl3: "flags at3 = ?fl" "flags at' = ?fl" using same3 same' by (simp_all add: same_test_def)
  obtain s1 where s1: "access_modes pl s at' = Inr s1" "synced s1" "in_mode s1 ?fl" "\<forall>i. i \<noteq> 22 \<longrightarrow> bit (reg_cr4 s1) i = bit (reg_cr4 s) i"
      "ptm s1 = ptm s" "reg_cr3 s1 = reg_cr3 s" "invalid_mask s1 = invalid_mask s"
    using access_modes_eq[of s pl at'] inv' sane pku by (auto simp: fl3 sane_def)
  have hw1: "hw_levels s1 = pt_levels at2" "pt_next (reg_cr3 s1) = root" "virt at2 = ?va" "virt at' = ?va"
    using inv'(5) s1(4,6) root same2 same' by (simp_all add: hw_levels_def same_test_def)
  have r2: "ready ?fl root at2 (ptm s1)" "geometry root at2" "agrees ?fl root at2 (ptm s1)"
    using r inv'(6) same_ready[OF same2] same_geometry[OF same2] s1(5) same_slot[OF same2]
    by (simp_all add: agrees_def) (simp_all add: at2_def expect_first_def)
  define s2 where "s2 = (if has ?fl AC_ACCESS_TWICE
    then s1\<lparr>ptm := snd (mem_op pl s1 (virt at2) \<lparr>a_user = False, a_write = False, a_fetch = False\<rparr> (has ?fl AC_FEP))\<rparr> else s1)"
  define res where "res = mem_op pl s2 (virt at2) (access_of ?fl) (has ?fl AC_FEP \<and> \<not> has ?fl AC_ACCESS_FETCH)"
  note last = mem_op_last(1,2)[OF ob r2(2,1) rsv sane s1(3) fr(1) r2(3) hw1(1,2) s2_def at3_def, of "has ?fl AC_FEP \<and> \<not> has ?fl AC_ACCESS_FETCH",
      folded res_def]
  have "outcome ?fl root at' (fst res, snd res)" using last(1) by (simp add: at'_def fl3)
  then have "access_checks (s2\<lparr>ptm := snd res\<rparr>) at' (fst res) = Inr True" by (rule access_checks_ok)
  then have "ac_test_do_access pl s at' = Inr (True, s2\<lparr>ptm := snd res\<rparr>)"
    unfolding ac_test_do_access_def Let_def fl3 hw1(4) s1(1) bind_res_Inr s2_def[unfolded hw1(3), symmetric]
      res_def[unfolded hw1(3) access_of_def, symmetric] case_prod_unfold by simp
  moreover have "exec_inv pl (s2\<lparr>ptm := snd res\<rparr>) at'"
  proof -
    have "ready ?fl root at (snd res)" using ready_ad[OF r2(1) last(2)] same_ready[OF same2] by simp
    then have "slots_ok root at' (snd res)" using ready_slots[of ?fl root at'] same_ready[OF same'] same_geometry[OF same'] inv'(6) by simp
    then show ?thesis using s1(2,4,6) root by (intro exec_inv_keep[OF inv same']) (simp_all add: s2_def synced_def)
  qed
  moreover have "invalid_mask (s2\<lparr>ptm := snd res\<rparr>) = invalid_mask s" using s1(7) by (simp add: s2_def)
  ultimately show ?thesis using st same' by blast
qed

lemma exec_ok:
  assumes ob: "obeys pl" and inv: "exec_inv pl s at" and fl: "flags_ok pl (flags at)"
  shows "\<exists>s' at'. ac_test_exec pl s at = Inr (True, s', at') \<and> exec_inv pl s' at' \<and> same_test at at' \<and> invalid_mask s' = invalid_mask s"
proof -
  let ?root = "pt_next (reg_cr3 s)" and ?at = "at\<lparr>ptep := None\<rparr>"
  have sane: "\<not> has (flags ?at) AC_PDE_PSE \<longrightarrow> \<not> has (flags ?at) AC_PDE_BIT13" using fl legal_sane by (auto simp: flags_ok_def sane_def)
  have same: "same_test at ?at" by (simp add: same_test_def)
  have g: "geometry ?root ?at" "slots_ok ?root ?at (ptm s)" "table_of (shadow_cr3 s) = ?root"
    using exec_invD[OF inv] same_geometry[OF same] by (simp_all add: slots_ok_def)
  define at1 where "at1 = ?at\<lparr>pdep := Some (slot ?root ?at 2), ptep := (if has (flags ?at) AC_PDE_PSE then None else Some (slot ?root ?at 1))\<rparr>"
  have same1: "same_test at at1" by (simp add: at1_def same_test_def)
  obtain s1 where s1: "setup_ptes_loop (pt_levels ?at) (shadow_cr3 s) s ?at = Inr (s1, at1)" "\<exists>m. s1 = s\<lparr>ptm := m\<rparr>" "ready (flags ?at) ?root ?at (ptm s1)"
      "has (flags ?at) AC_PDE_ACCESSED \<longrightarrow> bit (pt_read (ptm s1) (slot ?root ?at 2)) 5"
    using setup_ptes_loop_ready[OF g(1,2,3) _ sane] unfolding at1_def by auto
  have r: "ready (flags at1) ?root at1 (ptm s1)" using s1(3) same_ready[OF same1] same_ready[OF same] same1 by (simp add: same_test_def)
  have regs: "reg_cr3 s1 = reg_cr3 s" "reg_cr4 s1 = reg_cr4 s" "synced s1 \<longleftrightarrow> synced s" "invalid_mask s1 = invalid_mask s"
    using s1(2) by (auto simp: synced_def)
  have g1: "geometry ?root at1" using g(1) same_geometry[OF same1] same_geometry[OF same] by simp
  have inv1: "exec_inv pl s1 at1"
    using exec_inv_keep[OF inv same1, of s1] regs exec_invD(1)[OF inv] ready_slots[OF r g1] by simp
  have p: "pdep at1 = Some (slot ?root at1 2)" "ptep at1 = (if has (flags at1) AC_PDE_PSE then None else Some (slot ?root at1 1))"
      "has (flags at1) AC_PDE_ACCESSED \<longrightarrow> bit (pt_read (ptm s1) (slot ?root at1 2)) 5" "flags_ok pl (flags at1)" "?root = pt_next (reg_cr3 s1)"
    using s1(4) fl regs(1) by (simp_all add: at1_def)
  obtain at' s' where d: "ac_set_expected_status s1 at1 = Inr at'" "same_test at1 at'" "ac_test_do_access pl s1 at' = Inr (True, s')" "exec_inv pl s' at'"
      "invalid_mask s' = invalid_mask s1"
    using do_access_ok[OF ob inv1 p(4,5) r p(1-3)] by blast
  have "ac_test_setup_ptes s at = Inr (s1, at')" using s1(1) d(1) by (simp add: ac_test_setup_ptes_def)
  then have "ac_test_exec pl s at = Inr (True, s', at')" using d(3) by (simp add: ac_test_exec_def setup_access_def)
  then show ?thesis using d(2,4,5) same1 regs(4) by (auto simp: same_test_def)
qed

end
