(* ===== verification/AccessLoop.thy ===== *)
theory AccessLoop
  imports AccessExec
begin

text \<open>
  The run over all test cases: \<open>ac_test_bump\<close> enumerates the legal flags in order, and after
  \<open>ac_test_init\<close> the loop of \<open>ac_test_run\<close> ends with as many successes as tests.
\<close>

section \<open>Enumerating the subsets of a mask\<close>

text \<open>Adding one with the bits of \<open>i\<close> set skips them: the next number without a bit of \<open>i\<close>.\<close>

lemma int_recs:
  "(a :: int) AND b = of_bool (odd a \<and> odd b) + 2 * (a div 2 AND b div 2)" "a OR b = of_bool (odd a \<or> odd b) + 2 * (a div 2 OR b div 2)"
  "NOT a = of_bool (even a) + 2 * NOT (a div 2)"
  by (rule and_int_rec, rule or_int_rec, rule not_int_rec)

lemma and_0_div2:
  assumes "(f :: int) AND i = 0"
  shows "(f div 2) AND (i div 2) = 0" "\<not> (odd f \<and> odd i)"
proof -
  have "f AND i = of_bool (odd f \<and> odd i) + 2 * (f div 2 AND i div 2)" by (rule int_recs)
  then show "\<not> (odd f \<and> odd i)" "(f div 2) AND (i div 2) = 0" using assms by (cases "odd f \<and> odd i"; simp; presburger)+
qed

lemma or_and_not:
  assumes "(a :: int) AND b = 0"
  shows "(a OR b) AND NOT b = a"
proof (rule bit_eqI)
  fix n
  have "\<not> (bit a n \<and> bit b n)" using arg_cong[OF assms, of "\<lambda>x. bit x n"] by (simp add: bit_and_iff)
  then show "bit ((a OR b) AND NOT b) n = bit a n" by (auto simp: bit_simps)
qed

lemma next_least:
  assumes "0 \<le> f" "0 \<le> i" "f AND i = 0" "f < g" "g AND i = 0"
  shows "((f OR i) + 1) AND NOT i \<le> (g :: int)"
  using assms
proof (induction "nat (f + i)" arbitrary: f i g rule: less_induct)
  case less
  note d = and_0_div2[OF less.prems(3)] and_0_div2[OF less.prems(5)]
  let ?o = "f div 2 OR i div 2"
  have n: "NOT i = of_bool (even i) + 2 * NOT (i div 2)" by (rule int_recs)
  have o: "f OR i = of_bool (odd f \<or> odd i) + 2 * ?o" by (rule int_recs)
  have nd: "NOT i div 2 = NOT (i div 2)" "odd (NOT i) \<longleftrightarrow> even i" unfolding n by (cases "even i"; simp)+
  show ?case
  proof (cases "even f \<and> even i")
    case True
    have "(f OR i) + 1 = 1 + 2 * ?o" using o True by simp
    then have "((f OR i) + 1) AND NOT i = 1 + 2 * (?o AND NOT (i div 2))" using int_recs(1)[of "(f OR i) + 1" "NOT i"] nd True by simp
    also have "?o AND NOT (i div 2) = f div 2" by (rule or_and_not[OF d(1)])
    finally show ?thesis using less.prems(4) True by auto
  next
    case False
    moreover have "f + i = 0 \<longrightarrow> f = 0 \<and> i = 0" using less.prems(1,2) by linarith
    ultimately have "f + i \<noteq> 0" by auto
    then have lt: "nat (f div 2 + i div 2) < nat (f + i)" using less.prems(1,2) by linarith
    have "f div 2 < g div 2" using False d less.prems(4) by presburger
    then have IH: "(?o + 1) AND NOT (i div 2) \<le> g div 2" using less.hyps[OF lt] less.prems(1,2) d by simp
    have "(f OR i) + 1 = 2 * (?o + 1)" using o False by auto
    then have "((f OR i) + 1) AND NOT i = 2 * ((?o + 1) AND NOT (i div 2))" using int_recs(1)[of "(f OR i) + 1" "NOT i"] nd by (simp add: add.commute)
    then show ?thesis using IH by linarith
  qed
qed

lemma next_greater:
  assumes "0 \<le> f" "0 \<le> i" "f AND i = 0"
  shows "f < ((f OR i) + 1) AND NOT (i :: int)"
proof -
  let ?y = "(f OR i) + 1"
  have "f OR i = f + i" using assms(3) by (simp add: disjunctive_add_eq_or)
  moreover have "?y = (?y AND NOT i) + (?y AND i)"
  proof -
    have "(?y AND NOT i) AND (?y AND i) = 0" by (rule bit_eqI) (auto simp: bit_simps)
    then have "(?y AND NOT i) + (?y AND i) = (?y AND NOT i) OR (?y AND i)" by (rule disjunctive_add_eq_or)
    also have "\<dots> = ?y" by (rule bit_eqI) (auto simp: bit_and_iff bit_or_iff bit_not_iff)
    finally show ?thesis by simp
  qed
  moreover have "?y AND i \<le> i" using assms(2) by simp
  ultimately show ?thesis by linarith
qed

section \<open>The next legal flags\<close>

text \<open>Below the number of flags and without an invalid one.\<close>

definition in_range :: "u32 \<Rightarrow> u32 \<Rightarrow> bool" where
  "in_range invm fl \<longleftrightarrow> fl < 2 ^ 31 \<and> fl AND invm = 0"

lemma bump_one_eq:
  assumes "invm < 2 ^ 31" "fl < 2 ^ 31"
  shows "uint (snd (ac_test_bump_one invm fl)) = ((uint fl OR uint invm) + 1) AND NOT (uint invm)"
    "fst (ac_test_bump_one invm fl) \<longleftrightarrow> snd (ac_test_bump_one invm fl) < 2 ^ 31"
proof -
  have "uint fl < 2 ^ 31" "uint invm < 2 ^ 31" using assms by (simp_all add: word_less_def)
  then have "uint fl OR uint invm < 2 ^ 31" by (rule OR_upper[OF uint_ge_0])
  then have "uint ((fl OR invm) + 1) = (uint fl OR uint invm) + 1"
    by (subst uint_plus_simple) (simp_all add: word_le_def unsigned_or_eq uint_word_ariths)
  moreover have "uint (x AND NOT invm) = uint x AND NOT (uint invm)" for x
    by (rule bit_eqI) (auto simp: bit_simps dest: bit_imp_le_length)
  ultimately show "uint (snd (ac_test_bump_one invm fl)) = ((uint fl OR uint invm) + 1) AND NOT (uint invm)"
    by (simp add: ac_test_bump_one_def Let_def)
  show "fst (ac_test_bump_one invm fl) \<longleftrightarrow> snd (ac_test_bump_one invm fl) < 2 ^ 31"
    by (simp add: ac_test_bump_one_def Let_def NR_AC_FLAGS_def)
qed

text \<open>One bump: the next flags in the range, or the end of the range.\<close>

lemma bump_one_next:
  assumes "invm < 2 ^ 31" "in_range invm fl" "ac_test_bump_one invm fl = (r, fl')"
  shows "fl < fl'" "r \<longleftrightarrow> in_range invm fl'" "r \<longleftrightarrow> fl' < 2 ^ 31" "in_range invm g \<Longrightarrow> fl < g \<Longrightarrow> fl' \<le> g"
proof -
  have fl: "fl < 2 ^ 31" "fl AND invm = 0" using assms(2) by (simp_all add: in_range_def)
  have d: "uint fl AND uint invm = 0" using arg_cong[OF fl(2), of uint] by (simp add: unsigned_and_eq)
  have e: "uint fl' = ((uint fl OR uint invm) + 1) AND NOT (uint invm)" "r \<longleftrightarrow> fl' < 2 ^ 31"
    using bump_one_eq[OF assms(1) fl(1)] assms(3) by simp_all
  show "fl < fl'" using next_greater[OF uint_ge_0 uint_ge_0 d] by (simp add: word_less_def e(1))
  have "fl' AND invm = 0" using assms(3) by (auto simp: ac_test_bump_one_def Let_def and.assoc)
  then show "r \<longleftrightarrow> in_range invm fl'" "r \<longleftrightarrow> fl' < 2 ^ 31" by (simp_all add: e(2) in_range_def)
  show "fl' \<le> g" if "in_range invm g" "fl < g"
  proof -
    have g: "g AND invm = 0" using that(1) by (simp add: in_range_def)
    have "uint g AND uint invm = 0" using arg_cong[OF g, of uint] by (simp add: unsigned_and_eq)
    then show ?thesis using next_least[OF uint_ge_0 uint_ge_0 d] that(2) by (simp add: word_le_def word_less_def e(1))
  qed
qed

text \<open>The legal flags that are left.\<close>

definition legal_from :: "u32 \<Rightarrow> u32 \<Rightarrow> u32 set" where
  "legal_from invm fl = {g. fl \<le> g \<and> in_range invm g \<and> ac_test_legal g}"

lemma bump_next:
  assumes "invm < 2 ^ 31" "in_range invm fl"
  shows "\<exists>r fl'. ac_test_bump invm fl = Some (r, fl') \<and> fl < fl' \<and>
    (if r then in_range invm fl' \<and> ac_test_legal fl' \<and> (\<forall>g. in_range invm g \<and> ac_test_legal g \<and> fl < g \<longrightarrow> fl' \<le> g)
     else \<forall>g. in_range invm g \<and> ac_test_legal g \<longrightarrow> g \<le> fl)"
  using assms(2)
proof (induction "2 ^ 31 - unat fl" arbitrary: fl rule: less_induct)
  case less
  obtain r fl' where b: "ac_test_bump_one invm fl = (r, fl')" by (cases "ac_test_bump_one invm fl")
  note n = bump_one_next[OF assms(1) less.prems b]
  have rec: "ac_test_bump invm fl = (if r \<and> \<not> ac_test_legal fl' then ac_test_bump invm fl' else Some (r, fl'))"
    by (subst ac_test_bump.simps) (simp add: b)
  show ?case
  proof (cases "r \<and> \<not> ac_test_legal fl'")
    case False
    have "ac_test_bump invm fl = Some (r, fl')" unfolding rec if_not_P[OF False] by (rule refl)
    moreover have "g \<le> fl" if "\<not> r" "in_range invm g" for g
      using that n(3) n(4)[OF that(2)] by (meson in_range_def leI order_le_less_trans)
    ultimately show ?thesis using n False by auto
  next
    case True
    then have "in_range invm fl'" using n(2) by simp
    moreover have "2 ^ 31 - unat fl' < 2 ^ 31 - unat fl" using n(1,3) True by (simp add: word_less_nat_alt)
    ultimately obtain r2 fl2 where r2: "ac_test_bump invm fl' = Some (r2, fl2)" "fl' < fl2"
      "if r2 then in_range invm fl2 \<and> ac_test_legal fl2 \<and> (\<forall>g. in_range invm g \<and> ac_test_legal g \<and> fl' < g \<longrightarrow> fl2 \<le> g)
       else \<forall>g. in_range invm g \<and> ac_test_legal g \<longrightarrow> g \<le> fl'"
      using less.hyps by blast
    have "ac_test_bump invm fl = Some (r2, fl2)" unfolding rec if_P[OF True] by (rule r2(1))
    moreover have "fl < fl2" using n(1) r2(2) by (rule less_trans)
    moreover have "fl' < g" if "in_range invm g" "ac_test_legal g" "fl < g" for g
      using n(4)[OF that(1,3)] that(2) True by (cases "g = fl'") auto
    ultimately show ?thesis using r2(3) by (cases r2) (auto simp: not_le[symmetric])
  qed
qed

section \<open>The loop\<close>

text \<open>The mask excludes what the platform cannot be tested with.\<close>

definition mask_ok :: "platform \<Rightarrow> u32 \<Rightarrow> bool" where
  "mask_ok pl invm \<longleftrightarrow>
     invm < 2 ^ 31 \<and> 32 \<le> maxphyaddr pl \<and>
     (52 \<le> maxphyaddr pl \<longrightarrow> has invm AC_PDE_BIT51 \<and> has invm AC_PTE_BIT51) \<and>
     (37 \<le> maxphyaddr pl \<longrightarrow> has invm AC_PDE_BIT36 \<and> has invm AC_PTE_BIT36) \<and> (\<not> has_pku pl \<longrightarrow> has invm AC_CPU_CR4_PKE)"

lemma in_range_has:
  assumes "in_range invm fl" "has invm f"
  shows "\<not> has fl f"
proof -
  have "bit (fl AND invm) (ac_bit f) = False" using assms(1) by (simp add: in_range_def)
  then show ?thesis using assms(2) by (simp add: has_bit bit_and_iff)
qed

lemma mask_flags_ok:
  assumes "mask_ok pl invm" "in_range invm fl" "ac_test_legal fl"
  shows "flags_ok pl fl"
proof -
  have "maxphyaddr pl \<le> 51 \<longleftrightarrow> \<not> 52 \<le> maxphyaddr pl" "maxphyaddr pl \<le> 36 \<longleftrightarrow> \<not> 37 \<le> maxphyaddr pl" by auto
  then show ?thesis using assms in_range_has[OF assms(2)] unfolding mask_ok_def flags_ok_def reserved_ok_def by blast
qed

lemma legal_from_step:
  assumes "in_range invm fl" "ac_test_legal fl" "fl < fl'"
    "if r then in_range invm fl' \<and> ac_test_legal fl' \<and> (\<forall>g. in_range invm g \<and> ac_test_legal g \<and> fl < g \<longrightarrow> fl' \<le> g)
     else \<forall>g. in_range invm g \<and> ac_test_legal g \<longrightarrow> g \<le> fl"
  shows "card (legal_from invm fl) = (if r then Suc (card (legal_from invm fl')) else 1)"
proof (cases r)
  case True
  have "legal_from invm fl = insert fl (legal_from invm fl')"
    using assms True by (auto simp: legal_from_def order_le_less)
  moreover have "fl \<notin> legal_from invm fl'" using assms(3) by (auto simp: legal_from_def)
  ultimately show ?thesis using True by simp
next
  case False
  then have "legal_from invm fl = {fl}" using assms by (auto simp: legal_from_def)
  then show ?thesis using False by simp
qed

lemma exec_inv_flags: "exec_inv pl s (at\<lparr>flags := fl\<rparr>) \<longleftrightarrow> exec_inv pl s at"
proof -
  have "tab root (at\<lparr>flags := fl\<rparr>) = tab root at" for root by (rule ext) (simp add: tab_def)
  then show ?thesis by (simp add: exec_inv_def geometry_def slots_ok_def)
qed

lemma exec_loop_all:
  assumes "obeys pl" "mask_ok pl (invalid_mask s)" "exec_inv pl s at" "in_range (invalid_mask s) (flags at)" "ac_test_legal (flags at)"
  shows "\<exists>s'. exec_loop pl s at t u = Some (Inr (t + card (legal_from (invalid_mask s) (flags at)), u + card (legal_from (invalid_mask s) (flags at)), s'))"
  using assms(2-)
proof (induction "card (legal_from (invalid_mask s) (flags at))" arbitrary: s at t u rule: less_induct)
  case less
  let ?m = "invalid_mask s" and ?fl = "flags at"
  obtain s1 at1 where e: "ac_test_exec pl s at = Inr (True, s1, at1)" "exec_inv pl s1 at1" "same_test at at1" "invalid_mask s1 = ?m"
    using exec_ok[OF assms(1) less.prems(2) mask_flags_ok[OF less.prems(1,3,4)]] by blast
  have fl1: "flags at1 = ?fl" using e(3) by (simp add: same_test_def)
  obtain r fl' where b: "ac_test_bump ?m ?fl = Some (r, fl')" "?fl < fl'"
      "if r then in_range ?m fl' \<and> ac_test_legal fl' \<and> (\<forall>g. in_range ?m g \<and> ac_test_legal g \<and> ?fl < g \<longrightarrow> fl' \<le> g)
       else \<forall>g. in_range ?m g \<and> ac_test_legal g \<longrightarrow> g \<le> ?fl"
    using bump_next[of ?m ?fl] less.prems(1,3) by (auto simp: mask_ok_def)
  note card = legal_from_step[OF less.prems(3,4) b(2,3)]
  have step: "exec_loop pl s at t u = (if r then exec_loop pl s1 (at1\<lparr>flags := fl'\<rparr>) (t + 1) (u + 1) else Some (Inr (t + 1, u + 1, s1)))"
    by (subst exec_loop.simps) (simp add: e(1,4) fl1 b(1))
  show ?case
  proof (cases r)
    case False
    then show ?thesis using step card by simp
  next
    case True
    let ?at = "at1\<lparr>flags := fl'\<rparr>"
    have "exec_inv pl s1 ?at" using e(2) by (simp add: exec_inv_flags)
    then have "\<exists>s'. exec_loop pl s1 ?at (t + 1) (u + 1) = Some (Inr (t + 1 + card (legal_from ?m fl'), u + 1 + card (legal_from ?m fl'), s'))"
      using less.hyps[of s1 ?at "t + 1" "u + 1"] less.prems(1) b(3) True card e(4) by simp
    then show ?thesis using step card True by simp
  qed
qed

section \<open>Initialisation\<close>

text \<open>The pages of the pool.\<close>

definition pool_page :: "nat \<Rightarrow> u64" where
  "pool_page k = AT_PAGING_STRUCTURES_PHYS + of_nat k * 4096"

lemma page_ok_aligned: "take_bit 12 x = 0 \<Longrightarrow> x < 2 ^ 32 \<Longrightarrow> page_ok x"
  unfolding page_ok_def
proof (intro allI impI)
  fix j assume a: "take_bit 12 x = 0" "x < 2 ^ 32" "bit x j"
  have "\<not> j < 12" using arg_cong[OF a(1), of "\<lambda>x. bit x j"] a(3) by (simp add: bit_take_bit_iff)
  moreover have "j < 32"
  proof -
    have "unat x < 2 ^ 32" using a(2) by (simp add: word_less_nat_alt)
    then have "take_bit 32 x = x" by (simp add: word_unat_eq_iff unsigned_take_bit_eq take_bit_nat_eq_self)
    then show ?thesis using a(3) by (metis bit_take_bit_iff)
  qed
  ultimately show "12 \<le> j \<and> j \<le> 31" by simp
qed

lemma pool_pages: "k < 4 \<Longrightarrow> page_ok (pool_page k)" "k < 4 \<Longrightarrow> l < 4 \<Longrightarrow> pool_page k = pool_page l \<longleftrightarrow> k = l"
proof -
  have c: "k < 4 \<Longrightarrow> k = 0 \<or> k = 1 \<or> k = 2 \<or> k = 3" for k :: nat by linarith
  show "k < 4 \<Longrightarrow> page_ok (pool_page k)"
    using c[of k] by (auto intro!: page_ok_aligned simp: pool_page_def AT_PAGING_STRUCTURES_PHYS_def)
  show "k < 4 \<Longrightarrow> l < 4 \<Longrightarrow> pool_page k = pool_page l \<longleftrightarrow> k = l"
    using c[of k] c[of l] by (auto simp: pool_page_def AT_PAGING_STRUCTURES_PHYS_def)
qed

lemma init_tables:
  assumes "Suc j \<le> n" "n \<le> 5" "4 \<le> n" "length pts = 6" "pt_pool_pa env = AT_PAGING_STRUCTURES_PHYS" "env_levels env = n" "pt_pool_current env = n - Suc j"
  shows "\<exists>pts' s' env'. init_tables_loop (Suc j) v None s env pts = Inr (pts', s', env') \<and> length pts' = 6 \<and>
    (\<forall>i. 2 \<le> i \<and> i \<le> Suc j \<longrightarrow> pts' ! i = pool_page (n - i) \<and> (\<forall>x. pt_read (ptm s') (pool_page (n - i), x) = 0)) \<and>
    (\<forall>i. Suc j < i \<longrightarrow> pts' ! i = pts ! i) \<and> (\<forall>q. pt_read (ptm s') q = pt_read (ptm s) q \<or> pt_read (ptm s') q = 0) \<and> (\<exists>m. s' = s\<lparr>ptm := m\<rparr>)"
  using assms
proof (induction j arbitrary: s env pts)
  case 0
  then show ?case by (intro exI[of _ pts] exI[of _ s] exI[of _ env]) auto
next
  case (Suc j)
  let ?i = "Suc (Suc j)" and ?pt = "pool_page (n - Suc (Suc j))"
  define s1 where "s1 = s\<lparr>ptm := pt_clear (ptm s) ?pt\<rparr>"
  define env1 where "env1 = env\<lparr>pt_pool_current := pt_pool_current env + 1\<rparr>"
  have "pt_pool_current env < 4 * (env_levels env - 1)" using Suc.prems by simp
  then have "ac_test_alloc_pt s env = Inr (?pt, s1, env1)"
    using Suc.prems by (simp add: ac_test_alloc_pt_def res_simps s1_def env1_def pool_page_def Let_def)
  then have step: "init_tables_loop ?i v None s env pts = init_tables_loop (Suc j) v None s1 env1 (pts[?i := ?pt])"
    using Suc.prems by (simp add: arr_set_def res_simps Let_def)
  obtain pts' s' env' where IH: "init_tables_loop (Suc j) v None s1 env1 (pts[?i := ?pt]) = Inr (pts', s', env')" "length pts' = 6"
      "\<forall>i. 2 \<le> i \<and> i \<le> Suc j \<longrightarrow> pts' ! i = pool_page (n - i) \<and> (\<forall>x. pt_read (ptm s') (pool_page (n - i), x) = 0)"
      "\<forall>i. Suc j < i \<longrightarrow> pts' ! i = pts[?i := ?pt] ! i" "\<forall>q. pt_read (ptm s') q = pt_read (ptm s1) q \<or> pt_read (ptm s') q = 0" "\<exists>m. s' = s1\<lparr>ptm := m\<rparr>"
    using Suc.IH[of "pts[?i := ?pt]" env1 s1] Suc.prems by (auto simp: env1_def Suc_diff_Suc)
  have z: "pt_read (ptm s1) (?pt, x) = 0" for x by (simp add: s1_def pt_read_def pt_clear_def)
  have "pts' ! ?i = ?pt" using IH(4) Suc.prems by simp
  moreover have "pt_read (ptm s') (?pt, x) = 0" for x using IH(5) z by metis
  ultimately have "\<forall>i. 2 \<le> i \<and> i \<le> ?i \<longrightarrow> pts' ! i = pool_page (n - i) \<and> (\<forall>x. pt_read (ptm s') (pool_page (n - i), x) = 0)"
    using IH(3) by (metis le_SucE)
  moreover have "pt_read (ptm s1) q = pt_read (ptm s) q \<or> pt_read (ptm s1) q = 0" for q by (simp add: s1_def pt_read_def pt_clear_def)
  then have "\<forall>q. pt_read (ptm s') q = pt_read (ptm s) q \<or> pt_read (ptm s') q = 0" using IH(5) by metis
  moreover have "\<exists>m. s' = s\<lparr>ptm := m\<rparr>" using IH(6) by (auto simp: s1_def)
  moreover have "\<forall>i. ?i < i \<longrightarrow> pts' ! i = pts ! i" using IH(4) by simp
  ultimately show ?case unfolding step IH(1) using IH(2) by blast
qed

text \<open>The machine the tests start on.\<close>

definition boot_ok :: "platform \<Rightarrow> ac_state \<Rightarrow> nat \<Rightarrow> bool" where
  "boot_ok pl s n \<longleftrightarrow>
     pke_ok pl s \<and> \<not> bit (reg_cr4 s) 20 \<and> \<not> bit (reg_cr4 s) 21 \<and> hw_levels s = n \<and>
     table_of (reg_cr3 s) = pt_next (reg_cr3 s) \<and> (\<forall>k < 4. pt_next (reg_cr3 s) \<noteq> pool_page k)"

lemma pool_geometry:
  assumes n: "n = 4 \<or> n = 5" and at: "pt_levels at = n" "length (page_tables at) = 6" "phys at = AT_CODE_DATA_PHYS"
    and pts: "\<forall>i. 2 \<le> i \<and> i \<le> n \<longrightarrow> page_tables at ! i = pool_page (n - i)" and root: "\<forall>k < 4. root \<noteq> pool_page k"
  shows "geometry root at"
proof -
  have tab: "tab root at i = (if i = n then root else pool_page (n - Suc i))" if "1 \<le> i" "i \<le> n" for i
    using that pts at(1) by (simp add: tab_def)
  have "inj_on (tab root at) {1..n}"
  proof (rule inj_onI)
    fix i j assume ij: "i \<in> {1..n}" "j \<in> {1..n}" "tab root at i = tab root at j"
    have lt: "i \<noteq> n \<Longrightarrow> n - Suc i < 4" "j \<noteq> n \<Longrightarrow> n - Suc j < 4" using n ij by auto
    show "i = j"
    proof (cases "i = n \<or> j = n")
      case True
      then show ?thesis using ij tab[of i] tab[of j] root lt by (metis atLeastAtMost_iff)
    next
      case False
      then have "n - Suc i = n - Suc j" using ij tab[of i] tab[of j] pool_pages(2) lt by simp
      then show ?thesis using ij False by auto
    qed
  qed
  moreover have "page_ok (page_tables at ! i)" if "2 \<le> i" "i \<le> n" for i using that pts pool_pages(1)[of "n - i"] n by auto
  ultimately show ?thesis using n at by (simp add: geometry_def)
qed

lemma init_inv:
  assumes sy: "synced s" and s: "boot_ok pl s n" and v: "PT_INDEX v n \<noteq> PT_INDEX (init_addr pl) n" and len: "length (page_tables at) = 6"
  shows "\<exists>at' s' env'. ac_test_init pl s at v (ac_env_int n) = Inr (at', s', env') \<and> exec_inv pl s' at' \<and> flags at' = 0 \<and>
    invalid_mask s' = invalid_mask s \<and> reg_cr4 s' = reg_cr4 s"
proof -
  let ?root = "pt_next (reg_cr3 s)"
  have n: "n = 4 \<or> n = 5" using s by (auto simp: boot_ok_def hw_levels_def)
  have root: "table_of (shadow_cr3 s) = ?root" using s sy by (simp add: boot_ok_def synced_def[of s])
  obtain ce where ce: "set_efer_nx s True = s\<lparr>reg_efer := ce, shadow_efer := ce\<rparr>" using set_efer_nx_eq[OF sy] by blast
  have "synced (s\<lparr>reg_efer := ce, shadow_efer := ce\<rparr>)" using sy by (simp add: synced_def)
  then obtain c0 where c0: "set_cr0_wp (set_efer_nx s True) True = s\<lparr>reg_efer := ce, shadow_efer := ce, reg_cr0 := c0, shadow_cr0 := c0\<rparr>"
    unfolding ce using set_cr0_wp_eq by blast
  define s1 where "s1 = set_cr0_wp (set_efer_nx s True) True"
  define s2 where "s2 = s1\<lparr>ptm := pt_write (ptm s1) (?root, PT_INDEX v n) 0\<rparr>"
  have regs: "reg_cr3 s2 = reg_cr3 s" "reg_cr4 s2 = reg_cr4 s" "synced s2" "invalid_mask s2 = invalid_mask s"
    using sy by (simp_all add: s2_def s1_def c0 synced_def)
  obtain j where j: "n = Suc j" using n by auto
  have e: "Suc j \<le> n" "n \<le> 5" "4 \<le> n" "length ((page_tables at)[0 := - 1, 1 := - 1]) = 6" "pt_pool_pa (ac_env_int n) = AT_PAGING_STRUCTURES_PHYS"
      "env_levels (ac_env_int n) = n" "pt_pool_current (ac_env_int n) = n - Suc j"
    using n j len by (auto simp: ac_env_int_def)
  obtain pts s3 env where t: "init_tables_loop n v None s2 (ac_env_int n) ((page_tables at)[0 := - 1, 1 := - 1]) = Inr (pts, s3, env)" "length pts = 6"
      "\<forall>i. 2 \<le> i \<and> i \<le> n \<longrightarrow> pts ! i = pool_page (n - i) \<and> (\<forall>x. pt_read (ptm s3) (pool_page (n - i), x) = 0)"
      "\<forall>q. pt_read (ptm s3) q = pt_read (ptm s2) q \<or> pt_read (ptm s3) q = 0" "\<exists>m. s3 = s2\<lparr>ptm := m\<rparr>"
    using init_tables[OF e, of v s2] unfolding j by blast
  define at' where "at' = at\<lparr>flags := 0, virt := v, phys := AT_CODE_DATA_PHYS, pt_levels := n, page_tables := pts\<rparr>"
  have at'_sel: "pt_levels at' = n" "page_tables at' = pts" "virt at' = v" "phys at' = AT_CODE_DATA_PHYS" by (simp_all add: at'_def)
  have lev: "env_levels (ac_env_int n) = n" by (simp add: ac_env_int_def)
  have "ac_test_init pl s at v (ac_env_int n) = Inr (at', s3, env)"
    using t(1) v unfolding ac_test_init_def ac_test_init_buddy_def root lev Let_def s1_def[symmetric] s2_def[symmetric] by (simp add: res_simps at'_def)
  moreover have regs3: "reg_cr3 s3 = reg_cr3 s" "reg_cr4 s3 = reg_cr4 s" "synced s3" "invalid_mask s3 = invalid_mask s"
    using t(5) regs by (auto simp: synced_def)
  moreover have "exec_inv pl s3 at'"
  proof -
    have g: "geometry ?root at'" using pool_geometry[OF n] t(2,3) s at'_sel by (simp add: boot_ok_def)
    have "pt_read (ptm s3) (slot ?root at' i) = 0" if "2 \<le> i" "i \<le> n" for i
    proof (cases "i = n")
      case True
      have "pt_read (ptm s2) (?root, PT_INDEX v n) = 0" by (simp add: s2_def)
      then have "pt_read (ptm s3) (?root, PT_INDEX v n) = 0" using t(4) by metis
      then show ?thesis using True by (simp add: slot_def tab_def at'_sel)
    next
      case False
      then have "tab ?root at' i = pool_page (n - Suc i)" using t(3) that by (simp add: tab_def at'_sel)
      then show ?thesis using t(3) that False by (simp add: slot_def)
    qed
    then have "slots_ok ?root at' (ptm s3)" by (simp add: slots_ok_def slot_ok_def at'_sel)
    then show ?thesis using g s regs3 at'_sel by (simp add: exec_inv_def boot_ok_def pke_ok_def hw_levels_def)
  qed
  ultimately show ?thesis by (auto simp: at'_def)
qed

section \<open>The run up to the scenarios\<close>

text \<open>The faults the probes of \<open>ac_test_run\<close> look for.\<close>

definition gp_ok :: "platform \<Rightarrow> ac_state \<Rightarrow> bool" where
  "gp_ok pl s \<longleftrightarrow>
     has_smep pl \<and> (\<forall>v. bit v 22 \<and> \<not> has_pku pl \<longrightarrow> cr4_faults pl v) \<and> (\<forall>v. bit v 12 \<noteq> bit (reg_cr4 s) 12 \<longrightarrow> cr4_faults pl v)"

lemma exec_inv_pke:
  assumes "exec_inv pl s at" "pke \<longrightarrow> has_pku pl"
  shows "\<exists>s'. set_cr4_pke pl s pke = Inr s' \<and> exec_inv pl s' at \<and> bit (reg_cr4 s') 12 = bit (reg_cr4 s) 12 \<and> invalid_mask s' = invalid_mask s"
proof -
  obtain c k where c: "set_cr4_pke pl s pke = Inr (s\<lparr>reg_cr4 := c, shadow_cr4 := c, reg_pkru := k\<rparr>)" "\<forall>i. i \<noteq> 22 \<longrightarrow> bit c i = bit (reg_cr4 s) i"
    using set_cr4_pke_eq[OF exec_invD(1,2)[OF assms(1)] assms(2)] by blast
  have "synced (s\<lparr>reg_cr4 := c, shadow_cr4 := c, reg_pkru := k\<rparr>)" using exec_invD(1)[OF assms(1)] by (simp add: synced_def)
  then have "exec_inv pl (s\<lparr>reg_cr4 := c, shadow_cr4 := c, reg_pkru := k\<rparr>) at"
    using c(2) exec_invD(8)[OF assms(1)] by (intro exec_inv_keep[OF assms(1)]) (simp_all add: same_test_def)
  then show ?thesis using c by simp
qed

lemma exec_inv_mask: "exec_inv pl (s\<lparr>invalid_mask := m\<rparr>) at \<longleftrightarrow> exec_inv pl s at"
  by (simp add: exec_inv_def synced_def pke_ok_def hw_levels_def)

definition pku_mask :: "platform \<Rightarrow> u32" where
  "pku_mask pl = (if has_pku pl then 0 else masks [AC_PKU_AD, AC_PKU_WD, AC_PKU_PKEY, AC_CPU_CR4_PKE])"

lemma run_pke_ok:
  assumes inv: "exec_inv pl s at" and gp: "gp_ok pl s"
  shows "\<exists>k s'. run_pke pl s (a, b) = Inr ((a + k, b + k), s') \<and> exec_inv pl s' at \<and> gp_ok pl s' \<and> invalid_mask s' = invalid_mask s OR pku_mask pl"
proof (cases "has_pku pl")
  case True
  obtain s1 where s1: "set_cr4_pke pl s True = Inr s1" "exec_inv pl s1 at" "bit (reg_cr4 s1) 12 = bit (reg_cr4 s) 12" "invalid_mask s1 = invalid_mask s"
    using exec_inv_pke[OF inv, of True] True by blast
  obtain s2 where "set_cr4_pke pl s1 False = Inr s2" "exec_inv pl s2 at" "bit (reg_cr4 s2) 12 = bit (reg_cr4 s1) 12" "invalid_mask s2 = invalid_mask s1"
    using exec_inv_pke[OF s1(2), of False] by blast
  then show ?thesis using True s1 gp by (intro exI[of _ 0] exI[of _ s2]) (simp add: run_pke_def pku_mask_def gp_ok_def)
next
  case False
  have "bit (shadow_cr4 s OR X86_CR4_PKE) 22" by (simp add: bit_or_iff bit_reg_masks)
  then have "cr4_faults pl (shadow_cr4 s OR X86_CR4_PKE)" using gp False by (simp add: gp_ok_def)
  then show ?thesis using False inv gp
    by (intro exI[of _ 1] exI[of _ "s\<lparr>invalid_mask := invalid_mask s OR pku_mask pl\<rparr>"])
      (simp add: run_pke_def write_cr4_safe_def pku_mask_def exec_inv_mask gp_ok_def)
qed

lemma run_la57_ok:
  assumes "synced s" "gp_ok pl s"
  shows "\<exists>k. run_la57 pl s (a, b) = ((a + k, b + k), s)"
proof -
  have b: "bit X86_CR4_LA57 12" "\<not> bit X86_CR4_PSE 12" by (simp_all only: X86_CR4_LA57_def X86_CR4_PSE_def bit_push_bit_iff bit_1_iff) simp_all
  then have "bit (shadow_cr4 s XOR X86_CR4_LA57) 12 \<noteq> bit (reg_cr4 s) 12" "bit (shadow_cr4 s XOR (X86_CR4_LA57 OR X86_CR4_PSE)) 12 \<noteq> bit (reg_cr4 s) 12"
    using assms(1) by (auto simp: synced_def bit_xor_iff bit_or_iff)
  then have "cr4_faults pl (shadow_cr4 s XOR X86_CR4_LA57)" "cr4_faults pl (shadow_cr4 s XOR (X86_CR4_LA57 OR X86_CR4_PSE))"
    using assms(2) by (auto simp: gp_ok_def)
  then show ?thesis by (auto simp: run_la57_def write_cr4_safe_def)
qed

lemma has_or: "has (a OR b) f \<longleftrightarrow> has a f \<or> has b f"
  by (simp add: has_bit bit_or_iff)

lemma has_ac_mask: "has (ac_mask g) f \<longleftrightarrow> f = g"
  by (simp add: has_bit bit_ac_mask ac_bit_inj)

lemma or_below: "a < 2 ^ 31 \<Longrightarrow> b < 2 ^ 31 \<Longrightarrow> a OR b < (2 ^ 31 :: u32)"
  using OR_upper[of "uint a" 31 "uint b"] by (simp add: word_less_def unsigned_or_eq)

lemma ac_mask_below: "ac_mask f < 2 ^ 31"
  by (cases f) (simp_all add: ac_mask_def)

lemma run_mask_ok:
  assumes "m < 2 ^ 31" "32 \<le> maxphyaddr pl"
  shows "mask_ok pl (run_invalid_mask pl fe m OR pku_mask pl)"
proof -
  have "run_invalid_mask pl fe m < 2 ^ 31" unfolding run_invalid_mask_def Let_def using assms(1) by (simp add: or_below[simplified] ac_mask_below[simplified])
  moreover have "pku_mask pl < 2 ^ 31" by (simp add: pku_mask_def masks_def or_below[simplified] ac_mask_below[simplified])
  ultimately have "run_invalid_mask pl fe m OR pku_mask pl < 2 ^ 31" by (rule or_below)
  then show ?thesis using assms(2) unfolding mask_ok_def has_or
    by (simp add: run_invalid_mask_def Let_def has_or has_ac_mask pku_mask_def masks_def)
qed

section \<open>A platform and a machine\<close>

definition hw_platform :: platform where
  "hw_platform = \<lparr>mem_op = (\<lambda>s va acc fep. hw_access 40 (\<lambda>_. True) s va acc), cr4_faults = (\<lambda>v. bit v 12), maxphyaddr = 40,
     has_pku = True, has_smep = True, has_la57 = True, fep_available = False, stext = 0x400000, etext = 0x401000, init_addr = 0x400000\<rparr>"

definition hw_boot :: ac_state where
  "hw_boot = \<lparr>ptm = (\<lambda>_ _. 0), reg_cr0 = 0x80010001, reg_cr3 = 0x1000, reg_cr4 = 0x20, reg_efer = 0xd00, reg_pkru = 0,
     shadow_cr0 = 0x80010001, shadow_cr3 = 0x1000, shadow_cr4 = 0x20, shadow_efer = 0xd00, invalid_mask = 0\<rparr>"

definition hw_test :: ac_test_t where
  "hw_test = at_uninit\<lparr>flags := 0x4C04323, virt := 0xffff923400000000, phys := AT_CODE_DATA_PHYS, pt_levels := 4,
     page_tables := [- 1, - 1, pool_page 2, pool_page 1, pool_page 0, 0]\<rparr>"

lemma hw_obeys: "obeys hw_platform"
  by (auto simp: obeys_def hw_platform_def)

lemma hw_boot_ok: "boot_ok hw_platform hw_boot 4" "synced hw_boot" "gp_ok hw_platform hw_boot"
proof -
  have r: "table_of 0x1000 = 0x1000" "pt_next 0x1000 = 0x1000"
    by (simp_all add: table_of_def PT_BASE_ADDR_MASK_def pt_next_def PT_ADDR_MASK_def GENMASK_ULL_def PT_ADDR_UPPER_BOUND_def mask_eq_exp_minus_1)
  have p: "pool_page k \<noteq> 0x1000" if "k < 4" for k
  proof -
    have "k = 0 \<or> k = 1 \<or> k = 2 \<or> k = 3" using that by linarith
    then show ?thesis by (auto simp: pool_page_def AT_PAGING_STRUCTURES_PHYS_def)
  qed
  show "boot_ok hw_platform hw_boot 4" "synced hw_boot" "gp_ok hw_platform hw_boot"
    using p[symmetric] by (auto simp: boot_ok_def hw_boot_def hw_platform_def pke_ok_def hw_levels_def r synced_def gp_ok_def)
qed

lemma hw_exec_inv: "exec_inv hw_platform hw_boot hw_test"
proof -
  have at: "pt_levels hw_test = 4" "page_tables hw_test = [- 1, - 1, pool_page 2, pool_page 1, pool_page 0, 0]" "phys hw_test = AT_CODE_DATA_PHYS"
    by (simp_all add: hw_test_def)
  have "\<forall>i. 2 \<le> i \<and> i \<le> 4 \<longrightarrow> page_tables hw_test ! i = pool_page (4 - i)"
  proof (intro allI impI)
    fix i :: nat assume "2 \<le> i \<and> i \<le> 4"
    then have "i = 2 \<or> i = 3 \<or> i = 4" by linarith
    then show "page_tables hw_test ! i = pool_page (4 - i)" by (auto simp: at numeral_eq_Suc)
  qed
  then have "geometry (pt_next (reg_cr3 hw_boot)) hw_test"
    using pool_geometry[of 4 hw_test "pt_next (reg_cr3 hw_boot)"] at hw_boot_ok(1) by (simp add: boot_ok_def)
  moreover have "slots_ok root hw_test (ptm hw_boot)" for root by (simp add: slots_ok_def slot_ok_def hw_boot_def pt_read_def)
  ultimately show ?thesis using hw_boot_ok at(1) by (simp add: exec_inv_def boot_ok_def)
qed

lemma hw_flags: "flags_ok hw_platform (flags hw_test)"
  by (simp add: flags_ok_def hw_test_def ac_test_legal_def has_def ac_mask_def masks_def reserved_ok_def hw_platform_def Let_def)

section \<open>Properties\<close>

text \<open>
  C12: A test case succeeds. On a platform whose memory accesses follow the architecture, in a
  state where the control register shadows are exact and the tables of the test hold no foreign
  entry, \<open>ac_test_exec\<close> with legal flags writes the tables, predicts the outcome, performs the
  access or the two accesses and finds the predicted fault, error code and entries; it leaves a
  state in which the next test case can run.
\<close>

theorem ac_test_exec_succeeds:
  assumes "obeys pl" "exec_inv pl s at" "flags_ok pl (flags at)"
  shows "\<exists>s' at'. ac_test_exec pl s at = Inr (True, s', at') \<and> exec_inv pl s' at' \<and> flags at' = flags at \<and> invalid_mask s' = invalid_mask s"
  using exec_ok[OF assms] by (auto simp: same_test_def)

theorem ac_test_exec_succeeds_witness:
  "\<exists>s' at'. ac_test_exec hw_platform hw_boot hw_test = Inr (True, s', at') \<and> exec_inv hw_platform s' at' \<and> flags at' = flags hw_test \<and>
    invalid_mask s' = invalid_mask hw_boot"
  by (rule ac_test_exec_succeeds[OF hw_obeys hw_exec_inv hw_flags])

text \<open>
  C14: \<open>ac_test_bump\<close> terminates and enumerates. From flags without an invalid bit it returns the
  least greater flags that are legal and have no invalid bit, or reports that there are none
  left.
\<close>

theorem ac_test_bump_next:
  assumes "invm < 2 ^ 31" "in_range invm fl"
  shows "\<exists>r fl'. ac_test_bump invm fl = Some (r, fl') \<and>
    (if r then fl < fl' \<and> in_range invm fl' \<and> ac_test_legal fl' \<and> (\<forall>g. in_range invm g \<and> ac_test_legal g \<and> fl < g \<longrightarrow> fl' \<le> g)
     else \<forall>g. in_range invm g \<and> ac_test_legal g \<longrightarrow> g \<le> fl)"
  using bump_next[OF assms] by (metis (full_types))

theorem ac_test_bump_next_witness:
  "\<exists>r fl'. ac_test_bump 0x40000000 5 = Some (r, fl') \<and>
    (if r then 5 < fl' \<and> in_range 0x40000000 fl' \<and> ac_test_legal fl' \<and>
       (\<forall>g. in_range 0x40000000 g \<and> ac_test_legal g \<and> 5 < g \<longrightarrow> fl' \<le> g)
     else \<forall>g. in_range 0x40000000 g \<and> ac_test_legal g \<longrightarrow> g \<le> 5)"
  by (rule ac_test_bump_next) (simp_all add: in_range_def)

text \<open>
  C13: The run terminates and every generated test case succeeds: \<open>ac_test_run\<close> reaches its six
  scenarios with as many successes as tests, at least one for each legal set of flags. The
  platform follows the architecture, supports supervisor-mode execution prevention and raises the
  faults the probes of the control register look for.
\<close>

theorem ac_test_run_reaches_scenarios:
  assumes pl: "obeys pl" "boot_ok pl s0 n" "gp_ok pl s0" "32 \<le> maxphyaddr pl" "PT_INDEX 0xffff923400000000 n \<noteq> PT_INDEX (init_addr pl) n"
    and m: "invalid_mask s0 < 2 ^ 31" and fe: "fe \<longrightarrow> fep_available pl"
  shows "\<exists>k s. ac_test_run pl s0 n fe = Some (cases_loop pl n ac_test_cases s k k) \<and>
    card (legal_from (run_invalid_mask pl fe (invalid_mask s0) OR pku_mask pl) 0) \<le> k"
proof -
  define s where "s = s0\<lparr>shadow_cr0 := reg_cr0 s0, shadow_cr4 := reg_cr4 s0, shadow_cr3 := reg_cr3 s0, shadow_efer := reg_efer s0,
    invalid_mask := run_invalid_mask pl fe (invalid_mask s0)\<rparr>"
  have s: "synced s" "boot_ok pl s n" "gp_ok pl s" using pl(2,3) by (simp_all add: s_def synced_def boot_ok_def gp_ok_def pke_ok_def hw_levels_def)
  have "length (page_tables at_uninit) = 6" by (simp add: at_uninit_def)
  then obtain at s1 env where i: "ac_test_init pl s at_uninit 0xffff923400000000 (ac_env_int n) = Inr (at, s1, env)" "exec_inv pl s1 at" "flags at = 0"
      "invalid_mask s1 = invalid_mask s" "reg_cr4 s1 = reg_cr4 s"
    using init_inv[OF s(1,2) pl(5)] by blast
  have "gp_ok pl s1" using s(3) i(5) by (simp add: gp_ok_def)
  then obtain k s2 where k: "run_pke pl s1 (0, 0) = Inr ((k, k), s2)" "exec_inv pl s2 at" "gp_ok pl s2" "invalid_mask s2 = invalid_mask s OR pku_mask pl"
    using run_pke_ok[OF i(2), of 0 0] i(4) by auto
  have smep: "run_smep pl s2 at (k, k) = Inr ((k, k), s2)" using k(3) by (simp add: run_smep_def gp_ok_def)
  obtain l where l: "run_la57 pl s2 (k, k) = ((k + l, k + l), s2)" using run_la57_ok[OF exec_invD(1)[OF k(2)] k(3)] by blast
  have mask: "invalid_mask s2 = run_invalid_mask pl fe (invalid_mask s0) OR pku_mask pl" using k(4) by (simp add: s_def)
  have fl: "in_range (invalid_mask s2) (flags at)" "ac_test_legal (flags at)" using i(3) by (simp_all add: in_range_def ac_test_legal_def has_def)
  have "mask_ok pl (invalid_mask s2)" unfolding mask by (rule run_mask_ok[OF m pl(4)])
  then obtain s3 where "exec_loop pl s2 at (k + l) (k + l) =
      Some (Inr (k + l + card (legal_from (invalid_mask s2) 0), k + l + card (legal_from (invalid_mask s2) 0), s3))"
    using exec_loop_all[OF pl(1) _ k(2) fl] i(3) by auto
  moreover have fe': "(fe \<and> \<not> fep_available pl) = False" using fe by simp
  ultimately have "ac_test_run pl s0 n fe = Some (cases_loop pl n ac_test_cases s3 (k + l + card (legal_from (invalid_mask s2) 0)) (k + l + card (legal_from (invalid_mask s2) 0)))"
    using i(1) k(1) smep l unfolding ac_test_run_def fe' if_False Let_def s_def[symmetric] by simp
  then show ?thesis unfolding mask by (intro exI conjI) (auto simp: add.assoc)
qed

theorem ac_test_run_reaches_scenarios_witness:
  "\<exists>k s. ac_test_run hw_platform hw_boot 4 False = Some (cases_loop hw_platform 4 ac_test_cases s k k) \<and>
    card (legal_from (run_invalid_mask hw_platform False (invalid_mask hw_boot) OR pku_mask hw_platform) 0) \<le> k"
proof (rule ac_test_run_reaches_scenarios[OF hw_obeys hw_boot_ok(1,3)])
  show "PT_INDEX 0xffff923400000000 4 \<noteq> PT_INDEX (init_addr hw_platform) 4" by (simp add: PT_INDEX_def hw_platform_def)
qed (simp_all add: hw_platform_def hw_boot_def)


end
