(* ===== verification/Rand.thy ===== *)
theory Rand
  imports Prelude
begin

text \<open>
  \<open>lib/rand.c\<close>: a pseudo-random number generator that scrambles its state with SHA-256. The
  routine is proved equal to the hash function of FIPS 180-4 on messages of up to 13 words, and
  the generator to hand out the words of the chain of hashes one after the other.
\<close>

section \<open>The hash\<close>

definition INITAL_HASH :: "u32 list" where
  "INITAL_HASH = [0x6a09e667, 0xbb67ae85, 0x3c6ef372, 0xa54ff53a, 0x510e527f, 0x9b05688c, 0x1f83d9ab, 0x5be0cd19]"

definition K :: "u32 list" where
  "K = [
     0x428a2f98, 0x71374491, 0xb5c0fbcf, 0xe9b5dba5, 0x3956c25b, 0x59f111f1, 0x923f82a4, 0xab1c5ed5,
     0xd807aa98, 0x12835b01, 0x243185be, 0x550c7dc3, 0x72be5d74, 0x80deb1fe, 0x9bdc06a7, 0xc19bf174,
     0xe49b69c1, 0xefbe4786, 0x0fc19dc6, 0x240ca1cc, 0x2de92c6f, 0x4a7484aa, 0x5cb0a9dc, 0x76f988da,
     0x983e5152, 0xa831c66d, 0xb00327c8, 0xbf597fc7, 0xc6e00bf3, 0xd5a79147, 0x06ca6351, 0x14292967,
     0x27b70a85, 0x2e1b2138, 0x4d2c6dfc, 0x53380d13, 0x650a7354, 0x766a0abb, 0x81c2c92e, 0x92722c85,
     0xa2bfe8a1, 0xa81a664b, 0xc24b8b70, 0xc76c51a3, 0xd192e819, 0xd6990624, 0xf40e3585, 0x106aa070,
     0x19a4c116, 0x1e376c08, 0x2748774c, 0x34b0bcb5, 0x391c0cb3, 0x4ed8aa4a, 0x5b9cca4f, 0x682e6ff3,
     0x748f82ee, 0x78a5636f, 0x84c87814, 0x8cc70208, 0x90befffa, 0xa4506ceb, 0xbef9a3f7, 0xc67178f2]"

definition ch :: "u32 \<Rightarrow> u32 \<Rightarrow> u32 \<Rightarrow> u32" where
  "ch x y z = (x AND y) XOR ((NOT x) AND z)"

definition maj :: "u32 \<Rightarrow> u32 \<Rightarrow> u32 \<Rightarrow> u32" where
  "maj x y z = (x AND y) XOR (x AND z) XOR (y AND z)"

text \<open>\<open>rot\<close> is called with counts between 2 and 25 only, for which both shifts are defined.\<close>

definition rot :: "u32 \<Rightarrow> nat \<Rightarrow> u32" where
  "rot value count = drop_bit count value OR push_bit (32 - count) value"

definition upper_sig0 :: "u32 \<Rightarrow> u32" where "upper_sig0 x = rot x 2 XOR rot x 13 XOR rot x 22"
definition upper_sig1 :: "u32 \<Rightarrow> u32" where "upper_sig1 x = rot x 6 XOR rot x 11 XOR rot x 25"
definition lower_sig0 :: "u32 \<Rightarrow> u32" where "lower_sig0 x = rot x 7 XOR rot x 18 XOR drop_bit 3 x"
definition lower_sig1 :: "u32 \<Rightarrow> u32" where "lower_sig1 x = rot x 17 XOR rot x 19 XOR drop_bit 10 x"

text \<open>The two loops of \<open>sha256_chunk\<close>; \<open>w\<close> has 64 words, of which the first \<open>i\<close> are set.\<close>

function expand_loop :: "nat \<Rightarrow> u32 list \<Rightarrow> u32 list" where
  "expand_loop i w =
     (if i < 64
      then expand_loop (i + 1) (w[i := lower_sig1 (w ! (i - 2)) + w ! (i - 7) + lower_sig0 (w ! (i - 15)) + w ! (i - 16)])
      else w)"
  by pat_completeness auto
termination by (relation "measure (\<lambda>(i, _). 64 - i)") auto

definition hash_round :: "u32 \<Rightarrow> u32 \<Rightarrow> u32 list \<Rightarrow> u32 list" where
  "hash_round k x h =
     (let t1 = h ! 7 + upper_sig1 (h ! 4) + ch (h ! 4) (h ! 5) (h ! 6) + k + x;
          t2 = upper_sig0 (h ! 0) + maj (h ! 0) (h ! 1) (h ! 2);
          h = h[7 := h ! 6];
          h = h[6 := h ! 5];
          h = h[5 := h ! 4];
          h = h[4 := h ! 3 + t1];
          h = h[3 := h ! 2];
          h = h[2 := h ! 1];
          h = h[1 := h ! 0]
      in h[0 := t1 + t2])"

function round_loop :: "nat \<Rightarrow> u32 list \<Rightarrow> u32 list \<Rightarrow> u32 list" where
  "round_loop i w h = (if i < 64 then round_loop (i + 1) w (hash_round (K ! i) (w ! i) h) else h)"
  by pat_completeness auto
termination by (relation "measure (\<lambda>(i, _). 64 - i)") auto

declare expand_loop.simps [simp del] round_loop.simps [simp del]

definition sha256_chunk :: "u32 list \<Rightarrow> u32 list \<Rightarrow> u32 list" where
  "sha256_chunk chunk hash =
     (let w = expand_loop 16 (chunk @ replicate 48 0) in map2 (+) hash (round_loop 0 w hash))"

text \<open>The copy of the input and the separator have to stay in the chunk of 16 words.\<close>

definition sha256_hash :: "u32 list \<Rightarrow> u32 list res" where
  "sha256_hash input =
     (let n = length input; chunk = (replicate 16 0)[15 := of_nat (4 * n * 8)] in
      if n > 16 then Inl Fault
      else bind_res (arr_set (input @ drop n chunk) n (push_bit 31 1)) (\<lambda>chunk. Inr (sha256_chunk chunk INITAL_HASH)))"

section \<open>The generator\<close>

record prng_state =
  hash :: "u32 list"
  next_word :: u8

definition prng_init :: "u64 \<Rightarrow> prng_state res" where
  "prng_init seed = bind_res (sha256_hash [ucast (drop_bit 32 seed), ucast seed]) (\<lambda>h. Inr \<lparr>hash = h, next_word = 0\<rparr>)"

definition prng_scramble :: "prng_state \<Rightarrow> prng_state res" where
  "prng_scramble state = bind_res (sha256_hash (hash state)) (\<lambda>h. Inr \<lparr>hash = h, next_word = 0\<rparr>)"

text \<open>\<open>prng32\<close> calls itself after scrambling; the word is then there.\<close>

function prng32 :: "prng_state \<Rightarrow> (u32 \<times> prng_state) res" where
  "prng32 state =
     (if next_word state < 8
      then bind_res (arr_get (hash state) (unat (next_word state))) (\<lambda>x. Inr (x, state\<lparr>next_word := next_word state + 1\<rparr>))
      else case prng_scramble state of Inl e \<Rightarrow> Inl e | Inr state' \<Rightarrow> prng32 state')"
  by pat_completeness auto
termination
  by (relation "measure (\<lambda>s. if next_word s < 8 then 0 else 1)")
    (auto simp: prng_scramble_def res_simps)

declare prng32.simps [simp del]

definition prng64 :: "prng_state \<Rightarrow> (u64 \<times> prng_state) res" where
  "prng64 state =
     bind_res (prng32 state) (\<lambda>(high, state). bind_res (prng32 state) (\<lambda>(low, state).
       Inr (push_bit 32 (ucast high) OR ucast low, state)))"

section \<open>The hash function of FIPS 180-4\<close>

fun schedule :: "u32 list \<Rightarrow> nat \<Rightarrow> u32" where
  "schedule M t =
     (if t < 16 then M ! t
      else (word_rotr 17 (schedule M (t - 2)) XOR word_rotr 19 (schedule M (t - 2)) XOR drop_bit 10 (schedule M (t - 2))) + schedule M (t - 7) +
           (word_rotr 7 (schedule M (t - 15)) XOR word_rotr 18 (schedule M (t - 15)) XOR drop_bit 3 (schedule M (t - 15))) + schedule M (t - 16))"

declare schedule.simps [simp del]

type_synonym working = "u32 \<times> u32 \<times> u32 \<times> u32 \<times> u32 \<times> u32 \<times> u32 \<times> u32"

fun compress_step :: "u32 \<Rightarrow> u32 \<Rightarrow> working \<Rightarrow> working" where
  "compress_step k w (a, b, c, d, e, f, g, h) =
     (let t1 = h + (word_rotr 6 e XOR word_rotr 11 e XOR word_rotr 25 e) + ((e AND f) XOR (NOT e AND g)) + k + w;
          t2 = (word_rotr 2 a XOR word_rotr 13 a XOR word_rotr 22 a) + ((a AND b) XOR (a AND c) XOR (b AND c))
      in (t1 + t2, a, b, c, d + t1, e, f, g))"

definition compress :: "u32 list \<Rightarrow> working \<Rightarrow> working" where
  "compress M h = fold (\<lambda>t. compress_step (K ! t) (schedule M t)) [0..<64] h"

fun words :: "working \<Rightarrow> u32 list" where
  "words (a, b, c, d, e, f, g, h) = [a, b, c, d, e, f, g, h]"

definition padded :: "u32 list \<Rightarrow> u32 list" where
  "padded M = M @ [0x80000000] @ replicate (13 - length M) 0 @ [0, of_nat (32 * length M)]"

definition sha256 :: "u32 list \<Rightarrow> u32 list" where
  "sha256 M = map2 (+) INITAL_HASH (words (compress (padded M)
     (0x6a09e667, 0xbb67ae85, 0x3c6ef372, 0xa54ff53a, 0x510e527f, 0x9b05688c, 0x1f83d9ab, 0x5be0cd19)))"

section \<open>The routine computes it\<close>

lemma rot_rotr:
  assumes "0 < n" "n < 32"
  shows "rot x n = word_rotr n x"
proof (rule bit_eqI)
  fix i assume "possible_bit TYPE(32 word) i"
  then have i: "i < 32" by simp
  show "bit (rot x n) i = bit (word_rotr n x) i"
  proof (cases "i + n < 32")
    case True
    then have "\<not> 32 - n \<le> i" by simp
    then show ?thesis using i True by (simp add: rot_def bit_simps add.commute)
  next
    case False
    then have "(i + n) mod 32 = i + n - 32" using assms i by (simp add: mod_if)
    moreover have "\<not> bit x (n + i)" using False bit_imp_le_length[of x "n + i"] by auto
    moreover have "32 - n \<le> i" using False by simp
    ultimately show ?thesis using i False assms by (simp add: rot_def bit_simps)
  qed
qed

lemma expand_loop_schedule:
  assumes "16 \<le> i" "i \<le> 64" "length w = 64" "\<forall>j < i. w ! j = schedule M j"
  shows "length (expand_loop i w) = 64 \<and> (\<forall>j < 64. expand_loop i w ! j = schedule M j)"
  using assms
proof (induction "64 - i" arbitrary: i w)
  case 0
  then have "expand_loop i w = w" by (simp add: expand_loop.simps)
  then show ?case using 0 by simp
next
  case (Suc d)
  let ?v = "lower_sig1 (w ! (i - 2)) + w ! (i - 7) + lower_sig0 (w ! (i - 15)) + w ! (i - 16)"
  have "?v = schedule M i"
    using Suc.prems by (subst schedule.simps) (simp add: lower_sig0_def lower_sig1_def rot_rotr)
  then have "\<forall>j < i + 1. w[i := ?v] ! j = schedule M j" using Suc.prems Suc.hyps(2) by (auto simp: less_Suc_eq nth_list_update)
  then show ?case using Suc.hyps(1)[of "i + 1" "w[i := ?v]"] Suc.hyps(2) Suc.prems by (subst (1 2) expand_loop.simps) simp
qed

lemma hash_round_step: "hash_round k x (words h) = words (compress_step k x h)"
  by (cases h rule: words.cases) (simp add: hash_round_def Let_def upper_sig0_def upper_sig1_def rot_rotr ch_def maj_def)

lemma round_loop_compress:
  assumes "i \<le> 64" "\<forall>j < 64. w ! j = schedule M j"
  shows "round_loop i w (words h) = words (fold (\<lambda>t. compress_step (K ! t) (schedule M t)) [i..<64] h)"
  using assms
proof (induction "64 - i" arbitrary: i h)
  case 0
  then have "round_loop i w (words h) = words h" by (simp add: round_loop.simps)
  then show ?case using 0 by simp
next
  case (Suc d)
  then have "i < 64" by simp
  then have "[i..<64] = i # [i + 1..<64]" by (simp add: upt_conv_Cons)
  then show ?case using Suc.hyps(1)[of "i + 1"] Suc.hyps(2) Suc.prems \<open>i < 64\<close>
    by (subst round_loop.simps) (simp add: hash_round_step)
qed

lemma chunk_padded:
  assumes "length M \<le> 13"
  shows "(M @ drop (length M) ((replicate 16 0)[15 := of_nat (4 * length M * 8)]))[length M := push_bit 31 1] = padded M"
proof -
  have "(replicate 16 (0 :: u32))[15 := v] = replicate 15 0 @ [v]" for v
    by (simp add: numeral_eq_Suc)
  then have "drop (length M) ((replicate 16 0)[15 := of_nat (4 * length M * 8)]) = replicate (15 - length M) 0 @ [of_nat (32 * length M) :: u32]"
    using assms by (simp add: ac_simps)
  moreover have "replicate (15 - length M) (0 :: u32) = 0 # replicate (13 - length M) 0 @ [0]"
  proof -
    have "15 - length M = Suc (Suc (13 - length M))" using assms by simp
    then show ?thesis by (simp add: replicate_append_same)
  qed
  ultimately show ?thesis by (simp add: padded_def)
qed

lemma sha256_hash_eq:
  assumes "length M \<le> 13"
  shows "sha256_hash M = Inr (sha256 M)"
proof -
  have len: "length (padded M) = 16" using assms by (simp add: padded_def)
  have "\<forall>j < 16. (padded M @ replicate 48 0) ! j = schedule (padded M) j" using len by (simp add: nth_append schedule.simps)
  then have w: "\<forall>j < 64. expand_loop 16 (padded M @ replicate 48 0) ! j = schedule (padded M) j"
    using expand_loop_schedule[of 16 "padded M @ replicate 48 0" "padded M"] len by simp
  define h0 :: working where "h0 = (0x6a09e667, 0xbb67ae85, 0x3c6ef372, 0xa54ff53a, 0x510e527f, 0x9b05688c, 0x1f83d9ab, 0x5be0cd19)"
  have init: "INITAL_HASH = words h0" by (simp add: INITAL_HASH_def h0_def)
  have "round_loop 0 (expand_loop 16 (padded M @ replicate 48 0)) (words h0) = words (compress (padded M) h0)"
    unfolding compress_def by (rule round_loop_compress[OF _ w]) simp
  then have "sha256_chunk (padded M) INITAL_HASH = sha256 M"
    unfolding sha256_chunk_def sha256_def Let_def h0_def[symmetric] init by (rule arg_cong)
  then show ?thesis using assms by (simp add: sha256_hash_def Let_def chunk_padded[simplified])
qed

lemma length_sha256 [simp]: "length (sha256 M) = 8"
proof -
  have "length (words h) = 8" for h by (cases h rule: words.cases) simp
  then show ?thesis by (simp add: sha256_def INITAL_HASH_def)
qed

section \<open>The generator hands out the chain of hashes\<close>

text \<open>A state is well-formed if it has a hash of 8 words and has used at most all of them.\<close>

definition prng_ok :: "prng_state \<Rightarrow> bool" where
  "prng_ok s \<longleftrightarrow> length (hash s) = 8 \<and> next_word s \<le> 8"

text \<open>The words of a hash, of the hash of the hash and so on.\<close>

definition chain :: "u32 list \<Rightarrow> nat \<Rightarrow> u32" where
  "chain h n = ((sha256 ^^ (n div 8)) h) ! (n mod 8)"

text \<open>The state after \<open>n\<close> words of the chain from \<open>h\<close>.\<close>

definition at_word :: "u32 list \<Rightarrow> nat \<Rightarrow> prng_state \<Rightarrow> bool" where
  "at_word h n s \<longleftrightarrow> length h = 8 \<and> (\<exists>j. hash s = (sha256 ^^ j) h \<and> next_word s \<le> 8 \<and> n = 8 * j + unat (next_word s))"

lemma length_chain: "length h = 8 \<Longrightarrow> length ((sha256 ^^ j) h) = 8"
  by (cases j) simp_all

lemma prng32_used:
  assumes "hash s = h" "length h = 8" "\<not> next_word s < 8"
  shows "prng32 s = prng32 \<lparr>hash = sha256 h, next_word = 0\<rparr>"
  using assms by (subst prng32.simps) (simp add: prng_scramble_def sha256_hash_eq)

lemma prng32_ready:
  assumes "length (hash s) = 8" "next_word s < 8"
  shows "prng32 s = Inr (hash s ! unat (next_word s), s\<lparr>next_word := next_word s + 1\<rparr>)"
  using assms by (subst prng32.simps) (simp add: word_less_nat_alt)

lemma prng32_chain:
  assumes "at_word h n s"
  shows "\<exists>s'. prng32 s = Inr (chain h n, s') \<and> at_word h (n + 1) s'"
proof -
  obtain j where j: "hash s = (sha256 ^^ j) h" "next_word s \<le> 8" "n = 8 * j + unat (next_word s)" and h: "length h = 8"
    using assms by (auto simp: at_word_def)
  have len: "length (hash s) = 8" using j(1) h by (simp add: length_chain)
  show ?thesis
  proof (cases "next_word s < 8")
    case True
    then have m: "unat (next_word s) < 8" by (simp add: word_less_nat_alt)
    then have "n div 8 = j" "n mod 8 = unat (next_word s)" using j(3) by simp_all
    moreover have "unat (next_word s + 1) = unat (next_word s) + 1" using m by (simp add: unat_plus_simple word_le_nat_alt unat_word_ariths)
    ultimately show ?thesis using prng32_ready[OF len True] j(1,3) h m
      by (auto simp: chain_def at_word_def word_le_nat_alt intro: exI[of _ j])
  next
    case False
    then have "next_word s = 8" using j(2) by simp
    then have n: "n = 8 * (j + 1)" using j(3) by simp
    have "prng32 s = prng32 \<lparr>hash = sha256 (hash s), next_word = 0\<rparr>" using prng32_used[OF refl len False] .
    also have "\<dots> = Inr (sha256 (hash s) ! 0, \<lparr>hash = sha256 (hash s), next_word = 1\<rparr>)" using prng32_ready[of "\<lparr>hash = sha256 (hash s), next_word = 0\<rparr>"] by simp
    finally show ?thesis using j(1) h n by (auto simp: chain_def at_word_def intro: exI[of _ "j + 1"])
  qed
qed

text \<open>A number of calls in a row.\<close>

fun draws :: "nat \<Rightarrow> prng_state \<Rightarrow> (u32 list \<times> prng_state) res" where
  "draws 0 s = Inr ([], s)"
| "draws (Suc n) s = bind_res (prng32 s) (\<lambda>(x, s). bind_res (draws n s) (\<lambda>(xs, s). Inr (x # xs, s)))"

lemma draws_chain:
  assumes "at_word h k s"
  shows "\<exists>s'. draws n s = Inr (map (chain h) [k..<k + n], s') \<and> at_word h (k + n) s'"
  using assms
proof (induction n arbitrary: k s)
  case (Suc n)
  obtain s1 where s1: "prng32 s = Inr (chain h k, s1)" "at_word h (k + 1) s1" using prng32_chain[OF Suc.prems] by blast
  obtain s2 where "draws n s1 = Inr (map (chain h) [k + 1..<k + 1 + n], s2)" "at_word h (k + 1 + n) s2" using Suc.IH[OF s1(2)] by blast
  moreover have "[k..<k + Suc n] = k # [k + 1..<k + 1 + n]" by (simp add: upt_conv_Cons)
  ultimately show ?case using s1(1) by simp
qed simp

lemma prng_init_at: "\<exists>s. prng_init seed = Inr s \<and> at_word (sha256 [ucast (drop_bit 32 seed), ucast seed]) 0 s"
  by (simp add: prng_init_def sha256_hash_eq at_word_def)

lemma at_word_self: "prng_ok s \<Longrightarrow> at_word (hash s) (unat (next_word s)) s"
  by (auto simp: prng_ok_def at_word_def intro: exI[of _ 0])

lemma at_word_ok: "at_word h n s \<Longrightarrow> prng_ok s"
  by (auto simp: prng_ok_def at_word_def length_chain)

section \<open>Properties\<close>



text \<open>
  C27: The generator hands out the chain of hashes: the \<open>n\<close> words drawn after \<open>prng_init\<close> are, in
  order and without a gap, the words of the hash of the seed, of the hash of that hash and so on.
\<close>

theorem prng32_draws_chain:
  "\<exists>s s'. prng_init seed = Inr s \<and> draws n s = Inr (map (chain (sha256 [ucast (drop_bit 32 seed), ucast seed])) [0..<n], s')"
proof -
  obtain s where s: "prng_init seed = Inr s" "at_word (sha256 [ucast (drop_bit 32 seed), ucast seed]) 0 s" using prng_init_at by blast
  then show ?thesis using draws_chain[OF s(2), of n] by auto
qed

text \<open>
  C28: The states of the generator are well-formed, eight words of which at most eight are used:
  \<open>prng_init\<close> makes such a state, and from one \<open>prng32\<close> and \<open>prng64\<close> return a number and such a
  state; no array is ever indexed out of range.
\<close>

theorem prng_type:
  "(\<exists>s. prng_init seed = Inr s \<and> prng_ok s) \<and>
   (prng_ok s \<longrightarrow> (\<exists>x s'. prng32 s = Inr (x, s') \<and> prng_ok s') \<and> (\<exists>y s'. prng64 s = Inr (y, s') \<and> prng_ok s'))"
proof (intro conjI impI)
  show "\<exists>s. prng_init seed = Inr s \<and> prng_ok s" using prng_init_at at_word_ok by blast
  have one: "\<exists>x s'. prng32 s = Inr (x, s') \<and> prng_ok s'" if "prng_ok s" for s
    using prng32_chain[OF at_word_self[OF that]] at_word_ok by blast
  assume s: "prng_ok s"
  show "\<exists>x s'. prng32 s = Inr (x, s') \<and> prng_ok s'" by (rule one[OF s])
  obtain x s1 where x: "prng32 s = Inr (x, s1)" "prng_ok s1" using one[OF s] by blast
  then obtain y s2 where "prng32 s1 = Inr (y, s2)" "prng_ok s2" using one by blast
  then show "\<exists>y s'. prng64 s = Inr (y, s') \<and> prng_ok s'" using x(1) by (simp add: prng64_def)
qed

theorem prng_type_witness:
  "prng_ok \<lparr>hash = INITAL_HASH, next_word = 8\<rparr> \<and> (\<exists>x s'. prng32 \<lparr>hash = INITAL_HASH, next_word = 8\<rparr> = Inr (x, s') \<and> prng_ok s')"
  using prng_type[of 0 "\<lparr>hash = INITAL_HASH, next_word = 8\<rparr>"] by (simp add: prng_ok_def INITAL_HASH_def)

end
