(* ===== verification/Argv.thy ===== *)
theory Argv
  imports CString
begin

text \<open>
  \<open>lib/argv.c\<close>: the arguments of \<open>main\<close> and the environment. The argument string and the environment
  are memories of their own; a pointer of \<open>__argv\<close> is an offset into \<open>args_copy\<close>, one of \<open>__environ\<close>
  an offset into the environment, and \<open>None\<close> is the null pointer the static arrays start with. A
  write behind the end of one of the arrays is a \<open>Fault\<close>.
\<close>

section \<open>State\<close>

record argv_state =
  argc :: nat
  args :: "mem option"
  argv :: "nat option list"
  environ :: "nat option list"
  args_copy :: mem
  copy_ptr :: nat

definition argv_initial :: argv_state where
  "argv_initial = \<lparr>argc = 0, args = None, argv = replicate 100 None, environ = replicate 200 None,
     args_copy = replicate 1000 0, copy_ptr = 0\<rparr>"

section \<open>Arguments\<close>

function skip_blanks :: "mem \<Rightarrow> nat \<Rightarrow> nat res" where
  "skip_blanks m p = bind_res (arr_get m p) (\<lambda>c. if isblank (sint c) then skip_blanks m (p + 1) else Inr p)"
  by pat_completeness auto
termination
  by (relation "measure (\<lambda>(m, p). length m - p)") (auto simp: arr_get_def split: if_splits)

text \<open>\<open>while (*args != '\0' && !isblank(*args)) *copy_ptr++ = *args++;\<close>\<close>

function copy_word :: "mem \<Rightarrow> nat \<Rightarrow> mem \<Rightarrow> nat \<Rightarrow> (nat \<times> mem \<times> nat) res" where
  "copy_word m p copy cp =
     bind_res (arr_get m p) (\<lambda>c.
       if c \<noteq> 0 \<and> \<not> isblank (sint c)
       then bind_res (arr_set copy cp c) (\<lambda>copy. copy_word m (p + 1) copy (cp + 1))
       else Inr (p, copy, cp))"
  by pat_completeness auto
termination
  by (relation "measure (\<lambda>(m, p, copy, cp). length m - p)") (auto simp: arr_get_def arr_set_def split: if_splits)

declare skip_blanks.simps [simp del] copy_word.simps [simp del]

lemma skip_blanks_le: "skip_blanks m p = Inr q \<Longrightarrow> p \<le> q \<and> q < length m"
proof (induction m p rule: skip_blanks.induct)
  case (1 m p)
  then show ?case by (subst (asm) (2) skip_blanks.simps) (fastforce simp: res_simps split: if_splits)
qed

lemma copy_word_le: "copy_word m p copy cp = Inr (q, copy', cp') \<Longrightarrow> p \<le> q"
proof (induction m p copy cp rule: copy_word.induct)
  case (1 m p copy cp)
  then show ?case by (subst (asm) (2) copy_word.simps) (fastforce simp: res_simps split: if_splits)
qed

text \<open>\<open>copy_word\<close> moves on when it starts at a character of a word.\<close>

lemma copy_word_less:
  "copy_word m p copy cp = Inr (q, copy', cp') \<Longrightarrow> m ! p \<noteq> 0 \<Longrightarrow> \<not> isblank (sint (m ! p)) \<Longrightarrow> p < q"
  by (subst (asm) copy_word.simps) (auto simp: res_simps dest: copy_word_le split: if_splits)

text \<open>The loop of \<open>__setup_args\<close>; \<open>n\<close> is \<open>argv - __argv\<close>.\<close>

lemma skip_blanks_stop: "skip_blanks m p = Inr q \<Longrightarrow> \<not> isblank (sint (m ! q))"
proof (induction m p rule: skip_blanks.induct)
  case (1 m p)
  then show ?case by (subst (asm) (2) skip_blanks.simps) (fastforce simp: res_simps split: if_splits)
qed

function setup_args_loop :: "mem \<Rightarrow> nat \<Rightarrow> nat \<Rightarrow> argv_state \<Rightarrow> (nat \<times> argv_state) res" where
  "setup_args_loop m p n s =
     (case skip_blanks m p of
        Inl e \<Rightarrow> Inl e
      | Inr q \<Rightarrow>
          if m ! q = 0 then Inr (n, s)
          else bind_res (arr_set (argv s) n (Some (copy_ptr s))) (\<lambda>av.
            (case copy_word m q (args_copy s) (copy_ptr s) of
               Inl e \<Rightarrow> Inl e
             | Inr (r, copy, cp) \<Rightarrow>
                 bind_res (arr_set copy cp 0) (\<lambda>copy.
                 setup_args_loop m r (n + 1) (s\<lparr>argv := av, args_copy := copy, copy_ptr := cp + 1\<rparr>)))))"
  by pat_completeness auto
termination
  by (relation "measure (\<lambda>(m, p, n, s). length m - p)")
    (auto dest!: copy_word_less simp: skip_blanks_stop, use skip_blanks_le in force)

declare setup_args_loop.simps [simp del]

text \<open>\<open>__setup_args\<close>\<close>

definition setup_args_words :: "argv_state \<Rightarrow> argv_state res" where
  "setup_args_words s = (case args s of
     None \<Rightarrow> Inl Fault
   | Some m \<Rightarrow> bind_res (setup_args_loop m 0 (argc s) s) (\<lambda>(n, s). Inr (s\<lparr>argc := n\<rparr>)))"

definition setup_args :: "argv_state \<Rightarrow> mem option \<Rightarrow> argv_state res" where
  "setup_args s a = (case a of None \<Rightarrow> Inr s | Some m \<Rightarrow> setup_args_words (s\<lparr>args := Some m\<rparr>))"

text \<open>\<open>strcpy\<close> from one memory into another.\<close>

function copy_string :: "mem \<Rightarrow> nat \<Rightarrow> mem \<Rightarrow> nat \<Rightarrow> mem res" where
  "copy_string m p copy cp =
     bind_res (arr_get m p) (\<lambda>c. bind_res (arr_set copy cp c) (\<lambda>copy.
       if c \<noteq> 0 then copy_string m (p + 1) copy (cp + 1) else Inr copy))"
  by pat_completeness auto
termination
  by (relation "measure (\<lambda>(m, p, copy, cp). length m - p)") (auto simp: arr_get_def arr_set_def split: if_splits)

declare copy_string.simps [simp del]

definition add_setup_arg :: "argv_state \<Rightarrow> mem \<Rightarrow> argv_state res" where
  "add_setup_arg s arg =
     bind_res (arr_set (argv s) (argc s) (Some (copy_ptr s))) (\<lambda>av.
     bind_res (arr_set (args_copy s) (copy_ptr s) 0) (\<lambda>copy.
     bind_res (copy_string arg 0 copy (copy_ptr s)) (\<lambda>copy.
     bind_res (strlen arg 0) (\<lambda>l.
     Inr (s\<lparr>argv := av, args_copy := copy, copy_ptr := copy_ptr s + (l + 1), argc := argc s + 1\<rparr>)))))"

definition setup_args_progname :: "argv_state \<Rightarrow> mem \<Rightarrow> mem option \<Rightarrow> argv_state res" where
  "setup_args_progname s progname a = bind_res (add_setup_arg s progname) (\<lambda>s. setup_args s a)"

section \<open>Environment\<close>

function env_eol :: "mem \<Rightarrow> nat \<Rightarrow> nat res" where
  "env_eol m env = bind_res (arr_get m env) (\<lambda>c. if c \<noteq> 0 \<and> c \<noteq> 10 then env_eol m (env + 1) else Inr env)"
  by pat_completeness auto
termination
  by (relation "measure (\<lambda>(m, p). length m - p)") (auto simp: arr_get_def split: if_splits)

text \<open>The end of the line, the memory and the text that is reported as invalid.\<close>

definition env_invalid_eol :: "mem \<Rightarrow> nat \<Rightarrow> (nat \<times> mem \<times> mem) res" where
  "env_invalid_eol m env =
     bind_res (env_eol m env) (\<lambda>eol.
     bind_res (arr_get m eol) (\<lambda>eol_old.
     bind_res (arr_set m eol 0) (\<lambda>m1.
     bind_res (strlen m1 env) (\<lambda>n.
     bind_res (arr_set m1 eol eol_old) (\<lambda>m2.
     Inr (eol, m2, take n (drop env m1)))))))"

text \<open>The scan of a name, \<open>while (*p && *p != '=' && *p != '\n')\<close>.\<close>

function env_name :: "mem \<Rightarrow> nat \<Rightarrow> bool \<Rightarrow> (nat \<times> bool) res" where
  "env_name m p invalid =
     bind_res (arr_get m p) (\<lambda>c.
       if c \<noteq> 0 \<and> c \<noteq> 61 \<and> c \<noteq> 10
       then env_name m (p + 1) (if isalnum (sint c) \<or> c = 95 then invalid else True)
       else Inr (p, invalid))"
  by pat_completeness auto
termination
  by (relation "measure (\<lambda>(m, p, invalid). length m - p)") (auto simp: arr_get_def split: if_splits)

declare env_eol.simps [simp del] env_name.simps [simp del]

text \<open>
  What \<open>env_next\<close> makes of the line at \<open>env\<close>, whose first character is \<open>c\<close>: a variable, a blank line,
  after which it goes on at the line behind the address, or a line to skip, with the address of
  its end and the text reported.
\<close>

datatype env_line = EnvVariable | EnvBlank nat | EnvSkip nat mem "mem list"

definition env_classify :: "mem \<Rightarrow> nat \<Rightarrow> u8 \<Rightarrow> env_line res" where
  "env_classify m env c =
     (if isalpha (sint c) \<or> c = 95 then
        bind_res (env_name m (env + 1) False) (\<lambda>(p, invalid).
        bind_res (arr_get m p) (\<lambda>d.
        let invalid = (if d \<noteq> 61 then True else invalid) in
        if invalid then bind_res (env_invalid_eol m env) (\<lambda>(e, m, msg). Inr (EnvSkip e m [msg]))
        else Inr EnvVariable))
      else
        bind_res (skip_blanks m env) (\<lambda>p.
        bind_res (arr_get m p) (\<lambda>d.
        if d = 10 then Inr (EnvBlank p)
        else if d = 35 then bind_res (env_eol m env) (\<lambda>e. Inr (EnvSkip e m []))
        else bind_res (env_invalid_eol m env) (\<lambda>(e, m, msg). Inr (EnvSkip e m [msg])))))"

lemma env_eol_le: "env_eol m p = Inr q \<Longrightarrow> p \<le> q \<and> q < length m"
proof (induction m p rule: env_eol.induct)
  case (1 m p)
  then show ?case by (subst (asm) (2) env_eol.simps) (fastforce simp: res_simps split: if_splits)
qed

lemma env_classify_progress:
  "env_classify m env c = Inr (EnvBlank p) \<Longrightarrow> env \<le> p \<and> p < length m"
  "env_classify m env c = Inr (EnvSkip e m' msg) \<Longrightarrow> env \<le> e \<and> e < length m \<and> length m' = length m"
  by (auto simp: env_classify_def env_invalid_eol_def res_simps Let_def dest!: skip_blanks_le env_eol_le split: if_splits prod.splits)

text \<open>The address, the memory and the reported texts.\<close>

function env_next :: "mem \<Rightarrow> nat \<Rightarrow> (nat \<times> mem \<times> mem list) res" where
  "env_next m env =
     (if \<not> env < length m then Inl Fault
      else if m ! env = 0 then Inr (env, m, [])
      else case env_classify m env (m ! env) of
        Inl err \<Rightarrow> Inl err
      | Inr EnvVariable \<Rightarrow> Inr (env, m, [])
      | Inr (EnvBlank p) \<Rightarrow> env_next m (p + 1)
      | Inr (EnvSkip e m' msg) \<Rightarrow>
          if m' ! e \<noteq> 0 then bind_res (env_next m' (e + 1)) (\<lambda>(r, m'', out). Inr (r, m'', msg @ out))
          else Inr (e, m', msg))"
  by pat_completeness auto
termination
  by (relation "measure (\<lambda>(m, p). length m - p)") (auto dest!: env_classify_progress)

declare env_next.simps [simp del]

text \<open>\<open>while (env < eof && *env && !(newline && *env == '\n')) ++env;\<close>\<close>

function env_value :: "mem \<Rightarrow> nat \<Rightarrow> nat \<Rightarrow> bool \<Rightarrow> nat res" where
  "env_value m env eof newline =
     (if env < eof then
        bind_res (arr_get m env) (\<lambda>c. if c \<noteq> 0 \<and> \<not> (newline \<and> c = 10) then env_value m (env + 1) eof newline else Inr env)
      else Inr env)"
  by pat_completeness auto
termination
  by (relation "measure (\<lambda>(m, env, eof, newline). eof - env)") auto

declare env_value.simps [simp del]

lemma env_value_le: "env_value m env eof newline = Inr e \<Longrightarrow> env \<le> e"
proof (induction m env eof newline rule: env_value.induct)
  case (1 m env eof newline)
  then show ?case by (subst (asm) (2) env_value.simps) (fastforce simp: res_simps split: if_splits)
qed

lemma env_next_le: "env_next m env = Inr (r, m', out) \<Longrightarrow> env \<le> r"
proof (induction m env arbitrary: r m' out rule: env_next.induct)
  case (1 m env)
  note run = 1(3)[unfolded env_next.simps[of m env]]
  show ?case
  proof (cases "env < length m \<and> m ! env \<noteq> 0")
    case True
    then obtain l where l: "env_classify m env (m ! env) = Inr l" using run by (auto split: sum.splits)
    show ?thesis
    proof (cases l)
      case EnvVariable
      then show ?thesis using run l True by simp
    next
      case (EnvBlank p)
      then have "env_next m (p + 1) = Inr (r, m', out)" using run l True by simp
      then show ?thesis using 1(1)[of _ p] env_classify_progress(1)[of m env "m ! env" p] EnvBlank l True by fastforce
    next
      case (EnvSkip e m1 msg)
      then have "env \<le> e" using env_classify_progress(2) l by blast
      moreover have "e \<le> r"
      proof (cases "m1 ! e = 0")
        case False
        then obtain out' where "env_next m1 (e + 1) = Inr (r, m', out')" using run l True EnvSkip by (auto simp: res_simps)
        then show ?thesis using 1(2)[of _ e m1 msg] EnvSkip l True False by fastforce
      qed (use run l True EnvSkip in simp)
      ultimately show ?thesis by simp
    qed
  qed (use run in \<open>auto split: if_splits\<close>)
qed

text \<open>The loop of \<open>setup_env\<close>; the result is the memory, the array of pointers and the texts reported.\<close>

function setup_env_loop :: "bool \<Rightarrow> nat \<Rightarrow> mem \<Rightarrow> nat \<Rightarrow> nat option list \<Rightarrow> nat \<Rightarrow> (mem \<times> nat option list \<times> mem list) res" where
  "setup_env_loop newline eof m env ev i =
     (if env < eof then
        (case if newline then env_next m env else Inr (env, m, []) of
           Inl err \<Rightarrow> Inl err
         | Inr (env', m', out) \<Rightarrow>
             if \<not> env' < length m' then Inl Fault
             else if m' ! env' = 0 \<or> env' \<ge> eof then Inr (m', ev, out)
             else bind_res (arr_set ev i (Some env')) (\<lambda>ev.
               (case env_value m' env' eof newline of
                  Inl err \<Rightarrow> Inl err
                | Inr e \<Rightarrow>
                    bind_res (arr_set m' e 0) (\<lambda>m''.
                    bind_res (setup_env_loop newline eof m'' (e + 1) ev (i + 1)) (\<lambda>(m, ev, out').
                    Inr (m, ev, out @ out'))))))
      else Inr (m, ev, []))"
  by pat_completeness auto
termination
  by (relation "measure (\<lambda>(newline, eof, m, env, ev, i). eof - env)")
    (auto dest!: env_next_le env_value_le split: if_splits)

declare setup_env_loop.simps [simp del]

text \<open>The environment of \<open>sz\<close> bytes at \<open>env\<close>; lines end in newlines when it has no terminator before its end.\<close>

definition setup_env :: "argv_state \<Rightarrow> mem \<Rightarrow> nat \<Rightarrow> nat \<Rightarrow> (argv_state \<times> mem \<times> mem list) res" where
  "setup_env s m env sz =
     (let eof = env + sz in
      bind_res (str_end m env) (\<lambda>p.
      bind_res (setup_env_loop (p = eof) eof m env (environ s) 0) (\<lambda>(m, ev, out).
      Inr (s\<lparr>environ := ev\<rparr>, m, out))))"

end
