(* ===== verification/ArgvArgs.thy ===== *)
theory ArgvArgs
  imports Argv
begin

text \<open>
  The arguments: \<open>__setup_args\<close> splits the string at blanks and stores the words one after the other
  in \<open>args_copy\<close>; it writes behind its arrays exactly when they are too small.
\<close>

section \<open>Writing a list into a list\<close>

definition patch :: "'a list \<Rightarrow> nat \<Rightarrow> 'a list \<Rightarrow> 'a list" where
  "patch xs n ys = take n xs @ ys @ drop (n + length ys) xs"

lemma patch_Nil [simp]: "patch xs n [] = xs"
  by (simp add: patch_def)

lemma patch_length [simp]: "n + length ys \<le> length xs \<Longrightarrow> length (patch xs n ys) = length xs"
  by (simp add: patch_def)

lemma patch_Cons: "n < length xs \<Longrightarrow> patch (xs[n := y]) (Suc n) ys = patch xs n (y # ys)"
  by (simp add: patch_def take_Suc_conv_app_nth)

lemma patch_append: "n + length ys \<le> length xs \<Longrightarrow> patch (patch xs n ys) (n + length ys) zs = patch xs n (ys @ zs)"
  by (simp add: patch_def ac_simps)

lemma patch_snoc: "n + length ys < length xs \<Longrightarrow> (patch xs n ys)[n + length ys := z] = patch xs n (ys @ [z])"
  using patch_append[of n ys xs "[z]"] patch_Cons[of "n + length ys" "patch xs n ys" z "[]"] by simp

lemma patch_nth: "n + length ys \<le> length xs \<Longrightarrow> i < length xs \<Longrightarrow>
    patch xs n ys ! i = (if n \<le> i \<and> i < n + length ys then ys ! (i - n) else xs ! i)"
  by (auto simp: patch_def nth_append min_def)

section \<open>Words\<close>

abbreviation blank :: "u8 \<Rightarrow> bool" where
  "blank c \<equiv> isblank (sint c)"

function arg_words :: "u8 list \<Rightarrow> u8 list list" where
  "arg_words t = (case dropWhile blank t of
     [] \<Rightarrow> []
   | c # u \<Rightarrow> takeWhile (\<lambda>c. \<not> blank c) (c # u) # arg_words (dropWhile (\<lambda>c. \<not> blank c) (c # u)))"
  by pat_completeness auto
termination
proof (relation "measure length")
  fix t c u assume "dropWhile blank t = c # u"
  moreover from this have "\<not> blank c" by (metis hd_dropWhile list.sel(1) list.distinct(1))
  ultimately show "(dropWhile (\<lambda>c. \<not> blank c) (c # u), t) \<in> measure length"
    using length_dropWhile_le[of "\<lambda>c. \<not> blank c" u] length_dropWhile_le[of blank t] by simp
qed simp

declare arg_words.simps [simp del]

lemma arg_words_Nil: "dropWhile blank t = [] \<Longrightarrow> arg_words t = []"
  by (simp only: arg_words.simps[of t] list.case)

lemma arg_words_Cons: "dropWhile blank t = c # u \<Longrightarrow>
    arg_words t = takeWhile (\<lambda>c. \<not> blank c) (c # u) # arg_words (dropWhile (\<lambda>c. \<not> blank c) (c # u))"
  by (simp only: arg_words.simps[of t] list.case)

text \<open>Words separated by single blanks are split into these words.\<close>

fun join_words :: "u8 list list \<Rightarrow> u8 list" where
  "join_words [] = []"
| "join_words [w] = w"
| "join_words (w # ws) = w @ 32 # join_words ws"

lemma arg_words_join:
  assumes "\<forall>w \<in> set ws. w \<noteq> [] \<and> (\<forall>c \<in> set w. \<not> blank c)"
  shows "arg_words (join_words ws) = ws"
  using assms
proof (induction ws rule: join_words.induct)
  case 1
  show ?case by (simp add: arg_words_Nil)
next
  case (2 w)
  then obtain c u where w: "w = c # u" by (cases w) auto
  have "takeWhile (\<lambda>c. \<not> blank c) w = w" "dropWhile (\<lambda>c. \<not> blank c) w = []" "dropWhile blank w = c # u"
    using 2 w by (simp_all add: takeWhile_eq_all_conv)
  then have "arg_words w = w # arg_words []" using arg_words_Cons[of w c u] w by simp
  then show ?case by (simp add: arg_words_Nil)
next
  case (3 w v vs)
  let ?r = "32 # join_words (v # vs)"
  have b: "blank 32" by (simp add: isblank_def)
  have w: "takeWhile (\<lambda>c. \<not> blank c) (w @ ?r) = w" "dropWhile (\<lambda>c. \<not> blank c) (w @ ?r) = ?r" "dropWhile blank (w @ ?r) = w @ ?r"
    using 3(2) b by (auto simp: takeWhile_append dropWhile_append dropWhile_eq_self_iff)
  have "arg_words ?r = arg_words (join_words (v # vs))" using b by (simp only: arg_words.simps[of ?r] arg_words.simps[of "join_words (v # vs)"]) simp
  then show ?case using w 3 arg_words_Cons[of "w @ ?r"] by (cases w) auto
qed

section \<open>The loops\<close>

lemma blank_0: "\<not> isblank 0"
  by (simp add: isblank_def)

lemma skip_blanks_text: "cstring_at m p t \<Longrightarrow> skip_blanks m p = Inr (p + length (takeWhile blank t))"
  by (induction t arbitrary: p) (subst skip_blanks.simps, auto simp: blank_0)+

lemma copy_word_text:
  assumes "cstring_at m p t" "cp \<le> length copy"
  shows "copy_word m p copy cp = (let w = takeWhile (\<lambda>c. \<not> blank c) t in
    if cp + length w \<le> length copy then Inr (p + length w, patch copy cp w, cp + length w) else Inl Fault)"
  using assms
proof (induction t arbitrary: p copy cp)
  case Nil
  then show ?case by (simp add: copy_word.simps[of m p])
next
  case (Cons c t)
  show ?case
  proof (cases "blank c")
    case False
    show ?thesis
    proof (cases "cp < length copy")
      case True
      then show ?thesis using Cons.prems False Cons.IH[of "Suc p" "Suc cp" "copy[cp := c]"]
        by (simp add: copy_word.simps[of m p] Let_def patch_Cons)
    qed (use Cons.prems False in \<open>simp add: copy_word.simps[of m p] Let_def arr_set_def\<close>)
  qed (use Cons.prems in \<open>simp add: copy_word.simps[of m p]\<close>)
qed

text \<open>The addresses of words stored from \<open>cp\<close> on, and the bytes stored.\<close>

fun word_ptrs :: "nat \<Rightarrow> u8 list list \<Rightarrow> nat list" where
  "word_ptrs cp [] = []"
| "word_ptrs cp (w # ws) = cp # word_ptrs (cp + (length w + 1)) ws"

definition word_bytes :: "u8 list list \<Rightarrow> u8 list" where
  "word_bytes ws = concat (map (\<lambda>w. w @ [0]) ws)"

definition args_fit :: "argv_state \<Rightarrow> nat \<Rightarrow> u8 list list \<Rightarrow> bool" where
  "args_fit s n ws \<longleftrightarrow> n + length ws \<le> length (argv s) \<and> copy_ptr s + length (word_bytes ws) \<le> length (args_copy s)"

definition store_args :: "argv_state \<Rightarrow> nat \<Rightarrow> u8 list list \<Rightarrow> argv_state" where
  "store_args s n ws = s\<lparr>argv := patch (argv s) n (map Some (word_ptrs (copy_ptr s) ws)),
     args_copy := patch (args_copy s) (copy_ptr s) (word_bytes ws), copy_ptr := copy_ptr s + length (word_bytes ws)\<rparr>"

lemma word_ptrs_length [simp]: "length (word_ptrs cp ws) = length ws"
  by (induction ws arbitrary: cp) simp_all

lemma setup_args_loop_text:
  assumes "cstring_at m p t" "n \<le> length (argv s)" "copy_ptr s \<le> length (args_copy s)"
  shows "setup_args_loop m p n s =
    (if args_fit s n (arg_words t) then Inr (n + length (arg_words t), store_args s n (arg_words t)) else Inl Fault)"
  using assms
proof (induction t arbitrary: p n s rule: arg_words.induct)
  case (1 t)
  let ?k = "length (takeWhile blank t)"
  have skip: "skip_blanks m p = Inr (p + ?k)" by (rule skip_blanks_text[OF 1(2)])
  have dw: "drop ?k t = dropWhile blank t" by (rule dropWhile_eq_drop[symmetric])
  have at: "cstring_at m (p + ?k) (dropWhile blank t)"
    using cstring_at_drop[OF 1(2), of ?k] length_takeWhile_le[of blank t] dw by simp
  show ?case
  proof (cases "dropWhile blank t")
    case Nil
    then have "arg_words t = []" by (rule arg_words_Nil)
    then show ?thesis using at Nil skip 1(3,4)
      by (simp add: setup_args_loop.simps[of m p] args_fit_def store_args_def word_bytes_def)
  next
    case (Cons c u)
    let ?w = "takeWhile (\<lambda>c. \<not> blank c) (c # u)" and ?r = "dropWhile (\<lambda>c. \<not> blank c) (c # u)"
    have ws: "arg_words t = ?w # arg_words ?r" by (rule arg_words_Cons[OF Cons])
    have c: "m ! (p + ?k) \<noteq> 0" using at Cons by simp
    have rest: "cstring_at m (p + ?k + length ?w) ?r"
      using cstring_at_drop[OF at[unfolded Cons], of "length ?w"] dropWhile_eq_drop[of "\<lambda>c. \<not> blank c" "c # u"]
        length_takeWhile_le[of "\<lambda>c. \<not> blank c" "c # u"] by simp
    note cw = copy_word_text[OF at[unfolded Cons] 1(4), unfolded Let_def]
    note run = setup_args_loop.simps[of m p n s] skip c cw
    consider "n < length (argv s)" "copy_ptr s + length ?w < length (args_copy s)" | "n = length (argv s)"
      | "n < length (argv s)" "copy_ptr s + length ?w = length (args_copy s)" | "copy_ptr s + length ?w > length (args_copy s)"
      using 1(3) by linarith
    then show ?thesis
    proof cases
      case 1
      let ?cp = "copy_ptr s" and ?c = "patch (args_copy s) (copy_ptr s) (?w @ [0])"
      let ?s = "s\<lparr>argv := (argv s)[n := Some (copy_ptr s)], args_copy := ?c, copy_ptr := copy_ptr s + length ?w + 1\<rparr>"
      have "(patch (args_copy s) ?cp ?w)[?cp + length ?w := 0] = ?c" using 1(2) by (rule patch_snoc)
      then have r: "setup_args_loop m p n s = setup_args_loop m (p + ?k + length ?w) (n + 1) ?s"
        using 1 by (simp add: run)
      have fit: "args_fit ?s (n + 1) (arg_words ?r) = args_fit s n (arg_words t)"
        using 1(2) by (simp add: ws args_fit_def word_bytes_def algebra_simps)
      have "store_args ?s (n + 1) (arg_words ?r) = store_args s n (arg_words t)"
        using 1 patch_append[of ?cp "?w @ [0]" "args_copy s" "word_bytes (arg_words ?r)"] patch_Cons[OF 1(1)]
        by (simp add: ws store_args_def word_bytes_def)
      then show ?thesis unfolding r
        using "1.IH"[OF Cons rest, of "n + 1" ?s] 1 fit by (simp add: ws)
    next
      case 2
      then show ?thesis using skip c unfolding setup_args_loop.simps[of m p n s] by (simp add: ws args_fit_def arr_set_def)
    next
      case 3
      then show ?thesis by (simp add: run ws args_fit_def arr_set_def word_bytes_def)
    next
      case 4
      then show ?thesis by (cases "n < length (argv s)") (simp_all add: run ws args_fit_def arr_set_def word_bytes_def)
    qed
  qed
qed

section \<open>Arguments in memory\<close>

lemma patch_string:
  assumes "cp + length (w @ 0 # zs) \<le> length xs" "0 \<notin> set w"
  shows "cstring_at (patch xs cp (w @ 0 # zs)) cp w"
proof (rule cstring_atI)
  show "patch xs cp (w @ 0 # zs) ! (cp + i) = w ! i" if "i < length w" for i
    using assms(1) that by (subst patch_nth) (auto simp: nth_append)
  show "patch xs cp (w @ 0 # zs) ! (cp + length w) = 0" using assms(1) by (subst patch_nth) auto
qed (use assms in auto)

lemma word_strings:
  assumes "cp + length (word_bytes ws) \<le> length xs" "\<forall>w \<in> set ws. 0 \<notin> set w" "i < length ws"
  shows "cstring_at (patch xs cp (word_bytes ws)) (word_ptrs cp ws ! i) (ws ! i)"
  using assms
proof (induction ws arbitrary: cp xs i)
  case (Cons w ws)
  have b: "word_bytes (w # ws) = (w @ [0]) @ word_bytes ws" by (simp add: word_bytes_def)
  show ?case
  proof (cases i)
    case 0
    then show ?thesis using patch_string[of cp w "word_bytes ws" xs] Cons.prems by (simp add: b)
  next
    case (Suc j)
    let ?xs = "patch xs cp (w @ [0])"
    have "patch xs cp (word_bytes (w # ws)) = patch ?xs (cp + (length w + 1)) (word_bytes ws)"
      using patch_append[of cp "w @ [0]" xs "word_bytes ws"] Cons.prems(1) by (simp add: b)
    then show ?thesis using Cons.IH[of "cp + (length w + 1)" ?xs j] Cons.prems Suc by (simp add: b)
  qed
qed simp

lemma arg_words_nonzero: "0 \<notin> set t \<Longrightarrow> \<forall>w \<in> set (arg_words t). 0 \<notin> set w \<and> w \<noteq> [] \<and> (\<forall>c \<in> set w. \<not> blank c)"
proof (induction t rule: arg_words.induct)
  case (1 t)
  show ?case
  proof (cases "dropWhile blank t")
    case Nil
    then show ?thesis by (simp add: arg_words_Nil)
  next
    case (Cons c u)
    have c: "\<not> blank c" using Cons hd_dropWhile[of blank t] by simp
    have z: "0 \<notin> set (c # u)" using 1(2) Cons set_dropWhileD[of _ blank t] by metis
    then have "0 \<notin> set (dropWhile (\<lambda>c. \<not> blank c) (c # u))" using set_dropWhileD by metis
    then have rest: "\<forall>w \<in> set (arg_words (dropWhile (\<lambda>c. \<not> blank c) (c # u))). 0 \<notin> set w \<and> w \<noteq> [] \<and> (\<forall>c \<in> set w. \<not> blank c)"
      by (rule 1(1)[OF Cons])
    let ?w = "takeWhile (\<lambda>c. \<not> blank c) (c # u)"
    have "0 \<notin> set ?w" using z set_takeWhileD[of 0 _ "c # u"] by blast
    moreover have "\<forall>x \<in> set ?w. \<not> blank x" using set_takeWhileD[of _ "\<lambda>c. \<not> blank c" "c # u"] by blast
    moreover have "?w \<noteq> []" using c by simp
    ultimately have one: "0 \<notin> set ?w \<and> ?w \<noteq> [] \<and> (\<forall>c \<in> set ?w. \<not> blank c)" by (intro conjI)
    show ?thesis unfolding arg_words_Cons[OF Cons] list.set(2)
    proof (rule ballI, erule insertE)
      fix w assume "w = ?w"
      then show "0 \<notin> set w \<and> w \<noteq> [] \<and> (\<forall>c \<in> set w. \<not> blank c)" by (rule ssubst) (rule one)
    qed (rule bspec[OF rest])
  qed
qed

lemma setup_args_eq:
  assumes "cstring_at m 0 t" "argc s \<le> length (argv s)" "copy_ptr s \<le> length (args_copy s)"
  shows "setup_args s (Some m) = (if args_fit s (argc s) (arg_words t)
    then Inr (store_args (s\<lparr>args := Some m, argc := argc s + length (arg_words t)\<rparr>) (argc s) (arg_words t)) else Inl Fault)"
  using setup_args_loop_text[of m 0 t "argc s" "s\<lparr>args := Some m\<rparr>"] assms
  by (simp add: setup_args_def setup_args_words_def args_fit_def store_args_def)

lemma copy_string_text:
  "cstring_at m p t \<Longrightarrow> cp \<le> length copy \<Longrightarrow> copy_string m p copy cp =
    (if cp + length t < length copy then Inr (patch copy cp (t @ [0])) else Inl Fault)"
proof (induction t arbitrary: p copy cp)
  case Nil
  then show ?case using patch_Cons[of cp copy 0 "[]"] by (auto simp: copy_string.simps[of m p] arr_set_def)
next
  case (Cons c t)
  show ?case
  proof (cases "cp < length copy")
    case True
    then show ?thesis using Cons.prems Cons.IH[of "Suc p" "Suc cp" "copy[cp := c]"]
      by (simp add: copy_string.simps[of m p] patch_Cons)
  qed (use Cons.prems in \<open>simp add: copy_string.simps[of m p] arr_set_def\<close>)
qed

lemma add_setup_arg_eq:
  assumes "cstring_at m 0 w" "argc s \<le> length (argv s)" "copy_ptr s \<le> length (args_copy s)"
  shows "add_setup_arg s m = (if args_fit s (argc s) [w]
    then Inr (store_args (s\<lparr>argc := argc s + 1\<rparr>) (argc s) [w]) else Inl Fault)"
proof (cases "argc s < length (argv s) \<and> copy_ptr s < length (args_copy s)")
  case True
  let ?c = "(args_copy s)[copy_ptr s := 0]"
  have "patch ?c (copy_ptr s) (w @ [0]) = patch (args_copy s) (copy_ptr s) (w @ [0])"
    by (simp add: patch_def)
  moreover have "patch (argv s) (argc s) [Some (copy_ptr s)] = (argv s)[argc s := Some (copy_ptr s)]"
    using patch_Cons[of "argc s" "argv s" "Some (copy_ptr s)" "[]"] True by simp
  ultimately show ?thesis
    using True copy_string_text[OF assms(1), of "copy_ptr s" ?c] strlen_correct[OF assms(1)]
    by (auto simp: add_setup_arg_def args_fit_def store_args_def word_bytes_def)
next
  case False
  then show ?thesis using assms(2,3) by (auto simp: add_setup_arg_def args_fit_def word_bytes_def arr_set_def)
qed

text \<open>
  C24: \<open>setup_args\<close> on a terminated string appends its words to \<open>__argv\<close>: the new entries point to
  terminated copies of the words, in order, and the entries and copies made before stay as
  they are. It does so exactly when the words fit; otherwise it writes behind one of its arrays.
\<close>

theorem setup_args_splits:
  assumes "0 \<notin> set t" "argc s \<le> length (argv s)" "copy_ptr s \<le> length (args_copy s)"
  shows "case setup_args s (Some (t @ 0 # rest)) of
      Inl err \<Rightarrow> err = Fault \<and> \<not> args_fit s (argc s) (arg_words t)
    | Inr s' \<Rightarrow> args_fit s (argc s) (arg_words t) \<and> argc s' = argc s + length (arg_words t) \<and>
        (\<forall>i < length (arg_words t). \<exists>p. argv s' ! (argc s + i) = Some p \<and> cstring_at (args_copy s') p (arg_words t ! i)) \<and>
        (\<forall>i < argc s. argv s' ! i = argv s ! i) \<and> take (copy_ptr s) (args_copy s') = take (copy_ptr s) (args_copy s)"
proof -
  let ?m = "t @ 0 # rest" and ?ws = "arg_words t"
  have "cstring_at ?m 0 t" using assms(1) by (intro cstring_atI) (auto simp: nth_append)
  note e = setup_args_eq[OF this assms(2,3)]
  show ?thesis
  proof (cases "args_fit s (argc s) ?ws")
    case True
    then have f: "argc s + length ?ws \<le> length (argv s)" "copy_ptr s + length (word_bytes ?ws) \<le> length (args_copy s)"
      by (simp_all add: args_fit_def)
    have "\<exists>p. patch (argv s) (argc s) (map Some (word_ptrs (copy_ptr s) ?ws)) ! (argc s + i) = Some p \<and>
        cstring_at (patch (args_copy s) (copy_ptr s) (word_bytes ?ws)) p (?ws ! i)" if "i < length ?ws" for i
      using word_strings[OF f(2) _ that] arg_words_nonzero[OF assms(1)] f(1) that by (auto simp: patch_nth)
    moreover have "take (copy_ptr s) (patch (args_copy s) (copy_ptr s) (word_bytes ?ws)) = take (copy_ptr s) (args_copy s)"
      using assms(3) by (simp add: patch_def)
    ultimately show ?thesis using e True f by (auto simp: store_args_def patch_nth)
  qed (use e in simp)
qed

theorem setup_args_splits_witness:
  "\<exists>s'. setup_args argv_initial (Some [32, 97, 98, 9, 32, 99, 0]) = Inr s' \<and> argc s' = 2 \<and>
     (\<exists>p. argv s' ! 1 = Some p \<and> cstring_at (args_copy s') p [99])"
proof -
  have w: "arg_words [32, 97, 98, 9, 32, 99] = [[97, 98], [99]]" by (simp add: arg_words.simps isblank_def)
  have "args_fit argv_initial 0 [[97, 98], [99]]" by (simp add: args_fit_def argv_initial_def word_bytes_def)
  then show ?thesis
    using setup_args_splits[of "[32, 97, 98, 9, 32, 99]" argv_initial "[]"] w
    by (auto simp: argv_initial_def split: sum.splits dest: spec[of _ 1])
qed

end
