(* ===== verification/ArgvEnv.thy ===== *)
theory ArgvEnv
  imports ArgvArgs
begin

text \<open>
  The environment: in a text of lines, \<open>setup_env\<close> collects the lines that assign a variable, skipping
  and partly reporting all others.
\<close>

section \<open>Lines\<close>

definition line :: "u8 list \<Rightarrow> u8 list" where
  "line t = takeWhile (\<lambda>c. c \<noteq> 10) t"

abbreviation name_start :: "u8 \<Rightarrow> bool" where
  "name_start c \<equiv> isalpha (sint c) \<or> c = 95"

abbreviation name_char :: "u8 \<Rightarrow> bool" where
  "name_char c \<equiv> isalnum (sint c) \<or> c = 95"

text \<open>A name, an equals sign and a value.\<close>

definition env_valid :: "u8 list \<Rightarrow> bool" where
  "env_valid l \<longleftrightarrow> l \<noteq> [] \<and> name_start (hd l) \<and> 61 \<in> set l \<and> (\<forall>c \<in> set (takeWhile (\<lambda>c. c \<noteq> 61) l). name_char c)"

abbreviation next_lines :: "u8 list \<Rightarrow> u8 list" where
  "next_lines t \<equiv> drop (Suc (length (line t))) t"

function env_vars :: "u8 list \<Rightarrow> u8 list list" where
  "env_vars t = (if t = [] then [] else (if env_valid (line t) then [line t] else []) @ env_vars (next_lines t))"
  by pat_completeness auto
termination
  by (relation "measure length") auto

text \<open>The length of the lines before the first variable.\<close>

function env_skip :: "u8 list \<Rightarrow> nat" where
  "env_skip t = (if t = [] \<or> env_valid (line t) then 0 else min (length t) (Suc (length (line t))) + env_skip (next_lines t))"
  by pat_completeness auto
termination
  by (relation "measure length") auto

declare env_vars.simps [simp del] env_skip.simps [simp del]

lemma line_le: "length (line t) \<le> length t"
  by (simp add: line_def length_takeWhile_le)

lemma env_skip_vars: "env_skip t \<le> length t \<and> env_vars (drop (env_skip t) t) = env_vars t \<and>
    (drop (env_skip t) t = [] \<or> env_valid (line (drop (env_skip t) t)))"
proof (induction t rule: env_skip.induct)
  case (1 t)
  show ?case
  proof (cases "t = [] \<or> env_valid (line t)")
    case False
    let ?n = "Suc (length (line t))" and ?u = "next_lines t"
    have e: "env_skip t = min (length t) ?n + env_skip ?u" "env_vars t = env_vars ?u"
      using False by (simp_all add: env_skip.simps[of t] env_vars.simps[of t])
    have d: "drop (env_skip t) t = drop (env_skip ?u) ?u" unfolding e(1) by (simp add: min_def add.commute)
    have "env_skip ?u \<le> length t - ?n" using 1[OF False] by simp
    then have "env_skip t \<le> length t" unfolding e(1)
      by (cases "length t \<le> ?n") (simp_all add: min_def env_skip.simps[of "[]"])
    then show ?thesis using 1[OF False] e(2) d by simp
  qed (simp add: env_skip.simps[of t])
qed

section \<open>Scanning a line\<close>

lemma env_eol_text: "cstring_at m p t \<Longrightarrow> env_eol m p = Inr (p + length (line t))"
  by (induction t arbitrary: p) (subst env_eol.simps, auto simp: line_def)+

text \<open>The character behind a prefix of a string.\<close>

lemma cstring_at_char: "cstring_at m p t \<Longrightarrow> n \<le> length t \<Longrightarrow> p + n < length m \<and> m ! (p + n) = (if n < length t then t ! n else 0)"
  using cstring_at_bound[of m p t] cstring_at_nth[of m p t n] cstring_at_end[of m p t] by auto

lemma line_string: "cstring_at m p t \<Longrightarrow> cstring_at (m[p + length (line t) := 0]) p (line t)"
proof (rule cstring_atI)
  assume a: "cstring_at m p t"
  show "p + length (line t) < length (m[p + length (line t) := 0])" using cstring_at_bound[OF a] line_le[of t] by simp
  then show "m[p + length (line t) := 0] ! (p + length (line t)) = 0" by simp
  show "0 \<notin> set (line t)" using cstring_at_nonzero[OF a] unfolding line_def by (blast dest: set_takeWhileD)
  show "m[p + length (line t) := 0] ! (p + i) = line t ! i" if "i < length (line t)" for i
    using cstring_at_nth[OF a, of i] that line_le[of t] by (simp add: line_def takeWhile_nth)
qed

lemma env_invalid_text:
  assumes "cstring_at m p t"
  shows "env_invalid_eol m p = Inr (p + length (line t), m, line t)"
proof -
  let ?e = "p + length (line t)"
  have b: "?e < length m" using cstring_at_bound[OF assms] line_le[of t] by simp
  note l = line_string[OF assms]
  show ?thesis
    using env_eol_text[OF assms] b strlen_correct[OF l] cstring_at_take_drop[OF l] by (simp add: env_invalid_eol_def)
qed

lemma env_name_text: "cstring_at m p t \<Longrightarrow> env_name m p bad =
    (let u = takeWhile (\<lambda>c. c \<noteq> 61 \<and> c \<noteq> 10) t in Inr (p + length u, bad \<or> \<not> (\<forall>c \<in> set u. name_char c)))"
  by (induction t arbitrary: p bad) (subst env_name.simps, auto simp: Let_def)+

lemma name_split:
  "takeWhile (\<lambda>c. c \<noteq> 61) (line t) = takeWhile (\<lambda>c. c \<noteq> 61 \<and> c \<noteq> 10) t"
  "61 \<in> set (line t) \<longleftrightarrow> (let n = length (takeWhile (\<lambda>c. c \<noteq> 61 \<and> c \<noteq> 10) t) in n < length t \<and> t ! n = 61)"
  by (induction t) (auto simp: line_def Let_def)

lemma blank_split:
  "length (takeWhile blank t) < length t \<Longrightarrow> t ! length (takeWhile blank t) = 10 \<Longrightarrow> length (takeWhile blank t) = length (line t)"
proof (induction t)
  case (Cons c t)
  have "\<not> isblank 10" by (simp add: isblank_def)
  then show ?case using Cons by (auto simp: line_def split: if_splits)
qed simp

lemma classify_variable:
  assumes "cstring_at m p (c # t)" "name_start c"
  shows "env_classify m p c = (if env_valid (line (c # t)) then Inr EnvVariable
    else Inr (EnvSkip (p + length (line (c # t))) m [line (c # t)]))"
proof -
  have at: "cstring_at m (p + 1) t" using assms(1) by simp
  have nc: "c \<noteq> 10" "c \<noteq> 61" "name_char c" using assms(2) by (auto simp: isalpha_def isupper_def islower_def isalnum_def)
  let ?u = "takeWhile (\<lambda>c. c \<noteq> 61 \<and> c \<noteq> 10) t"
  have l: "line (c # t) = c # line t" using nc(1) by (simp add: line_def)
  have v: "env_valid (line (c # t)) \<longleftrightarrow> length ?u < length t \<and> t ! length ?u = 61 \<and> (\<forall>c \<in> set ?u. name_char c)"
    using assms(2) nc name_split[of t] by (auto simp: l env_valid_def Let_def)
  have d: "arr_get m (p + 1 + length ?u) = Inr (if length ?u < length t then t ! length ?u else 0)"
    using cstring_at_char[OF at, of "length ?u"] length_takeWhile_le[of _ t] by (simp add: arr_get_def)
  show ?thesis
    using assms(2) env_name_text[OF at, of False] d env_invalid_text[OF assms(1)] v
    by (auto simp: env_classify_def Let_def)
qed

lemma classify_other:
  assumes "cstring_at m p (c # t)" "\<not> name_start c"
  shows "env_classify m p c = Inr (EnvBlank (p + length (line (c # t)))) \<and> length (line (c # t)) < length (c # t) \<or>
    (\<exists>msg. env_classify m p c = Inr (EnvSkip (p + length (line (c # t))) m msg))"
proof -
  let ?t = "c # t"
  let ?k = "length (takeWhile blank ?t)"
  have sk: "skip_blanks m p = Inr (p + ?k)" by (rule skip_blanks_text[OF assms(1)])
  have k: "?k \<le> length ?t" by (rule length_takeWhile_le)
  have d: "arr_get m (p + ?k) = Inr (if ?k < length ?t then ?t ! ?k else 0)"
    using cstring_at_char[OF assms(1) k] by (simp add: arr_get_def)
  note run = env_classify_def[of m p c] sk d env_invalid_text[OF assms(1)] env_eol_text[OF assms(1)]
  show ?thesis
  proof (cases "?k < length ?t \<and> ?t ! ?k = 10")
    case True
    then have "?k = length (line ?t)" using blank_split by blast
    then show ?thesis using assms(2) True run by auto
  next
    case False
    then show ?thesis using assms(2) run by auto
  qed
qed

section \<open>The next variable\<close>

lemma next_lines_string:
  assumes "cstring_at m p t" "length (line t) < length t"
  shows "cstring_at m (p + length (line t) + 1) (next_lines t)" "m ! (p + length (line t)) = 10"
proof -
  show "cstring_at m (p + length (line t) + 1) (next_lines t)"
    using cstring_at_drop[OF assms(1), of "Suc (length (line t))"] assms(2) by simp
  have "t ! length (line t) = 10" using nth_length_takeWhile[of "\<lambda>c. c \<noteq> 10" t] assms(2) by (simp add: line_def)
  then show "m ! (p + length (line t)) = 10" using cstring_at_nth[OF assms] by simp
qed

lemma env_next_text: "cstring_at m p t \<Longrightarrow> \<exists>out. env_next m p = Inr (p + env_skip t, m, out)"
proof (induction t arbitrary: p rule: env_skip.induct)
  case (1 t)
  show ?case
  proof (cases t)
    case Nil
    then show ?thesis using 1(2) by (simp add: env_next.simps[of m p] env_skip.simps)
  next
    case (Cons c u)
    let ?e = "p + length (line t)"
    have c: "p < length m" "m ! p = c" "c \<noteq> 0" using 1(2) Cons by auto
    note run = env_next.simps[of m p] c
    show ?thesis
    proof (cases "env_valid (line t)")
      case True
      then have "name_start c" using Cons by (auto simp: env_valid_def line_def split: if_splits)
      then show ?thesis using classify_variable[of m p c u] 1(2) Cons True run by (simp add: env_skip.simps[of "c # u"])
    next
      case False
      consider "env_classify m p c = Inr (EnvBlank ?e)" "length (line t) < length t" | msg where "env_classify m p c = Inr (EnvSkip ?e m msg)"
        using classify_variable[of m p c u] classify_other[of m p c u] 1(2) Cons False by (cases "name_start c") auto
      note cases = this
      show ?thesis
      proof (cases "length (line t) < length t")
        case True
        note nx = next_lines_string[OF 1(2) True]
        have sk: "env_skip t = Suc (length (line t)) + env_skip (next_lines t)"
          using False Cons True by (subst env_skip.simps) (simp add: min_def)
        obtain out where out: "env_next m (?e + 1) = Inr (?e + 1 + env_skip (next_lines t), m, out)"
          using 1(1)[OF _ nx(1)] Cons False by auto
        from cases show ?thesis
        proof cases
          case 1
          then show ?thesis using run out sk by simp
        next
          case (2 msg)
          then show ?thesis using run out sk nx(2) by simp
        qed
      next
        case last: False
        then have e: "length (line t) = length t" using line_le[of t] by simp
        have "env_skip t = length t" using False Cons e by (subst env_skip.simps) (simp add: env_skip.simps[of "[]"])
        moreover have "m ! ?e = 0" using cstring_at_end[OF 1(2)] e by simp
        moreover obtain msg where "env_classify m p c = Inr (EnvSkip ?e m msg)" using cases last by auto
        ultimately show ?thesis using run e by simp
      qed
    qed
  qed
qed

section \<open>All variables\<close>

lemma env_value_text: "cstring_at m p t \<Longrightarrow> env_value m p (p + length t) True = Inr (p + length (line t))"
proof (induction t arbitrary: p)
  case (Cons c t)
  then show ?case using Cons.IH[of "Suc p"] by (subst env_value.simps) (simp add: line_def)
qed (simp add: env_value.simps line_def)

lemma cstring_at_take:
  assumes "cstring_at m p s" "take n m' = take n m" "p + length s < n" "length m' = length m"
  shows "cstring_at m' p s"
proof -
  have eq: "m' ! k = m ! k" if "k < n" for k using nth_take[OF that, of m'] nth_take[OF that, of m] assms(2) by simp
  show ?thesis
    using cstring_at_bound[OF assms(1)] cstring_at_end[OF assms(1)] cstring_at_nonzero[OF assms(1)] cstring_at_nth[OF assms(1)] assms(3,4)
    by (intro cstring_atI) (simp_all add: eq)
qed

text \<open>The strings \<open>vs\<close> at the addresses \<open>ptrs\<close>.\<close>

abbreviation strings_at :: "mem \<Rightarrow> nat list \<Rightarrow> u8 list list \<Rightarrow> bool" where
  "strings_at m ptrs vs \<equiv> list_all2 (cstring_at m) ptrs vs"

definition env_result :: "mem \<Rightarrow> nat \<Rightarrow> nat option list \<Rightarrow> nat \<Rightarrow> u8 list list \<Rightarrow> (mem \<times> nat option list \<times> mem list) res \<Rightarrow> bool" where
  "env_result m p ev i vs r \<longleftrightarrow> (if i + length vs \<le> length ev
     then \<exists>m' ptrs out. r = Inr (m', patch ev i (map Some ptrs), out) \<and> length m' = length m \<and> take p m' = take p m \<and>
       strings_at m' ptrs vs
     else r = Inl Fault)"

lemma env_result_Nil: "i \<le> length ev \<Longrightarrow> env_result m p ev i [] (Inr (m, ev, out))"
  unfolding env_result_def by (auto intro!: exI[of _ "[]"])

text \<open>A variable is ended by a terminator, and what follows leaves it alone.\<close>

lemma env_result_Cons:
  assumes at: "cstring_at m p (line u)" and q: "q = p + length (line u) + 1"
    and i: "i < length ev" and pre: "p' \<le> p" "take p' m = take p' m0" "length m = length m0"
    and res: "env_result m q (ev[i := Some p]) (Suc i) vs r"
  shows "env_result m0 p' ev i (line u # vs) (bind_res r (\<lambda>(m, ev, out'). Inr (m, ev, out @ out')))"
proof (cases "Suc i + length vs \<le> length ev")
  case True
  obtain m' ptrs o' where r: "r = Inr (m', patch (ev[i := Some p]) (Suc i) (map Some ptrs), o')"
    and l: "length m' = length m" and t: "take q m' = take q m" and a: "strings_at m' ptrs vs"
    using res True unfolding env_result_def by auto
  have "cstring_at m' p (line u)" using cstring_at_take[OF at t _ l] q by simp
  then have "strings_at m' (p # ptrs) (line u # vs)" using a by simp
  moreover have "take p' m' = take p' m0"
    using arg_cong[OF t, of "take p'"] pre q by (simp add: min_def split: if_splits)
  moreover have "bind_res r (\<lambda>(m, ev, out'). Inr (m, ev, out @ out')) = Inr (m', patch ev i (map Some (p # ptrs)), out @ o')"
    using r i by (simp add: patch_Cons)
  ultimately show ?thesis using True l pre(3) unfolding env_result_def
    by (intro if_bool_eq_conj[THEN iffD2] conjI impI exI[of _ m'] exI[of _ "p # ptrs"] exI[of _ "out @ o'"]) simp_all
qed (use res in \<open>auto simp: env_result_def\<close>)

text \<open>The round of the loop that meets the variable \<open>line u\<close>.\<close>

lemma setup_env_loop_round:
  assumes nx: "env_next m p = Inr (p', m, out)" and p: "p < eof" and u: "cstring_at m p' u" "u \<noteq> []" and eof: "eof = p' + length u"
  shows "setup_env_loop True eof m p ev i = bind_res (arr_set ev i (Some p')) (\<lambda>ev.
    bind_res (setup_env_loop True eof (m[p' + length (line u) := 0]) (p' + length (line u) + 1) ev (Suc i)) (\<lambda>(m, ev, out').
    Inr (m, ev, out @ out')))"
proof -
  have "p' + length (line u) < length m" using cstring_at_bound[OF u(1)] line_le[of u] by simp
  moreover have "m ! p' \<noteq> 0" "p' < eof" using u eof by (cases u; simp)+
  ultimately show ?thesis
    using p nx env_value_text[OF u(1)] eof by (subst setup_env_loop.simps) (simp add: arr_set_def)
qed

lemma setup_env_loop_text:
  "cstring_at m p t \<Longrightarrow> i \<le> length ev \<Longrightarrow> env_result m p ev i (env_vars t) (setup_env_loop True (p + length t) m p ev i)"
proof (induction t arbitrary: m p ev i rule: length_induct)
  case (1 t)
  note at = 1(2) and i = 1(3)
  define u p' where "u = drop (env_skip t) t" and "p' = p + env_skip t"
  note u = u_def p'_def
  let ?eof = "p + length t" and ?e = "p' + length (line u)"
  obtain out where nx: "env_next m p = Inr (p', m, out)" using env_next_text[OF at] unfolding u by blast
  have sk: "env_skip t \<le> length t" and vs: "env_vars t = env_vars u" and uv: "u = [] \<or> env_valid (line u)"
    using env_skip_vars[of t] unfolding u by auto
  have au: "cstring_at m p' u" using cstring_at_drop[OF at sk] unfolding u .
  have eof: "?eof = p' + length u" using sk unfolding u by simp
  show ?case
  proof (cases "u = []")
    case True
    then have "m ! p' = 0" "p' < length m" using au by simp_all
    then have "\<exists>out. setup_env_loop True ?eof m p ev i = Inr (m, ev, out)" using nx by (subst setup_env_loop.simps) simp
    moreover have "env_vars t = []" using vs True by (simp add: env_vars.simps[of "[]"])
    ultimately show ?thesis using i env_result_Nil by auto
  next
    case False
    let ?m = "m[?e := 0]"
    let ?r = "\<lambda>ev. setup_env_loop True ?eof ?m (?e + 1) ev (Suc i)"
    have t: "p < ?eof" using False unfolding u by (cases t) auto
    have vs': "env_vars t = line u # env_vars (next_lines u)" using uv False unfolding vs by (subst env_vars.simps) simp
    have rest: "env_result ?m (?e + 1) ev (Suc i) (env_vars (next_lines u)) (?r ev)" if "i < length ev" for ev
    proof (cases "length (line u) < length u")
      case True
      have "cstring_at ?m (?e + 1) (next_lines u)" using next_lines_string(1)[OF au True] by (intro cstring_at_update) auto
      moreover have "length (next_lines u) < length t" using True sk unfolding u by simp
      moreover have "?eof = ?e + 1 + length (next_lines u)" using eof True by simp
      ultimately show ?thesis using 1(1)[rule_format, of "next_lines u" ?m "?e + 1" "Suc i" ev] that by (simp only: Suc_leI)
    next
      case last: False
      then have "\<not> ?e + 1 < ?eof" "env_vars (next_lines u) = []" using eof by (simp_all add: env_vars.simps[of "[]"])
      then show ?thesis using that by (simp add: setup_env_loop.simps env_result_Nil)
    qed
    show ?thesis
    proof (cases "i < length ev")
      case True
      then show ?thesis
        unfolding vs' setup_env_loop_round[OF nx t au False eof]
        using env_result_Cons[OF line_string[OF au] refl True _ _ _ rest] by (simp add: arr_set_def u)
    qed (simp add: setup_env_loop_round[OF nx t au False eof] vs' env_result_def arr_set_def)
  qed
qed

text \<open>
  C25: On a text of lines \<open>setup_env\<close> stores, in the order of the text, a pointer to each line that is a
  name (a letter or underscore, then letters, digits and underscores), an equals sign and a value;
  each pointer is to a string that is exactly the line.  Comments, blank lines and invalid lines
  take no entry, the remaining entries and the memory before the text are unchanged.  The only
  failure is the write behind \<open>__environ\<close>, when there are more variables than entries.
\<close>

theorem setup_env_lines:
  assumes "cstring_at m env t"
  shows "case setup_env s m env (length t) of
      Inl err \<Rightarrow> err = Fault \<and> length (environ s) < length (env_vars t)
    | Inr (s', m', out) \<Rightarrow> length (env_vars t) \<le> length (environ s) \<and> length m' = length m \<and> take env m' = take env m \<and>
        (\<exists>ptrs. strings_at m' ptrs (env_vars t) \<and> s' = s\<lparr>environ := map Some ptrs @ drop (length ptrs) (environ s)\<rparr>)"
proof -
  let ?r = "setup_env_loop True (env + length t) m env (environ s) 0"
  have run: "setup_env s m env (length t) = bind_res ?r (\<lambda>(m, ev, out). Inr (s\<lparr>environ := ev\<rparr>, m, out))"
    using str_end_correct[OF assms] by (simp add: setup_env_def)
  have res: "env_result m env (environ s) 0 (env_vars t) ?r" using setup_env_loop_text[OF assms] by simp
  show ?thesis
  proof (cases "length (env_vars t) \<le> length (environ s)")
    case True
    then obtain m' ptrs out where "?r = Inr (m', patch (environ s) 0 (map Some ptrs), out)" "length m' = length m"
        "take env m' = take env m" "strings_at m' ptrs (env_vars t)"
      using res unfolding env_result_def by (simp only: add_0 if_True) blast
    then show ?thesis using True by (simp only: run bind_res_def sum.case prod.case patch_def take_0 append_Nil add_0 length_map) blast
  next
    case False
    then show ?thesis using res by (simp add: run env_result_def)
  qed
qed

text \<open>A comment, a variable, an invalid line, a blank line and a variable without a newline behind it.\<close>

definition env_example :: "u8 list" where
  "env_example = [35, 120, 10, 65, 61, 49, 10, 49, 61, 50, 10, 32, 10, 95, 66, 61]"

lemma env_example_at: "cstring_at (env_example @ [0]) 0 env_example"
  by (simp add: env_example_def)

lemma env_example_vars: "env_vars env_example = [[65, 61, 49], [95, 66, 61]]"
  by code_simp

theorem setup_env_lines_witness:
  "case setup_env argv_initial (env_example @ [0]) 0 (length env_example) of
     Inl err \<Rightarrow> False
   | Inr (s', m', out) \<Rightarrow> \<exists>p q. cstring_at m' p [65, 61, 49] \<and> cstring_at m' q [95, 66, 61] \<and>
       environ s' = [Some p, Some q] @ replicate 198 None"
proof -
  have e: "environ argv_initial = replicate 200 None" by (simp only: argv_initial_def argv_state.simps)
  have d: "drop (length ptrs) (replicate 200 None) = replicate 198 None" if "length ptrs = 2" for ptrs :: "nat list"
    using that by (simp only: drop_replicate) simp
  show ?thesis
  proof (cases "setup_env argv_initial (env_example @ [0]) 0 (length env_example)")
    case (Inl err)
    then show ?thesis using setup_env_lines[OF env_example_at, of argv_initial] by (simp add: env_example_vars e)
  next
    case (Inr r)
    obtain s' m' out where r: "r = (s', m', out)" by (cases r)
    obtain ptrs where p: "strings_at m' ptrs [[65, 61, 49], [95, 66, 61]]"
        "s' = argv_initial\<lparr>environ := map Some ptrs @ drop (length ptrs) (environ argv_initial)\<rparr>"
      using setup_env_lines[OF env_example_at, of argv_initial] unfolding Inr r env_example_vars sum.case prod.case by blast
    obtain p q where pq: "ptrs = [p, q]" "cstring_at m' p [65, 61, 49]" "cstring_at m' q [95, 66, 61]"
      using p(1) unfolding list_all2_Cons2 list_all2_Nil2 by blast
    have "environ s' = [Some p, Some q] @ replicate 198 None" using p(2) d[of ptrs] pq(1) e by simp
    then show ?thesis using pq(2,3) unfolding Inr r sum.case prod.case by blast
  qed
qed

end
