(* ===== verification/Spec2Isabelle.thy ===== *)
theory Spec2Isabelle
  imports Ldiv32 PrintfRefine Memregions VmallocProps AccessLoop Rand ArgvEnv
begin

text \<open>
  A verification library for kvm-unit-tests: the memory management and the support code under
  \<open>src/lib\<close>, as the x86-64 build configures it, and the page-table access tests of
  \<open>src/x86/access.c\<close>, which run on top of them.

  \<^bold>\<open>The program.\<close> A test is a small kernel. Its start-up code gives the free physical memory to the
  early allocator (\<open>lib/alloc_phys.c\<close>), which moves a boundary through it. \<open>setup_vm\<close>
  (\<open>lib/vmalloc.c\<close>) takes what is unused and hands it to the page allocator
  (\<open>lib/alloc_page.c\<close>), a buddy allocator whose free lists are the circular lists of \<open>lib/list.h\<close>;
  it then builds page tables that map the memory one to one (\<open>lib/x86/vm.c\<close>, with tables from the
  page allocator) and sets up the allocator of virtual memory. \<open>malloc\<close> and \<open>memalign\<close>
  (\<open>lib/alloc.c\<close>) call whichever of the three allocators is in charge. Arguments and environment
  come from \<open>lib/argv.c\<close>, memory maps of the firmware go to \<open>lib/memregions.c\<close>, output is formatted by
  \<open>lib/printf.c\<close>, and \<open>lib/string.c\<close>, \<open>lib/rand.c\<close>, \<open>lib/bitops.h\<close> and \<open>lib/ldiv32.c\<close> are helpers.

  \<^bold>\<open>Conventions.\<close> Machine integers are words at their width; page frame numbers, array indices and
  orders, which the code keeps below the width, are natural numbers. A function that can fail
  returns a \<open>res\<close>: \<open>AssertFail\<close> for a failed \<open>assert\<close>, \<open>Fault\<close> for an access outside an array or
  through a null pointer, \<open>Undef\<close> for what C leaves undefined, \<open>NoFuel\<close> for the bound of a loop.
  State is passed explicitly, in records that have the static variables of the file as fields.
  A spinlock is no part of the state, each operation being one step under it.

  \<^item> \<open>Prelude\<close>: the result type and its rewrite rules (\<open>res_simps\<close>), arrays, words and lists.
  \<^item> \<open>LinkedList\<close> (\<open>lib/list.h\<close>): the operations on a heap of nodes. The locale \<open>list_forest\<close> is
    what the page allocator relies on: the operations act on disjoint abstract lists. It is
    interpreted by the model's operations.
  \<^item> \<open>CString\<close>, \<open>Strtol\<close> (\<open>lib/string.c\<close>, \<open>lib/ctype.h\<close>, \<open>parse_keyval\<close> of \<open>lib/util.c\<close>): strings in a
    byte memory; the number parsers read the value of the digits.
  \<^item> \<open>Bitops\<close> (\<open>lib/bitops.h\<close>, \<open>lib/libcflat.h\<close>): masks, orders and alignment.
  \<^item> \<open>AllocPage\<close> (\<open>lib/alloc_page.c\<close>): the model, with \<open>mem_area\<close> per area and \<open>alloc_state\<close> for the file.
    \<open>AllocPageInv\<close> has the invariant of an area and what splitting and merging keep of it,
    \<open>AllocPageOps\<close> allocation, release and reservation in one area, \<open>AllocPageInit\<close> the addition of an
    area, \<open>AllocPageGlobal\<close> the invariant over all areas and the states reachable by calls
    (\<open>reach\<close>), \<open>AllocPageProps\<close> the properties: blocks in use never overlap, no call fails an
    assertion or runs on, what each call returns, and where the code departs from its comments.
  \<^item> \<open>AllocPhys\<close>, \<open>Alloc\<close> (\<open>lib/alloc_phys.c\<close>, \<open>lib/alloc.c\<close>): the locale \<open>allocator\<close> is what \<open>malloc\<close> needs,
    interpreted by the early and by the page allocator; requests in sequence get disjoint
    aligned blocks.
  \<^item> \<open>X86Paging\<close>, \<open>X86Vm\<close> (\<open>lib/x86/asm/page.h\<close>, \<open>lib/x86/vm.c\<close>): entries, and the functions that install,
    look up and split them, over any function that supplies pages. \<open>X86Tree\<close> gives tables their
    meaning, the leaf found for an address, and the locale \<open>page_source\<close> that the tables
    need of the supplier; \<open>X86Map\<close> and \<open>X86Split\<close> prove the range loops and the splitting of large pages
    inside it; \<open>X86Mmu\<close> interprets it by the page allocator and has the properties.
  \<^item> \<open>Vmalloc\<close> (\<open>lib/vmalloc.c\<close>, \<open>setup_mmu\<close>): the model, in which the words of the metadata are read and
    written through the page tables. \<open>VmallocPages\<close> and \<open>VmallocInv\<close> hold the lemmas and the invariant,
    \<open>VmallocCorrect\<close> and \<open>VmallocFree\<close> the request and the release, \<open>VmallocSetup\<close> the
    establishment of the invariant by \<open>setup_vm\<close> from the early allocator on, \<open>VmallocProps\<close> the properties.
  \<^item> \<open>Printf\<close> (\<open>lib/printf.c\<close>): \<open>vsnprintf\<close> with every conversion. \<open>PrintfSpec\<close> is an abstract formatter,
    \<open>PrintfRefine\<close> that \<open>vsnprintf\<close> implements it, the round trip with \<open>strtol\<close>, and two overruns.
  \<^item> \<open>Argv\<close> (\<open>lib/argv.c\<close>): the model; \<open>ArgvArgs\<close> relates the arguments to the words of the text,
    \<open>ArgvEnv\<close> the environment to its lines that assign a variable.
  \<^item> \<open>Memregions\<close> (\<open>lib/memregions.c\<close>): the table of regions, its well-formedness and the flags of
    addresses.
  \<^item> \<open>Rand\<close> (\<open>lib/rand.c\<close>): the generator, whose hash is SHA-256 of FIPS 180-4.
  \<^item> \<open>Ldiv32\<close> (\<open>lib/ldiv32.c\<close>): division by shift and subtract is the machine's division.
  \<^item> \<open>Access\<close>, \<open>AccessRun\<close> (\<open>x86/access.c\<close>): test cases as sets of flags, the tables they set up, the
    predicted outcome, and the enumeration of all cases. The processor is a parameter, a
    platform; \<open>AccessArch\<close> is the page walk of the architecture manuals, which a platform is
    assumed to follow in the theorems. \<open>AccessEntries\<close>, \<open>AccessCorrect\<close> and \<open>AccessExec\<close> prove that the
    prediction then agrees with every access, \<open>AccessLoop\<close> that the run reaches every legal case and ends.

  \<^bold>\<open>Bounds.\<close> The loop of \<open>_free_pages\<close> has fuel \<open>NLISTS\<close>, the number of orders, since each round but the
  last increments the order; \<open>_reserve_one_page\<close> has 256, since each split decrements a byte.
  The walks over page tables have the number of levels. \<open>walk_ptes\<close> has \<open>2^52\<close>, the number of
  pages of the address space. Loops that need not end for all arguments (\<open>install_pages\<close>,
  \<open>any_present_pages\<close>, \<open>ac_test_bump\<close>, \<open>exec_loop\<close>, \<open>walk_pte\<close>) are partial functions with the value \<open>None\<close>
  where they do not; the properties on the first four state that they return. Every other
  recursion is total with a termination proof.

  \<^bold>\<open>Not modelled.\<close> Console, report and migration output, device access (PCI, virtio, the test device),
  firmware tables (device tree, ACPI, EFI; their memory maps are lists of entries here), descriptor
  tables, interrupts, further processors and the writing of control registers, whose effect
  is the processor's; assembly and scripts; the libraries and tests of the other architectures; and
  the x86 tests that execute single instructions and observe the processor, which have
  no behaviour of their own without a model of these instructions.
\<close>

end
